(* ===== verification/Prelude.thy ===== *)
theory Prelude
  imports Main "HOL-Library.Word" "HOL-Library.List_Lexorder" "HOL-Library.Product_Lexorder"
    "HOL-Library.Char_ord" "HOL-Library.Multiset" "HOL-Library.Sublist"
begin

unbundle bit_operations_syntax

text \<open>
  Shared vocabulary of the development: the Rust integer types as words, byte
  strings with their lexicographic order, little-endian codecs, the slice and
  iterator operations of the standard library that several components use, and
  the parsing combinators behind every length-prefixed format of the storage
  node. Two interfaces are stated here as locales: a prefix codec (an encoder
  with a decoder that hands back the unread input) and a framed codec, which in
  addition refuses an input that ends inside a frame.

  Conventions. A \<open>u64\<close>, \<open>u32\<close>, \<open>u16\<close> or \<open>u8\<close> is a word of that width and its
  \<open>+\<close>, \<open>-\<close> wrap, as in the release profile of the workspace, which leaves
  overflow checks off. A \<open>usize\<close> that counts elements or bytes held in memory is
  a natural number. A panic is \<open>None\<close> and an \<open>Err\<close> is \<open>Inl\<close>. A read position in
  a byte buffer is represented by the unread suffix of the buffer.
\<close>

named_theorems codec_simps \<open>rewrite rules of the byte codecs\<close>
named_theorems step_inv \<open>invariant preservation, one fact per operation\<close>

section \<open>Integers and byte strings\<close>

type_synonym byte = "8 word"
type_synonym u16 = "16 word"
type_synonym u32 = "32 word"
type_synonym u64 = "64 word"
type_synonym bytes = "byte list"
type_synonym uuid = "128 word"

text \<open>\<open>to_le n w\<close> is \<open>w.to_le_bytes()\<close> of an integer of \<open>n\<close> bytes; \<open>from_le\<close> is
  \<open>from_le_bytes\<close>.\<close>

definition to_le :: "nat \<Rightarrow> 'a::len word \<Rightarrow> bytes" where
  "to_le n w = map (\<lambda>i. ucast (drop_bit (8 * i) w)) [0..<n]"

fun from_le :: "bytes \<Rightarrow> 'a::len word" where
  "from_le [] = 0"
| "from_le (b # bs) = ucast b OR push_bit 8 (from_le bs)"

text \<open>Big-endian, as used for timestamps at the head of a sort key.\<close>

definition from_be :: "bytes \<Rightarrow> 'a::len word" where
  "from_be bs = from_le (rev bs)"

text \<open>A byte string literal such as \<open>b"WOWBLOOM"\<close>.\<close>

definition ascii :: "string \<Rightarrow> bytes" where
  "ascii s = map of_char s"

lemma length_ascii [simp]: "length (ascii s) = length s"
  by (simp add: ascii_def)

lemma length_to_le [simp]: "length (to_le n w) = n"
  by (simp add: to_le_def)

lemma to_le_nonempty [simp]: "to_le n w = [] \<longleftrightarrow> n = 0"
  by (metis length_to_le length_0_conv)

lemma bit_from_le:
  "bit (from_le bs :: 'a::len word) i \<longleftrightarrow>
     i < LENGTH('a) \<and> i < 8 * length bs \<and> bit (bs ! (i div 8)) (i mod 8)"
proof (induction bs arbitrary: i)
  case Nil
  then show ?case by simp
next
  case (Cons b bs)
  show ?case
  proof (cases "i < 8")
    case True
    then show ?thesis
      by (auto simp: bit_or_iff bit_push_bit_iff bit_ucast_iff dest: bit_imp_le_length)
  next
    case False
    then have nb: "\<not> bit b i" by (auto dest: bit_imp_le_length)
    from False have "i div 8 = Suc ((i - 8) div 8)" "i mod 8 = (i - 8) mod 8"
      by (simp_all add: le_div_geq le_mod_geq not_less)
    with False nb show ?thesis
      by (auto simp: bit_or_iff bit_push_bit_iff bit_ucast_iff Cons.IH)
  qed
qed

lemma from_le_to_le:
  assumes "LENGTH('a) = 8 * n"
  shows "from_le (to_le n (w :: 'a::len word)) = w"
proof (rule bit_word_eqI)
  fix i assume i: "i < LENGTH('a)"
  with assms have "i div 8 < n" by auto
  with i assms show "bit (from_le (to_le n w) :: 'a word) i \<longleftrightarrow> bit w i"
    by (simp add: bit_from_le to_le_def bit_ucast_iff bit_drop_bit_eq)
qed

lemma to_le_from_le:
  assumes "length bs = n" "LENGTH('a) = 8 * n"
  shows "to_le n (from_le bs :: 'a::len word) = bs"
proof (rule nth_equalityI)
  fix j assume "j < length (to_le n (from_le bs :: 'a word))"
  then have j: "j < n" by simp
  show "to_le n (from_le bs :: 'a word) ! j = bs ! j"
  proof (rule bit_word_eqI)
    fix i assume "i < LENGTH(8)"
    then have i: "i < 8" by simp
    with j have "8 * j + i < 8 * n" by linarith
    with i j assms show "bit (to_le n (from_le bs :: 'a word) ! j) i \<longleftrightarrow> bit (bs ! j) i"
      by (simp add: to_le_def bit_ucast_iff bit_drop_bit_eq bit_from_le)
  qed
qed (simp add: assms)

lemmas le_u16 = from_le_to_le [where ?'a = 16 and n = 2, simplified]
lemmas le_u32 [codec_simps] = from_le_to_le [where ?'a = 32 and n = 4, simplified]
lemmas le_u64 [codec_simps] = from_le_to_le [where ?'a = 64 and n = 8, simplified]

text \<open>\<open>usize as u32\<close> truncates; below the width it loses nothing.\<close>

lemma unat_u32_of_nat: "n < 2 ^ 32 \<Longrightarrow> unat (of_nat n :: u32) = n"
  by (simp add: unat_of_nat)

lemma unat_u64_next:
  fixes w :: u64
  assumes "unat w + 1 < 2 ^ 64"
  shows "unat (w + 1) = unat w + 1" "w < w + 1"
proof -
  show "unat (w + 1) = unat w + 1" using assms by (simp add: unat_word_ariths)
  then show "w < w + 1" by (simp add: word_less_nat_alt)
qed

text \<open>Decimal formatting, \<open>{}\<close> and \<open>{:010}\<close>.\<close>

fun show_nat :: "nat \<Rightarrow> string" where
  "show_nat n =
     (let d = char_of (48 + n mod 10 :: nat) in if n < 10 then [d] else show_nat (n div 10) @ [d])"

declare show_nat.simps [simp del]

definition show_pad10 :: "nat \<Rightarrow> string" where
  "show_pad10 n = (let s = show_nat n in replicate (10 - length s) (CHR ''0'') @ s)"

section \<open>Saturating arithmetic\<close>

definition u64_max :: u64 where "u64_max = - 1"

definition saturating_sub :: "'a::len word \<Rightarrow> 'a word \<Rightarrow> 'a word" where
  "saturating_sub a b = (if a < b then 0 else a - b)"

definition saturating_mul :: "'a::len word \<Rightarrow> 'a word \<Rightarrow> 'a word" where
  "saturating_mul a b = (if unat a * unat b < 2 ^ LENGTH('a) then a * b else - 1)"

definition saturating_pow :: "'a::len word \<Rightarrow> nat \<Rightarrow> 'a word" where
  "saturating_pow a n = (if unat a ^ n < 2 ^ LENGTH('a) then a ^ n else - 1)"

lemma unat_minus_one_max: "unat (- 1 :: 'a::len word) = 2 ^ LENGTH('a) - 1"
  by (simp add: unsigned_minus_1_eq_mask mask_eq_exp_minus_1)

lemma unat_saturating_sub: "unat (saturating_sub a b) = unat a - unat b"
  by (auto simp: saturating_sub_def word_less_nat_alt unat_sub word_le_nat_alt)

lemma unat_saturating_mul:
  "unat (saturating_mul a b :: 'a::len word) = min (2 ^ LENGTH('a) - 1) (unat a * unat b)"
proof (cases "unat a * unat b < 2 ^ LENGTH('a)")
  case True
  then show ?thesis by (simp add: saturating_mul_def unat_mult_lem [THEN iffD1])
next
  case False
  then show ?thesis by (simp add: saturating_mul_def unat_minus_one_max)
qed

lemma unat_pow_lt:
  "unat (a :: 'a::len word) ^ n < 2 ^ LENGTH('a) \<Longrightarrow> unat (a ^ n) = unat a ^ n"
proof (induction n)
  case 0
  then show ?case by simp
next
  case (Suc n)
  show ?case
  proof (cases "unat a = 0")
    case True
    then have "a = 0" by (simp add: unat_eq_zero)
    then show ?thesis by simp
  next
    case False
    then have "unat a ^ n \<le> unat a ^ Suc n" by simp
    with Suc.prems have "unat a ^ n < 2 ^ LENGTH('a)" by linarith
    then have "unat (a ^ n) = unat a ^ n" by (rule Suc.IH)
    with Suc.prems show ?thesis by (simp add: unat_mult_lem [THEN iffD1])
  qed
qed

lemma unat_saturating_pow:
  "unat (saturating_pow a n :: 'a::len word) = min (2 ^ LENGTH('a) - 1) (unat a ^ n)"
  by (auto simp: saturating_pow_def unat_minus_one_max unat_pow_lt)

section \<open>Slices and iterators\<close>

text \<open>\<open>slice.chunks(n)\<close> for \<open>n > 0\<close>; the library function panics for \<open>0\<close>, which each
  caller's model states as a branch of its own.\<close>

fun chunks :: "nat \<Rightarrow> 'a list \<Rightarrow> 'a list list" where
  "chunks n xs = (if n = 0 \<or> xs = [] then [] else take n xs # chunks n (drop n xs))"

declare chunks.simps [simp del]

lemma chunks_Nil [simp]: "chunks n [] = []"
  by (simp add: chunks.simps)

lemma chunks_step: "0 < n \<Longrightarrow> xs \<noteq> [] \<Longrightarrow> chunks n xs = take n xs # chunks n (drop n xs)"
  by (simp add: chunks.simps [of n xs])

lemma concat_chunks: "0 < n \<Longrightarrow> concat (chunks n xs) = xs"
proof (induction n xs rule: chunks.induct)
  case (1 n xs)
  then show ?case by (cases "xs = []") (simp_all add: chunks_step)
qed

lemma chunks_nth:
  "0 < n \<Longrightarrow> g < length (chunks n xs) \<Longrightarrow> chunks n xs ! g = take n (drop (g * n) xs)"
proof (induction n xs arbitrary: g rule: chunks.induct)
  case (1 n xs)
  show ?case
  proof (cases "xs = []")
    case True
    with "1.prems" show ?thesis by simp
  next
    case False
    show ?thesis
    proof (cases g)
      case 0
      with False "1.prems" show ?thesis by (simp add: chunks_step)
    next
      case (Suc h)
      with False "1.prems" have "chunks n (drop n xs) ! h = take n (drop (h * n) (drop n xs))"
        by (intro "1.IH") (simp_all add: chunks_step)
      with False Suc "1.prems" show ?thesis by (simp add: chunks_step add.commute)
    qed
  qed
qed

lemma length_chunks: "0 < n \<Longrightarrow> length (chunks n xs) = (length xs + n - 1) div n"
proof (induction n xs rule: chunks.induct)
  case (1 n xs)
  show ?case
  proof (cases "xs = []")
    case True
    with "1.prems" show ?thesis by simp
  next
    case False
    with "1" have IH: "length (chunks n (drop n xs)) = (length xs - n + n - 1) div n" by simp
    show ?thesis
    proof (cases "length xs < n")
      case True
      with False "1.prems" have "drop n xs = []" by simp
      moreover have "(length xs + n - 1) div n = 1"
      proof (rule div_nat_eqI)
        from False have "0 < length xs" by simp
        then show "n * 1 \<le> length xs + n - 1" by linarith
        from True show "length xs + n - 1 < n * Suc 1" by simp
      qed
      ultimately show ?thesis using False "1.prems" by (simp add: chunks_step)
    next
      case ge: False
      then have e: "length xs + n - 1 = (length xs - 1) + n" using "1.prems" by simp
      have "(length xs + n - 1) div n = Suc ((length xs - 1) div n)"
        unfolding e using "1.prems"(1) by (simp add: div_add_self2)
      with False IH ge "1.prems" show ?thesis by (simp add: chunks_step)
    qed
  qed
qed

text \<open>Row \<open>i\<close> lives in granule \<open>i div n\<close> at offset \<open>i mod n\<close>.\<close>

lemma chunks_row:
  assumes "0 < n" "i < length xs"
  shows "i div n < length (chunks n xs)"
    and "i mod n < length (chunks n xs ! (i div n))"
    and "chunks n xs ! (i div n) ! (i mod n) = xs ! i"
proof -
  from assms(2) have pos: "0 < length xs" by auto
  have e: "length xs + n - 1 = (length xs - 1) + n" using pos by linarith
  have len: "length (chunks n xs) = (length xs - 1) div n + 1"
    unfolding length_chunks [OF assms(1)] e using assms(1) by (simp add: div_add_self2)
  from assms(2) have "i div n \<le> (length xs - 1) div n" by (intro div_le_mono) simp
  with len show lt: "i div n < length (chunks n xs)" by simp
  from assms(1) lt have nth: "chunks n xs ! (i div n) = take n (drop (i div n * n) xs)"
    by (rule chunks_nth)
  have "i div n * n + i mod n = i" by simp
  with assms(2) have m: "i mod n < length xs - i div n * n" by linarith
  from assms(1) have "i mod n < n" by simp
  with m nth show "i mod n < length (chunks n xs ! (i div n))" by simp
  from \<open>i mod n < n\<close> m nth show "chunks n xs ! (i div n) ! (i mod n) = xs ! i" by simp
qed

lemma chunks_row_mem:
  assumes "0 < n" "i < length xs"
  shows "xs ! i \<in> set (chunks n xs ! (i div n))"
  using chunks_row [OF assms] by (metis nth_mem)

lemma slices_eq_chunks:
  assumes "0 < n"
  shows "map (\<lambda>i. take n (drop (i * n) xs)) [0..<(length xs + n - 1) div n] = chunks n xs"
proof (rule nth_equalityI)
  show len: "length (map (\<lambda>i. take n (drop (i * n) xs)) [0..<(length xs + n - 1) div n]) =
      length (chunks n xs)"
    using assms by (simp add: length_chunks)
  fix i assume i: "i < length (map (\<lambda>i. take n (drop (i * n) xs)) [0..<(length xs + n - 1) div n])"
  then have "i < length (chunks n xs)" unfolding len .
  from chunks_nth [OF assms this] i
  show "map (\<lambda>i. take n (drop (i * n) xs)) [0..<(length xs + n - 1) div n] ! i = chunks n xs ! i"
    by simp
qed

text \<open>\<open>iter().min()\<close> and \<open>iter().max()\<close>; \<open>min_by_key\<close> keeps the first minimum,
  \<open>max_by_key\<close> the last maximum.\<close>

definition iter_min :: "'a::linorder list \<Rightarrow> 'a option" where
  "iter_min xs = (case xs of [] \<Rightarrow> None | x # ys \<Rightarrow> Some (fold min ys x))"

definition iter_max :: "'a::linorder list \<Rightarrow> 'a option" where
  "iter_max xs = (case xs of [] \<Rightarrow> None | x # ys \<Rightarrow> Some (fold max ys x))"

definition min_by_key :: "('a \<Rightarrow> 'b::linorder) \<Rightarrow> 'a list \<Rightarrow> 'a option" where
  "min_by_key f xs =
     (case xs of [] \<Rightarrow> None | x # ys \<Rightarrow> Some (fold (\<lambda>y b. if f y < f b then y else b) ys x))"

lemma fold_min_spec:
  "fold min ys (x :: 'a::linorder) \<in> insert x (set ys) \<and> (\<forall>y \<in> insert x (set ys). fold min ys x \<le> y)"
proof (induction ys arbitrary: x)
  case Nil
  then show ?case by simp
next
  case (Cons y ys)
  from Cons.IH [of "min y x"] show ?case by (auto simp: min_def split: if_splits)
qed

lemma fold_max_spec:
  "fold max ys (x :: 'a::linorder) \<in> insert x (set ys) \<and> (\<forall>y \<in> insert x (set ys). y \<le> fold max ys x)"
proof (induction ys arbitrary: x)
  case Nil
  then show ?case by simp
next
  case (Cons y ys)
  from Cons.IH [of "max y x"] show ?case by (auto simp: max_def split: if_splits)
qed

lemma iter_min_Some: "iter_min xs = Some m \<Longrightarrow> m \<in> set xs \<and> (\<forall>x \<in> set xs. m \<le> x)"
  using fold_min_spec by (auto simp: iter_min_def split: list.splits)

lemma iter_max_Some: "iter_max xs = Some m \<Longrightarrow> m \<in> set xs \<and> (\<forall>x \<in> set xs. x \<le> m)"
  using fold_max_spec by (auto simp: iter_max_def split: list.splits)

lemma iter_min_None [simp]: "iter_min xs = None \<longleftrightarrow> xs = []"
  by (simp add: iter_min_def split: list.splits)

lemma iter_max_None [simp]: "iter_max xs = None \<longleftrightarrow> xs = []"
  by (simp add: iter_max_def split: list.splits)

lemma fold_min_by_key_spec:
  "fold (\<lambda>y b. if f y < (f b :: 'b::linorder) then y else b) ys x \<in> insert x (set ys) \<and>
   (\<forall>y \<in> insert x (set ys). f (fold (\<lambda>y b. if f y < f b then y else b) ys x) \<le> f y)"
proof (induction ys arbitrary: x)
  case Nil
  then show ?case by simp
next
  case (Cons y ys)
  from Cons.IH [of "if f y < f x then y else x"] show ?case
    by (auto simp: not_less split: if_splits)
qed

lemma min_by_key_Some: "min_by_key f xs = Some m \<Longrightarrow> m \<in> set xs \<and> (\<forall>x \<in> set xs. f m \<le> f x)"
  using fold_min_by_key_spec [of f] by (fastforce simp: min_by_key_def split: list.splits)

lemma min_by_key_None [simp]: "min_by_key f xs = None \<longleftrightarrow> xs = []"
  by (simp add: min_by_key_def split: list.splits)

text \<open>Indices of the elements that satisfy a predicate: \<open>enumerate().filter_map()\<close>.\<close>

definition positions :: "('a \<Rightarrow> bool) \<Rightarrow> 'a list \<Rightarrow> nat list" where
  "positions P xs = filter (\<lambda>i. P (xs ! i)) [0..<length xs]"

lemma length_filter_mono:
  "(\<And>x. x \<in> set xs \<Longrightarrow> P x \<Longrightarrow> Q x) \<Longrightarrow> length (filter P xs) \<le> length (filter Q xs)"
  by (induction xs) (auto simp: le_SucI)

lemma positions_Nil [simp]: "positions P [] = []"
  by (simp add: positions_def)

lemma positions_Cons: "positions P (x # xs) = (if P x then [0] else []) @ map Suc (positions P xs)"
proof -
  have "[0..<length (x # xs)] = 0 # map Suc [0..<length xs]"
    by (simp add: upt_conv_Cons map_Suc_upt del: upt_Suc)
  then show ?thesis by (simp add: positions_def filter_map comp_def del: upt_Suc)
qed

lemma positions_map: "positions P (map f xs) = positions (P \<circ> f) xs"
  unfolding positions_def by (rule filter_cong) simp_all

lemma set_positions [simp]: "set (positions P xs) = {i. i < length xs \<and> P (xs ! i)}"
  by (auto simp: positions_def)

lemma sorted_positions: "sorted (positions P xs)" and distinct_positions: "distinct (positions P xs)"
  by (simp_all add: positions_def sorted_wrt_filter)

section \<open>Parsing combinators\<close>

text \<open>\<open>parse_n\<close> runs a parser a fixed number of times and fails with it;
  \<open>parse_upto\<close> stops early and keeps what it has; \<open>parse_while\<close> is the loop that reads
  until the parser fails. Its guard only states termination: a parser that consumes
  input, as every record parser here does, never runs into it.\<close>

type_synonym 'a parser = "bytes \<Rightarrow> ('a \<times> bytes) option"

fun parse_n :: "'a parser \<Rightarrow> nat \<Rightarrow> bytes \<Rightarrow> ('a list \<times> bytes) option" where
  "parse_n p 0 bs = Some ([], bs)"
| "parse_n p (Suc n) bs =
     (case p bs of
        None \<Rightarrow> None
      | Some (x, bs') \<Rightarrow>
          (case parse_n p n bs' of None \<Rightarrow> None | Some (xs, bs'') \<Rightarrow> Some (x # xs, bs'')))"

fun parse_upto :: "'a parser \<Rightarrow> nat \<Rightarrow> bytes \<Rightarrow> 'a list" where
  "parse_upto p 0 bs = []"
| "parse_upto p (Suc n) bs =
     (case p bs of None \<Rightarrow> [] | Some (x, bs') \<Rightarrow> x # parse_upto p n bs')"

fun parse_while :: "'a parser \<Rightarrow> bytes \<Rightarrow> 'a list" where
  "parse_while p bs =
     (case p bs of
        None \<Rightarrow> []
      | Some (x, bs') \<Rightarrow> if length bs' < length bs then x # parse_while p bs' else [])"

declare parse_while.simps [simp del]

text \<open>A read of \<open>n\<close> bytes, failing when fewer are left.\<close>

definition take_bytes :: "nat \<Rightarrow> bytes parser" where
  "take_bytes n bs = (if n \<le> length bs then Some (take n bs, drop n bs) else None)"

definition read_u32 :: "u32 parser" where
  "read_u32 bs = map_option (\<lambda>(h, t). (from_le h, t)) (take_bytes 4 bs)"

definition read_u64 :: "u64 parser" where
  "read_u64 bs = map_option (\<lambda>(h, t). (from_le h, t)) (take_bytes 8 bs)"

lemma take_bytes_append [codec_simps]: "length xs = n \<Longrightarrow> take_bytes n (xs @ ys) = Some (xs, ys)"
  by (simp add: take_bytes_def)

lemma read_u32_append [codec_simps]: "read_u32 (to_le 4 w @ ys) = Some (w, ys)"
  by (simp add: read_u32_def take_bytes_append le_u32)

lemma read_u64_append [codec_simps]: "read_u64 (to_le 8 w @ ys) = Some (w, ys)"
  by (simp add: read_u64_def take_bytes_append le_u64)

text \<open>The interface of an encoder whose output can be read back from the front of a
  longer buffer. \<open>ok\<close> delimits what the format can carry.\<close>

locale prefix_codec =
  fixes enc :: "'a \<Rightarrow> bytes"
    and dec :: "'a parser"
    and ok :: "'a \<Rightarrow> bool"
  assumes dec_enc: "ok x \<Longrightarrow> dec (enc x @ rest) = Some (x, rest)"
begin

lemma parse_n_enc:
  "list_all ok xs \<Longrightarrow> parse_n dec (length xs) (concat (map enc xs) @ rest) = Some (xs, rest)"
  by (induction xs) (simp_all add: dec_enc)

lemma parse_upto_enc:
  "list_all ok xs \<Longrightarrow> parse_upto dec (length xs) (concat (map enc xs) @ rest) = xs"
  by (induction xs) (simp_all add: dec_enc)

lemma enc_inj: "ok x \<Longrightarrow> ok y \<Longrightarrow> enc x @ r = enc y @ s \<Longrightarrow> x = y \<and> r = s"
  by (metis dec_enc option.inject prod.inject)

lemma concat_enc_inj:
  assumes "list_all ok xs" "list_all ok ys" "length xs = length ys"
    and "concat (map enc xs) @ r = concat (map enc ys) @ s"
  shows "xs = ys \<and> r = s"
proof -
  have "Some (xs, r) = parse_n dec (length xs) (concat (map enc xs) @ r)"
    by (rule parse_n_enc [OF assms(1), symmetric])
  also have "\<dots> = parse_n dec (length ys) (concat (map enc ys) @ s)"
    by (simp only: assms(3,4))
  also have "\<dots> = Some (ys, s)" by (rule parse_n_enc [OF assms(2)])
  finally show ?thesis by simp
qed

end

text \<open>A framed codec moreover rejects every proper prefix of an encoding, so a
  buffer cut at any byte yields exactly the values whose encoding survived whole.\<close>

locale framed_codec = prefix_codec +
  assumes dec_short: "ok x \<Longrightarrow> k < length (enc x) \<Longrightarrow> dec (take k (enc x)) = None"
begin

lemma parse_upto_cut:
  assumes "list_all ok xs"
  shows "\<exists>j \<le> length xs. parse_upto dec (length xs) (take k (concat (map enc xs))) = take j xs \<and>
     length (concat (map enc (take j xs))) \<le> k \<and>
     (j < length xs \<longrightarrow> k < length (concat (map enc (take (Suc j) xs))))"
     (is "\<exists>j \<le> _. ?P k xs j")
  using assms
proof (induction xs arbitrary: k)
  case Nil
  then show ?case by simp
next
  case (Cons x xs)
  show ?case
  proof (cases "k < length (enc x)")
    case True
    with Cons.prems have "?P k (x # xs) 0" by (simp add: dec_short)
    then show ?thesis by blast
  next
    case False
    let ?k = "k - length (enc x)"
    from Cons.prems have "list_all ok xs" by simp
    from Cons.IH [OF this, of ?k] obtain j where j: "j \<le> length xs" "?P ?k xs j" by blast
    from False have "take k (concat (map enc (x # xs))) = enc x @ take ?k (concat (map enc xs))"
      by simp
    with j False Cons.prems have "Suc j \<le> length (x # xs) \<and> ?P k (x # xs) (Suc j)"
      by (auto simp: dec_enc)
    then show ?thesis by blast
  qed
qed

end

text \<open>A record codec accepts nothing but encodings, so it is framed, and reading
  records until the first failure recovers every whole record.\<close>

locale record_codec = prefix_codec +
  assumes dec_sound: "dec bs = Some (x, rest) \<Longrightarrow> ok x \<and> bs = enc x @ rest"
    and enc_nonempty: "enc x \<noteq> []"
begin

lemma dec_truncated: "ok x \<Longrightarrow> k < length (enc x) \<Longrightarrow> dec (take k (enc x)) = None"
proof (rule ccontr)
  assume ok: "ok x" and k: "k < length (enc x)" and "dec (take k (enc x)) \<noteq> None"
  then obtain y r where "dec (take k (enc x)) = Some (y, r)" by auto
  from dec_sound [OF this] have y: "ok y" "take k (enc x) = enc y @ r" by simp_all
  then have "enc x @ [] = enc y @ (r @ drop k (enc x))"
    by (metis append.right_neutral append_assoc append_take_drop_id)
  from enc_inj [OF ok y(1) this] have "[] = r @ drop k (enc x)" by (rule conjunct2)
  with k show False by simp
qed

lemma dec_progress: "dec bs = Some (x, rest) \<Longrightarrow> length rest < length bs"
  using dec_sound [of bs x rest] enc_nonempty [of x] by auto

lemma parse_while_step:
  "parse_while dec bs = (case dec bs of None \<Rightarrow> [] | Some (x, bs') \<Rightarrow> x # parse_while dec bs')"
  using dec_progress by (subst parse_while.simps) (auto split: option.splits)

lemma parse_while_enc:
  "list_all ok xs \<Longrightarrow> parse_while dec (concat (map enc xs) @ rest) = xs @ parse_while dec rest"
  by (induction xs) (simp_all add: parse_while_step [of "enc _ @ _"] dec_enc)

lemma parse_while_Nil: "parse_while dec [] = []"
  using dec_sound [of "[]"] enc_nonempty by (subst parse_while_step) (auto split: option.splits)

lemma parse_while_ok: "list_all ok (parse_while dec bs)"
proof (induction "length bs" arbitrary: bs rule: less_induct)
  case less
  show ?case
  proof (cases "dec bs")
    case None
    then show ?thesis by (simp add: parse_while_step [of bs])
  next
    case (Some p)
    obtain x r where p: "p = (x, r)" by force
    from dec_sound [of bs x r] Some p enc_nonempty [of x] have "ok x" "length r < length bs" by auto
    with less Some p show ?thesis by (simp add: parse_while_step [of bs])
  qed
qed

definition clean :: "bytes \<Rightarrow> bool" where
  "clean bs \<longleftrightarrow> concat (map enc (parse_while dec bs)) = bs"

lemma clean_append: "clean bs \<Longrightarrow> parse_while dec (bs @ rest) = parse_while dec bs @ parse_while dec rest"
  using parse_while_enc [OF parse_while_ok] unfolding clean_def by metis

lemma clean_snoc: "clean bs \<Longrightarrow> ok x \<Longrightarrow> clean (bs @ enc x) \<and> parse_while dec (bs @ enc x) = parse_while dec bs @ [x]"
  using clean_append [of bs "enc x"] parse_while_enc [of "[x]" "[]"]
  by (simp add: clean_def parse_while_Nil)

lemma clean_Nil: "clean []"
  by (simp add: clean_def parse_while_Nil)

lemma parse_while_cut:
  assumes "list_all ok xs"
  shows "\<exists>j \<le> length xs. parse_while dec (take k (concat (map enc xs))) = take j xs \<and>
     length (concat (map enc (take j xs))) \<le> k \<and>
     (j < length xs \<longrightarrow> k < length (concat (map enc (take (Suc j) xs))))"
     (is "\<exists>j \<le> _. ?P k xs j")
  using assms
proof (induction xs arbitrary: k)
  case Nil
  then show ?case by (simp add: parse_while_Nil)
next
  case (Cons x xs)
  show ?case
  proof (cases "k < length (enc x)")
    case True
    with Cons.prems have "?P k (x # xs) 0" by (simp add: dec_truncated parse_while_step [of "take k _"])
    then show ?thesis by blast
  next
    case False
    let ?k = "k - length (enc x)"
    from Cons.prems have "list_all ok xs" by simp
    from Cons.IH [OF this, of ?k] obtain j where j: "j \<le> length xs" "?P ?k xs j" by blast
    from False have "take k (concat (map enc (x # xs))) = enc x @ take ?k (concat (map enc xs))"
      by simp
    with j False Cons.prems have "Suc j \<le> length (x # xs) \<and> ?P k (x # xs) (Suc j)"
      by (auto simp: dec_enc parse_while_step [of "enc x @ _"])
    then show ?thesis by blast
  qed
qed

end

sublocale record_codec \<subseteq> framed_codec
  by unfold_locales (rule dec_truncated)

text \<open>The length-prefixed byte string \<open>[len: 4 LE][bytes]\<close>, used by the column
  encodings, the dictionary and the write batch.\<close>

definition put_len_bytes :: "bytes \<Rightarrow> bytes" where
  "put_len_bytes b = to_le 4 (of_nat (length b) :: u32) @ b"

definition get_len_bytes :: "bytes parser" where
  "get_len_bytes bs =
     (case read_u32 bs of None \<Rightarrow> None | Some (n, bs') \<Rightarrow> take_bytes (unat n) bs')"

definition fits_u32 :: "'a list \<Rightarrow> bool" where
  "fits_u32 xs \<longleftrightarrow> length xs < 2 ^ 32"

lemma fits_u32_unat: "fits_u32 xs \<Longrightarrow> unat (of_nat (length xs) :: u32) = length xs"
  unfolding fits_u32_def by (rule unat_u32_of_nat)

lemma get_put_len_bytes:
  assumes "fits_u32 b"
  shows "get_len_bytes (put_len_bytes b @ rest) = Some (b, rest)"
proof -
  have "get_len_bytes (put_len_bytes b @ rest) =
      take_bytes (unat (of_nat (length b) :: u32)) (b @ rest)"
    by (simp only: put_len_bytes_def get_len_bytes_def append_assoc read_u32_append
        option.case prod.case)
  also have "\<dots> = Some (b, rest)"
    by (simp only: fits_u32_unat [OF assms] take_bytes_append)
  finally show ?thesis .
qed

lemma get_len_bytes_short:
  assumes "fits_u32 b" "k < length (put_len_bytes b)"
  shows "get_len_bytes (take k (put_len_bytes b)) = None"
proof (cases "k < 4")
  case True
  then show ?thesis
    by (simp add: get_len_bytes_def read_u32_def take_bytes_def put_len_bytes_def)
next
  case False
  then have "take k (put_len_bytes b) = to_le 4 (of_nat (length b) :: u32) @ take (k - 4) b"
    by (simp add: put_len_bytes_def)
  moreover from assms(2) False have "k - 4 < length b" by (simp add: put_len_bytes_def)
  ultimately show ?thesis
    by (simp add: get_len_bytes_def read_u32_append fits_u32_unat [OF assms(1)] take_bytes_def)
qed

interpretation len_bytes: framed_codec put_len_bytes get_len_bytes fits_u32
  by unfold_locales (rule get_put_len_bytes, assumption, rule get_len_bytes_short)

interpretation u32_codec: prefix_codec "to_le 4 :: u32 \<Rightarrow> bytes" read_u32 "\<lambda>_. True"
  by unfold_locales (simp add: codec_simps)


section \<open>Hash maps\<close>

text \<open>A \<open>HashMap\<close> is a map; where the code iterates over one, the order in which the keys come is
  an argument, of which only this is known.\<close>

type_synonym ('k, 'v) hash_order = "('k \<rightharpoonup> 'v) \<Rightarrow> 'k list"

definition hash_order_ok :: "('k, 'v) hash_order \<Rightarrow> bool" where
  "hash_order_ok ord \<longleftrightarrow> (\<forall>m. finite (dom m) \<longrightarrow> distinct (ord m) \<and> set (ord m) = dom m)"

definition hm_entries :: "('k, 'v) hash_order \<Rightarrow> ('k \<rightharpoonup> 'v) \<Rightarrow> ('k \<times> 'v) list" where
  "hm_entries ord m = map (\<lambda>k. (k, the (m k))) (ord m)"

definition sorted_order :: "('k::linorder, 'v) hash_order" where
  "sorted_order m = sorted_list_of_set (dom m)"

lemma sorted_order_ok: "hash_order_ok sorted_order"
  by (simp add: hash_order_ok_def sorted_order_def)

lemma map_of_hm_entries: "hash_order_ok ord \<Longrightarrow> finite (dom m) \<Longrightarrow> map_of (hm_entries ord m) = m"
  by (rule ext, case_tac "x \<in> dom m")
     (auto simp: hm_entries_def hash_order_ok_def map_of_map_keys domIff)

lemma set_hm_entries:
  "hash_order_ok ord \<Longrightarrow> finite (dom m) \<Longrightarrow> (k, v) \<in> set (hm_entries ord m) \<longleftrightarrow> m k = Some v"
  by (auto simp: hm_entries_def hash_order_ok_def image_iff domIff)

text \<open>Collecting pairs into a map, later pairs winning.\<close>

definition hm_collect :: "('k \<times> 'v) list \<Rightarrow> ('k \<rightharpoonup> 'v)" where
  "hm_collect xs = fold (\<lambda>e m. m(fst e \<mapsto> snd e)) xs Map.empty"

lemma fold_upd_map_of:
  "distinct (map fst xs) \<Longrightarrow> fold (\<lambda>e m. m(fst e \<mapsto> snd e)) xs m = m ++ map_of xs"
proof (induction xs arbitrary: m)
  case (Cons x xs)
  have "fst x \<notin> dom (map_of xs)" using Cons.prems by (simp add: dom_map_of_conv_image_fst)
  then have "m(fst x \<mapsto> snd x) ++ map_of xs = m ++ map_of (x # xs)"
    by (cases x) (auto simp: map_add_def fun_eq_iff split: option.split)
  moreover have "fold (\<lambda>e m. m(fst e \<mapsto> snd e)) xs (m(fst x \<mapsto> snd x)) = m(fst x \<mapsto> snd x) ++ map_of xs"
    by (rule Cons.IH) (use Cons.prems in simp)
  ultimately show ?case by (simp only: fold_simps)
qed simp

lemma distinct_hm_entries: "hash_order_ok ord \<Longrightarrow> finite (dom m) \<Longrightarrow> distinct (map fst (hm_entries ord m))"
  by (simp add: hm_entries_def hash_order_ok_def comp_def)

lemma length_hm_entries: "hash_order_ok ord \<Longrightarrow> finite (dom m) \<Longrightarrow> length (hm_entries ord m) = card (dom m)"
  by (metis hash_order_ok_def hm_entries_def distinct_card length_map)

lemma hm_collect_entries: "hash_order_ok ord \<Longrightarrow> finite (dom m) \<Longrightarrow> hm_collect (hm_entries ord m) = m"
  unfolding hm_collect_def by (simp only: fold_upd_map_of distinct_hm_entries map_of_hm_entries empty_map_add)

text \<open>\<open>entry(k).or_default().push(x)\<close>, and a grouping loop built from it.\<close>

definition hm_push :: "'k \<Rightarrow> 'v \<Rightarrow> ('k \<rightharpoonup> 'v list) \<Rightarrow> ('k \<rightharpoonup> 'v list)" where
  "hm_push k x m = m(k \<mapsto> (case m k of None \<Rightarrow> [] | Some xs \<Rightarrow> xs) @ [x])"

definition group_by_key :: "('v \<Rightarrow> 'k) \<Rightarrow> 'v list \<Rightarrow> ('k \<rightharpoonup> 'v list)" where
  "group_by_key f xs = fold (\<lambda>x. hm_push (f x) x) xs Map.empty"

lemma group_by_key_snoc: "group_by_key f (xs @ [x]) = hm_push (f x) x (group_by_key f xs)"
  by (simp add: group_by_key_def)

lemma group_by_key_lookup:
  "group_by_key f xs k = (if filter (\<lambda>x. f x = k) xs = [] then None else Some (filter (\<lambda>x. f x = k) xs))"
proof (induction xs rule: rev_induct)
  case Nil
  then show ?case by (simp add: group_by_key_def)
next
  case (snoc x xs)
  then show ?case unfolding group_by_key_snoc by (cases "f x = k") (auto simp: hm_push_def)
qed

lemma dom_group_by_key: "dom (group_by_key f xs) = f ` set xs"
  by (auto simp: group_by_key_lookup filter_empty_conv split: if_splits)

section \<open>Runs of operations and simulation\<close>

text \<open>A component is driven by a sequence of operations, each of which may panic (\<open>None\<close>); its
  specification is total. \<open>simulation\<close> is the interface between the two: a relation kept by every
  operation, under which both give the same answers.\<close>

fun run_ops :: "('op \<Rightarrow> 's \<Rightarrow> ('s \<times> 'r) option) \<Rightarrow> 'op list \<Rightarrow> 's \<Rightarrow> ('s \<times> 'r list) option" where
  "run_ops step [] s = Some (s, [])"
| "run_ops step (op # ops) s =
     (case step op s of
        None \<Rightarrow> None
      | Some (s', r) \<Rightarrow> (case run_ops step ops s' of None \<Rightarrow> None | Some (s'', rs) \<Rightarrow> Some (s'', r # rs)))"

fun run_spec :: "('op \<Rightarrow> 'a \<Rightarrow> 'a \<times> 'r) \<Rightarrow> 'op list \<Rightarrow> 'a \<Rightarrow> 'a \<times> 'r list" where
  "run_spec step [] a = (a, [])"
| "run_spec step (op # ops) a =
     (case step op a of (a', r) \<Rightarrow> (case run_spec step ops a' of (a'', rs) \<Rightarrow> (a'', r # rs)))"

lemma run_spec_length: "run_spec step ops a = (a', rs) \<Longrightarrow> length ops = length rs"
  by (induction ops arbitrary: a rs) (auto split: prod.splits)

lemma length_filter_zip_fst:
  "length xs = length ys \<Longrightarrow> length (filter (\<lambda>e. P (fst e)) (zip xs ys)) = length (filter P xs)"
  by (induction xs ys rule: list_induct2) auto

locale simulation =
  fixes cstep :: "'op \<Rightarrow> 's \<Rightarrow> ('s \<times> 'r) option"
    and astep :: "'op \<Rightarrow> 'a \<Rightarrow> 'a \<times> 'r"
    and R :: "'s \<Rightarrow> 'a \<Rightarrow> bool"
  assumes step_sim: "R s a \<Longrightarrow> \<exists>s'. cstep op s = Some (s', snd (astep op a)) \<and> R s' (fst (astep op a))"
begin

lemma run_sim:
  "R s a \<Longrightarrow> \<exists>s'. run_ops cstep ops s = Some (s', snd (run_spec astep ops a)) \<and> R s' (fst (run_spec astep ops a))"
proof (induction ops arbitrary: s a)
  case (Cons op ops)
  obtain s' where s': "cstep op s = Some (s', snd (astep op a))" "R s' (fst (astep op a))"
    using step_sim [OF Cons.prems] by blast
  from Cons.IH [OF s'(2)] s'(1) show ?case by (auto split: prod.split)
qed simp

lemma run_answers: "R s a \<Longrightarrow> map_option snd (run_ops cstep ops s) = Some (snd (run_spec astep ops a))"
  using run_sim [of s a ops] by auto

lemma run_related: "R s a \<Longrightarrow> run_ops cstep ops s = Some (s', rs) \<Longrightarrow> R s' (fst (run_spec astep ops a))"
  using run_sim [of s a ops] by auto

end


text \<open>Properties of whole histories: an invariant between the state and the operations answered so
  far, with their answers.\<close>

locale history_invariant =
  fixes step :: "'op \<Rightarrow> 's \<Rightarrow> 's \<times> 'r"
    and I :: "'s \<Rightarrow> ('op \<times> 'r) list \<Rightarrow> bool"
  assumes step_inv: "I s h \<Longrightarrow> step op s = (s', r) \<Longrightarrow> I s' (h @ [(op, r)])"
begin

lemma run_inv_from:
  "I s h \<Longrightarrow> run_spec step ops s = (s', rs) \<Longrightarrow> I s' (h @ zip ops rs)"
proof (induction ops arbitrary: s h rs)
  case (Cons op ops)
  obtain s1 r rs' where s1: "step op s = (s1, r)" "run_spec step ops s1 = (s', rs')" "rs = r # rs'"
    using Cons.prems(2) by (auto split: prod.splits)
  from Cons.IH [OF step_inv [OF Cons.prems(1) s1(1)] s1(2)] s1(3) show ?case by simp
qed simp

lemma run_inv: "I s [] \<Longrightarrow> run_spec step ops s = (s', rs) \<Longrightarrow> I s' (zip ops rs)"
  using run_inv_from [of s "[]"] by simp

end

end
