(* ===== verification/Bloom.thy ===== *)
theory Bloom
  imports Prelude Complex_Main
begin

text \<open>
  The SSTable Bloom filter (\<open>storage-node/src/lsm/bloom.rs\<close>): its bit vector, the
  two double-hashing schemes, construction, insertion, membership and the
  \<open>.bloom\<close> file format. The hash \<open>xxh3_128\<close>, the checksum \<open>crc32fast::hash\<close> and
  the JSON codec are third-party code and appear as arguments. Accesses that can
  panic (a remainder by zero, an index out of range) are \<open>None\<close>.
\<close>

section \<open>Configuration\<close>

datatype bloom_hash_fn = XxHash3 | MurmurHash3

record bloom_config =
  bits_per_key :: u32
  false_positive_rate :: rat
  hash_fn :: bloom_hash_fn

definition bloom_config_default :: bloom_config where
  "bloom_config_default =
     \<lparr>bits_per_key = 10, false_positive_rate = 1 / 100, hash_fn = XxHash3\<rparr>"

definition bloom_high_selectivity :: bloom_config where
  "bloom_high_selectivity =
     \<lparr>bits_per_key = 14, false_positive_rate = 1 / 1000, hash_fn = XxHash3\<rparr>"

text \<open>\<open>std::f64::consts::LN_2\<close> as the exact value of the double; the product is taken
  exactly and \<open>round\<close> rounds half away from zero.\<close>

definition ln_2_f64 :: rat where
  "ln_2_f64 = 6243314768165359 / 9007199254740992"

definition optimal_k :: "bloom_config \<Rightarrow> u32" where
  "optimal_k cfg =
     of_nat (max 1 (nat \<lfloor>of_nat (unat (bits_per_key cfg)) * ln_2_f64 + 1 / 2\<rfloor>))"

lemma optimal_k_pos: "optimal_k cfg \<noteq> 0"
proof -
  have "unat (bits_per_key cfg) < 2 ^ 32" using unsigned_less [of "bits_per_key cfg"] by simp
  then have "(of_nat (unat (bits_per_key cfg)) :: rat) < of_nat (2 ^ 32)" by (simp only: of_nat_less_iff)
  then have "of_nat (unat (bits_per_key cfg)) * ln_2_f64 + 1 / 2 < (4294967296 :: rat)" by (simp add: ln_2_f64_def)
  then have "nat \<lfloor>of_nat (unat (bits_per_key cfg)) * ln_2_f64 + 1 / 2\<rfloor> < 4294967296"
    by linarith
  then show ?thesis unfolding optimal_k_def by (simp add: word_of_nat_eq_0_iff nat_dvd_not_less del: of_nat_max)
qed

section \<open>Bit vector\<close>

record bitvec =
  bv_bits :: bytes
  bv_num_bits :: nat

definition bitvec_with_capacity :: "nat \<Rightarrow> bitvec" where
  "bitvec_with_capacity n = \<lparr>bv_bits = replicate ((n + 7) div 8) 0, bv_num_bits = n\<rparr>"

definition bitvec_set :: "bitvec \<Rightarrow> nat \<Rightarrow> bitvec option" where
  "bitvec_set v i =
     (if bv_num_bits v = 0 then None
      else (let b = i mod bv_num_bits v
            in if b div 8 < length (bv_bits v)
               then Some (v\<lparr>bv_bits := (bv_bits v)[b div 8 :=
                      (bv_bits v ! (b div 8)) OR push_bit (b mod 8) 1]\<rparr>)
               else None))"

definition bitvec_get :: "bitvec \<Rightarrow> nat \<Rightarrow> bool option" where
  "bitvec_get v i =
     (if bv_num_bits v = 0 then None
      else (let b = i mod bv_num_bits v
            in if b div 8 < length (bv_bits v)
               then Some (drop_bit (b mod 8) (bv_bits v ! (b div 8)) AND 1 = 1)
               else None))"

definition bitvec_wf :: "bitvec \<Rightarrow> bool" where
  "bitvec_wf v \<longleftrightarrow> 0 < bv_num_bits v \<and> bv_num_bits v \<le> 8 * length (bv_bits v)"

lemma bitvec_wf_index: "bitvec_wf v \<Longrightarrow> i mod bv_num_bits v div 8 < length (bv_bits v)"
proof -
  assume "bitvec_wf v"
  then have "i mod bv_num_bits v < 8 * length (bv_bits v)"
    by (meson bitvec_wf_def less_le_trans mod_less_divisor)
  then show ?thesis by linarith
qed

lemma bitvec_wf_capacity: "0 < n \<Longrightarrow> bitvec_wf (bitvec_with_capacity n)"
  by (simp add: bitvec_wf_def bitvec_with_capacity_def)

lemma bitvec_set_total:
  assumes "bitvec_wf v"
  obtains v' where "bitvec_set v i = Some v'" "bitvec_wf v'" "bv_num_bits v' = bv_num_bits v"
  using assms bitvec_wf_index [OF assms, of i]
  by (auto simp: bitvec_set_def bitvec_wf_def Let_def)

text \<open>The bit that a well-formed vector holds at an index.\<close>

definition bitvec_bit :: "bitvec \<Rightarrow> nat \<Rightarrow> bool" where
  "bitvec_bit v i = bit (bv_bits v ! (i mod bv_num_bits v div 8)) (i mod bv_num_bits v mod 8)"

lemma bitvec_get_bit: "bitvec_wf v \<Longrightarrow> bitvec_get v i = Some (bitvec_bit v i)"
  using bitvec_wf_index [of v i]
  by (auto simp: bitvec_get_def bitvec_bit_def bitvec_wf_def Let_def and_one_eq odd_iff_mod_2_eq_one
      bit_iff_odd drop_bit_eq_div)

lemma bitvec_set_bit:
  assumes "bitvec_wf v" "bitvec_set v i = Some v'"
  shows "bitvec_bit v' j \<longleftrightarrow> bitvec_bit v j \<or> i mod bv_num_bits v = j mod bv_num_bits v"
proof -
  let ?b = "i mod bv_num_bits v" and ?c = "j mod bv_num_bits v"
  from assms bitvec_wf_index [OF assms(1), of i]
  have v': "v' = v\<lparr>bv_bits := (bv_bits v)[?b div 8 := (bv_bits v ! (?b div 8)) OR push_bit (?b mod 8) 1]\<rparr>"
    and lt: "?b div 8 < length (bv_bits v)"
    by (auto simp: bitvec_set_def bitvec_wf_def Let_def)
  show ?thesis
  proof (cases "?b div 8 = ?c div 8")
    case True
    then have "?b = ?c \<longleftrightarrow> ?b mod 8 = ?c mod 8" by (metis div_mult_mod_eq)
    with True lt show ?thesis
      by (auto simp: v' bitvec_bit_def bit_or_iff bit_exp_iff possible_bit_word)
  next
    case False
    then show ?thesis by (auto simp: v' bitvec_bit_def)
  qed
qed

section \<open>Hash positions\<close>

text \<open>\<open>(0..k).map(|i| h1.wrapping_add(h2.wrapping_mul(i + 1)) % num_bits)\<close>, shared by
  the two schemes. A remainder by zero panics at the first position.\<close>

definition double_hashes :: "u64 \<Rightarrow> u64 \<Rightarrow> u32 \<Rightarrow> nat \<Rightarrow> nat list option" where
  "double_hashes h1 h2 k n =
     (if n = 0 \<and> k \<noteq> 0 then None
      else Some (map (\<lambda>i. unat (h1 + h2 * (of_nat i + 1)) mod n) [0..<unat k]))"

definition xxh3_hashes :: "(bytes \<Rightarrow> 128 word) \<Rightarrow> bytes \<Rightarrow> u32 \<Rightarrow> nat \<Rightarrow> nat list option" where
  "xxh3_hashes xxh3 key k n =
     (let h128 = xxh3 key in double_hashes (ucast h128) (ucast (drop_bit 64 h128)) k n)"

definition murmur3_step :: "byte \<Rightarrow> u64 \<times> u64 \<Rightarrow> u64 \<times> u64" where
  "murmur3_step b h =
     (fst h * 0x100000001b3 + ucast b, word_rotl 5 (snd h) + ucast b + 0x5555555555555555)"

definition murmur3_hashes :: "bytes \<Rightarrow> u32 \<Rightarrow> nat \<Rightarrow> nat list option" where
  "murmur3_hashes key k n =
     (let (h1, h2) = fold murmur3_step key (0xcbf29ce484222325, 0x517cc1b727220a95)
      in double_hashes h1 h2 k n)"

section \<open>The filter\<close>

record sstable_bloom =
  bloom_bitmap :: bitvec
  bloom_k :: u32
  bloom_cfg :: bloom_config

text \<open>The size is computed in \<open>usize\<close>: the product and the rounding to a multiple of eight
  wrap around at \<open>2 ^ 64\<close>.\<close>

definition bloom_product :: "nat \<Rightarrow> bloom_config \<Rightarrow> nat" where
  "bloom_product expected_items cfg = max expected_items 1 * unat (bits_per_key cfg) mod 2 ^ 64"

definition bloom_num_bits :: "nat \<Rightarrow> bloom_config \<Rightarrow> nat" where
  "bloom_num_bits expected_items cfg = (max (bloom_product expected_items cfg) 64 + 7) mod 2 ^ 64 div 8 * 8"

definition bloom_new :: "nat \<Rightarrow> bloom_config \<Rightarrow> sstable_bloom" where
  "bloom_new expected_items cfg =
     \<lparr>bloom_bitmap = bitvec_with_capacity (bloom_num_bits expected_items cfg), bloom_k = optimal_k cfg, bloom_cfg = cfg\<rparr>"

definition bloom_with_defaults :: "nat \<Rightarrow> sstable_bloom" where
  "bloom_with_defaults expected_items = bloom_new expected_items bloom_config_default"

definition hash_indices :: "(bytes \<Rightarrow> 128 word) \<Rightarrow> sstable_bloom \<Rightarrow> bytes \<Rightarrow> nat list option" where
  "hash_indices xxh3 bf key =
     (case hash_fn (bloom_cfg bf) of
        XxHash3 \<Rightarrow> xxh3_hashes xxh3 key (bloom_k bf) (bv_num_bits (bloom_bitmap bf))
      | MurmurHash3 \<Rightarrow> murmur3_hashes key (bloom_k bf) (bv_num_bits (bloom_bitmap bf)))"

fun bitvec_set_all :: "bitvec \<Rightarrow> nat list \<Rightarrow> bitvec option" where
  "bitvec_set_all v [] = Some v"
| "bitvec_set_all v (i # is) =
     (case bitvec_set v i of None \<Rightarrow> None | Some v' \<Rightarrow> bitvec_set_all v' is)"

definition bloom_insert :: "(bytes \<Rightarrow> 128 word) \<Rightarrow> sstable_bloom \<Rightarrow> bytes \<Rightarrow> sstable_bloom option" where
  "bloom_insert xxh3 bf key =
     (case hash_indices xxh3 bf key of
        None \<Rightarrow> None
      | Some is \<Rightarrow> map_option (\<lambda>v. bf\<lparr>bloom_bitmap := v\<rparr>) (bitvec_set_all (bloom_bitmap bf) is))"

fun bitvec_get_all :: "bitvec \<Rightarrow> nat list \<Rightarrow> bool option" where
  "bitvec_get_all v [] = Some True"
| "bitvec_get_all v (i # is) =
     (case bitvec_get v i of
        None \<Rightarrow> None
      | Some False \<Rightarrow> Some False
      | Some True \<Rightarrow> bitvec_get_all v is)"

definition may_contain :: "(bytes \<Rightarrow> 128 word) \<Rightarrow> sstable_bloom \<Rightarrow> bytes \<Rightarrow> bool option" where
  "may_contain xxh3 bf key =
     (case hash_indices xxh3 bf key of
        None \<Rightarrow> None
      | Some is \<Rightarrow> bitvec_get_all (bloom_bitmap bf) is)"

fun bloom_insert_all :: "(bytes \<Rightarrow> 128 word) \<Rightarrow> sstable_bloom \<Rightarrow> bytes list \<Rightarrow> sstable_bloom option" where
  "bloom_insert_all xxh3 bf [] = Some bf"
| "bloom_insert_all xxh3 bf (key # keys) =
     (case bloom_insert xxh3 bf key of None \<Rightarrow> None | Some bf' \<Rightarrow> bloom_insert_all xxh3 bf' keys)"

subsection \<open>Well-formedness and absence of false negatives\<close>

definition bloom_wf :: "sstable_bloom \<Rightarrow> bool" where
  "bloom_wf bf \<longleftrightarrow> bitvec_wf (bloom_bitmap bf)"

text \<open>Sizes for which the rounding does not wrap to zero.\<close>

definition bloom_fits :: "nat \<Rightarrow> bloom_config \<Rightarrow> bool" where
  "bloom_fits expected_items cfg \<longleftrightarrow> bloom_product expected_items cfg < 2 ^ 64 - 7"

lemma bloom_num_bits_small: "bloom_num_bits n cfg < 2 ^ 64"
proof -
  have "bloom_num_bits n cfg \<le> (max (bloom_product n cfg) 64 + 7) mod 2 ^ 64" by (simp add: bloom_num_bits_def)
  then show ?thesis by (rule le_less_trans) simp
qed

lemma bloom_num_bits_pos: "0 < bloom_num_bits n cfg \<longleftrightarrow> bloom_fits n cfg"
proof (cases "bloom_fits n cfg")
  case True
  then have "(max (bloom_product n cfg) 64 + 7) mod 2 ^ 64 = max (bloom_product n cfg) 64 + 7"
    by (simp add: bloom_fits_def)
  moreover have "8 \<le> max (bloom_product n cfg) 64 + 7" by simp
  ultimately show ?thesis using True by (simp add: bloom_num_bits_def div_greater_zero_iff)
next
  case False
  define p where "p = bloom_product n cfg"
  have p: "2 ^ 64 - 7 \<le> p" "p < 2 ^ 64" using False by (simp_all add: bloom_fits_def p_def bloom_product_def)
  then have "(max p 64 + 7) mod 2 ^ 64 = p + 7 - 2 ^ 64"
    by (simp add: max_def mod_if)
  with p have "(max p 64 + 7) mod 2 ^ 64 div 8 = 0" by simp
  with False show ?thesis by (simp add: bloom_num_bits_def p_def)
qed

lemma bloom_new_bits: "bv_num_bits (bloom_bitmap (bloom_new n cfg)) < 2 ^ 64"
  using bloom_num_bits_small [of n cfg] by (simp add: bloom_new_def bitvec_with_capacity_def)

lemma bloom_fits_small: "max n 1 * unat (bits_per_key cfg) < 2 ^ 64 - 7 \<Longrightarrow> bloom_fits n cfg"
  by (simp add: bloom_fits_def bloom_product_def)

lemma bloom_new_wf: "bloom_fits n cfg \<Longrightarrow> bloom_wf (bloom_new n cfg)"
  using bloom_num_bits_pos [of n cfg] by (simp add: bloom_wf_def bloom_new_def bitvec_wf_capacity)

lemma hash_indices_total: "bloom_wf bf \<Longrightarrow> \<exists>is. hash_indices xxh3 bf key = Some is"
  by (auto simp: hash_indices_def xxh3_hashes_def murmur3_hashes_def double_hashes_def
      bloom_wf_def bitvec_wf_def case_prod_unfold Let_def split: bloom_hash_fn.splits)

lemma hash_indices_bitmap:
  "bv_num_bits v = bv_num_bits (bloom_bitmap bf) \<Longrightarrow>
   hash_indices xxh3 (bf\<lparr>bloom_bitmap := v\<rparr>) key = hash_indices xxh3 bf key"
  by (simp add: hash_indices_def split: bloom_hash_fn.splits)

lemma bitvec_set_all_total:
  assumes "bitvec_wf v"
  shows "\<exists>v'. bitvec_set_all v is = Some v' \<and> bitvec_wf v' \<and> bv_num_bits v' = bv_num_bits v \<and>
     (\<forall>j. bitvec_bit v' j \<longleftrightarrow> bitvec_bit v j \<or> (\<exists>i \<in> set is. i mod bv_num_bits v = j mod bv_num_bits v))"
  using assms
proof (induction "is" arbitrary: v)
  case Nil
  then show ?case by simp
next
  case (Cons i "is")
  obtain w where w: "bitvec_set v i = Some w" "bitvec_wf w" "bv_num_bits w = bv_num_bits v"
    using bitvec_set_total [OF Cons.prems] .
  from Cons.IH [OF w(2)] w bitvec_set_bit [OF Cons.prems w(1)] show ?case by auto
qed

lemma bitvec_get_all_bits:
  "bitvec_wf v \<Longrightarrow> bitvec_get_all v is = Some (\<forall>i \<in> set is. bitvec_bit v i)"
  by (induction "is") (auto simp: bitvec_get_bit split: bool.splits)

lemma bloom_insert_total:
  assumes "bloom_wf bf"
  obtains bf' where "bloom_insert xxh3 bf key = Some bf'" "bloom_wf bf'"
    "may_contain xxh3 bf' key = Some True"
    "\<And>k. may_contain xxh3 bf k = Some True \<Longrightarrow> may_contain xxh3 bf' k = Some True"
proof -
  obtain js where js: "hash_indices xxh3 bf key = Some js"
    using hash_indices_total [OF assms] by blast
  obtain v where v: "bitvec_set_all (bloom_bitmap bf) js = Some v" "bitvec_wf v"
      "bv_num_bits v = bv_num_bits (bloom_bitmap bf)"
      "\<forall>j. bitvec_bit v j \<longleftrightarrow> bitvec_bit (bloom_bitmap bf) j \<or>
         (\<exists>i \<in> set js. i mod bv_num_bits (bloom_bitmap bf) = j mod bv_num_bits (bloom_bitmap bf))"
    using bitvec_set_all_total assms unfolding bloom_wf_def by blast
  let ?bf = "bf\<lparr>bloom_bitmap := v\<rparr>"
  have "bloom_insert xxh3 bf key = Some ?bf" using js v(1) by (simp add: bloom_insert_def)
  moreover have "bloom_wf ?bf" using v(2) by (simp add: bloom_wf_def)
  moreover have "may_contain xxh3 ?bf key = Some True"
    using js v by (auto simp: may_contain_def hash_indices_bitmap bitvec_get_all_bits)
  moreover have "may_contain xxh3 ?bf k = Some True" if "may_contain xxh3 bf k = Some True" for k
    using that v assms
    by (auto simp: may_contain_def hash_indices_bitmap bitvec_get_all_bits bloom_wf_def
        split: option.splits)
  ultimately show thesis by (rule that)
qed

lemma bloom_insert_all_total:
  assumes "bloom_wf bf"
  shows "\<exists>bf'. bloom_insert_all xxh3 bf keys = Some bf' \<and> bloom_wf bf' \<and>
     (\<forall>k. k \<in> set keys \<or> may_contain xxh3 bf k = Some True \<longrightarrow> may_contain xxh3 bf' k = Some True)"
  using assms
proof (induction keys arbitrary: bf)
  case Nil
  then show ?case by simp
next
  case (Cons key keys)
  obtain b where b: "bloom_insert xxh3 bf key = Some b" "bloom_wf b"
      "may_contain xxh3 b key = Some True"
      "\<And>k. may_contain xxh3 bf k = Some True \<Longrightarrow> may_contain xxh3 b k = Some True"
    using bloom_insert_total [OF Cons.prems] by blast
  from Cons.IH [OF b(2)] b show ?case by auto
qed

section \<open>The \<open>.bloom\<close> file\<close>

record bloom_serialized =
  ser_bits_per_key :: u32
  ser_hash_fn :: bloom_hash_fn
  ser_k :: u32
  ser_num_bits :: u64
  ser_bitmap :: bytes

datatype bloom_error =
    BloomTooShort nat
  | BloomBadMagic
  | BloomBadCrc u32 u32
  | BloomBadJson

definition bloom_serialized_of :: "sstable_bloom \<Rightarrow> bloom_serialized" where
  "bloom_serialized_of bf =
     \<lparr>ser_bits_per_key = bits_per_key (bloom_cfg bf), ser_hash_fn = hash_fn (bloom_cfg bf),
      ser_k = bloom_k bf, ser_num_bits = of_nat (bv_num_bits (bloom_bitmap bf)),
      ser_bitmap = bv_bits (bloom_bitmap bf)\<rparr>"

definition bloom_to_bytes ::
  "(bloom_serialized \<Rightarrow> bytes option) \<Rightarrow> (bytes \<Rightarrow> u32) \<Rightarrow> sstable_bloom \<Rightarrow> bloom_error + bytes" where
  "bloom_to_bytes to_vec crc32 bf =
     (case to_vec (bloom_serialized_of bf) of
        None \<Rightarrow> Inl BloomBadJson
      | Some data \<Rightarrow>
          Inr (ascii ''WOWBLOOM'' @ to_le 2 (1 :: u16) @ to_le 4 (crc32 data) @ data))"

definition bloom_from_bytes ::
  "(bytes \<Rightarrow> bloom_serialized option) \<Rightarrow> (bytes \<Rightarrow> u32) \<Rightarrow> bytes \<Rightarrow> bloom_error + sstable_bloom" where
  "bloom_from_bytes from_slice crc32 raw =
     (if length raw < 14 then Inl (BloomTooShort (length raw))
      else if take 8 raw \<noteq> ascii ''WOWBLOOM'' then Inl BloomBadMagic
      else (let stored_crc = from_le (take 4 (drop 10 raw));
                data = drop 14 raw;
                computed_crc = crc32 data
            in if stored_crc \<noteq> computed_crc then Inl (BloomBadCrc stored_crc computed_crc)
               else (case from_slice data of
                       None \<Rightarrow> Inl BloomBadJson
                     | Some s \<Rightarrow>
                         Inr \<lparr>bloom_bitmap = \<lparr>bv_bits = ser_bitmap s, bv_num_bits = unat (ser_num_bits s)\<rparr>,
                              bloom_k = ser_k s,
                              bloom_cfg = \<lparr>bits_per_key = ser_bits_per_key s,
                                           false_positive_rate = 0, hash_fn = ser_hash_fn s\<rparr>\<rparr>)))"

text \<open>What survives a round trip through a file: everything but the informational
  false positive rate.\<close>

definition bloom_reloaded :: "sstable_bloom \<Rightarrow> sstable_bloom" where
  "bloom_reloaded bf = bf\<lparr>bloom_cfg := (bloom_cfg bf)\<lparr>false_positive_rate := 0\<rparr>\<rparr>"

lemma may_contain_reloaded [simp]: "may_contain xxh3 (bloom_reloaded bf) key = may_contain xxh3 bf key"
  by (simp add: may_contain_def hash_indices_def bloom_reloaded_def
      split: option.splits bloom_hash_fn.splits)

lemma bloom_file_roundtrip:
  assumes json: "\<And>s. \<exists>data. to_vec s = Some data \<and> from_slice data = Some s"
    and small: "bv_num_bits (bloom_bitmap bf) < 2 ^ 64"
  obtains img where "bloom_to_bytes to_vec crc32 bf = Inr img"
    "bloom_from_bytes from_slice crc32 img = Inr (bloom_reloaded bf)"
proof -
  obtain data where d: "to_vec (bloom_serialized_of bf) = Some data"
      "from_slice data = Some (bloom_serialized_of bf)"
    using json by blast
  let ?img = "ascii ''WOWBLOOM'' @ to_le 2 (1 :: u16) @ to_le 4 (crc32 data) @ data"
  have n: "unat (of_nat (bv_num_bits (bloom_bitmap bf)) :: u64) = bv_num_bits (bloom_bitmap bf)"
    using small by (simp add: unat_of_nat)
  have parts: "take 8 ?img = ascii ''WOWBLOOM''" "drop 10 ?img = to_le 4 (crc32 data) @ data"
      "drop 14 ?img = data" "\<not> length ?img < 14"
    by simp_all
  have "bloom_from_bytes from_slice crc32 ?img = Inr (bloom_reloaded bf)"
    unfolding bloom_from_bytes_def parts Let_def
    using d n by (simp add: le_u32 bloom_serialized_of_def bloom_reloaded_def)
  moreover have "bloom_to_bytes to_vec crc32 bf = Inr ?img"
    using d by (simp add: bloom_to_bytes_def)
  ultimately show thesis by (rule that [rotated])
qed

section \<open>Filters without false negatives\<close>

locale approx_filter =
  fixes build :: "'k list \<Rightarrow> 'f option"
    and query :: "'f \<Rightarrow> 'k \<Rightarrow> bool option"
    and fits :: "'k list \<Rightarrow> bool"
  assumes build_total: "fits ks \<Longrightarrow> \<exists>f. build ks = Some f"
    and query_total: "fits ks \<Longrightarrow> build ks = Some f \<Longrightarrow> \<exists>b. query f k = Some b"
    and no_false_negative: "fits ks \<Longrightarrow> build ks = Some f \<Longrightarrow> k \<in> set ks \<Longrightarrow> query f k = Some True"
begin

lemma build_granules_total: "list_all fits gs \<Longrightarrow> \<exists>fs. those (map build gs) = Some fs"
proof (induction gs)
  case Nil
  then show ?case by simp
next
  case (Cons g gs)
  obtain f where "build g = Some f" using build_total Cons.prems by auto
  with Cons show ?case by auto
qed

lemma those_nth: "those ys = Some zs \<Longrightarrow> length zs = length ys \<and> (\<forall>i < length ys. ys ! i = Some (zs ! i))"
proof (induction ys arbitrary: zs)
  case Nil
  then show ?case by simp
next
  case (Cons y ys)
  then show ?case by (auto simp: nth_Cons split: option.splits nat.splits)
qed

text \<open>Probing one filter per granule finds every granule that holds the key.\<close>

lemma probe_granules:
  assumes fs: "those (map build gs) = Some fs" and fits: "list_all fits gs"
  shows "\<exists>cs. those (map (\<lambda>f. query f k) fs) = Some cs \<and>
     (\<forall>g < length gs. k \<in> set (gs ! g) \<longrightarrow> g \<in> set (positions (\<lambda>b. b) cs))"
proof -
  from those_nth [OF fs] have len: "length fs = length gs"
    and nth: "\<And>i. i < length gs \<Longrightarrow> build (gs ! i) = Some (fs ! i)" by simp_all
  have "\<forall>f \<in> set fs. \<exists>b. query f k = Some b"
    using nth len fits by (metis in_set_conv_nth list_all_iff query_total)
  then have "\<exists>cs. those (map (\<lambda>f. query f k) fs) = Some cs"
    by (induction fs) auto
  then obtain cs where cs: "those (map (\<lambda>f. query f k) fs) = Some cs" by blast
  have "query (fs ! g) k = Some True" if "g < length gs" "k \<in> set (gs ! g)" for g
    using that nth [of g] fits no_false_negative [of "gs ! g" "fs ! g" k] by (simp add: list_all_length)
  with those_nth [OF cs] len
  have "g \<in> set (positions (\<lambda>b. b) cs)" if "g < length gs" "k \<in> set (gs ! g)" for g
    using that by fastforce
  with cs show ?thesis by blast
qed

end

definition bloom_build :: "(bytes \<Rightarrow> 128 word) \<Rightarrow> bloom_config \<Rightarrow> bytes list \<Rightarrow> sstable_bloom option" where
  "bloom_build xxh3 cfg keys = bloom_insert_all xxh3 (bloom_new (length keys) cfg) keys"

lemma may_contain_total: "bloom_wf bf \<Longrightarrow> \<exists>b. may_contain xxh3 bf key = Some b"
  using hash_indices_total [of bf xxh3 key]
  by (auto simp: may_contain_def bloom_wf_def bitvec_get_all_bits)

interpretation bloom_filter: approx_filter "bloom_build xxh3 cfg" "may_contain xxh3" "\<lambda>ks. bloom_fits (length ks) cfg"
  for xxh3 cfg
proof
  fix ks :: "bytes list"
  assume "bloom_fits (length ks) cfg"
  then show "\<exists>f. bloom_build xxh3 cfg ks = Some f"
    using bloom_insert_all_total [OF bloom_new_wf] unfolding bloom_build_def by blast
next
  fix ks :: "bytes list" and f k
  assume fits: "bloom_fits (length ks) cfg" and f: "bloom_build xxh3 cfg ks = Some f"
  then have r: "bloom_wf f \<and> (\<forall>k. k \<in> set ks \<longrightarrow> may_contain xxh3 f k = Some True)"
    using bloom_insert_all_total [OF bloom_new_wf [OF fits], of xxh3 ks]
    unfolding bloom_build_def by auto
  then show "\<exists>b. may_contain xxh3 f k = Some b" by (simp add: may_contain_total)
  assume "k \<in> set ks"
  with r show "may_contain xxh3 f k = Some True" by simp
qed

section \<open>Granule index\<close>

record granule_bloom_index =
  gbi_granule_size :: nat
  gbi_filters :: "sstable_bloom list"
  gbi_config :: bloom_config

definition granule_bloom_new :: "nat \<Rightarrow> bloom_config \<Rightarrow> granule_bloom_index" where
  "granule_bloom_new gsize cfg = \<lparr>gbi_granule_size = gsize, gbi_filters = [], gbi_config = cfg\<rparr>"

definition granule_bloom_build ::
  "(bytes \<Rightarrow> 128 word) \<Rightarrow> granule_bloom_index \<Rightarrow> bytes list \<Rightarrow> granule_bloom_index option" where
  "granule_bloom_build xxh3 idx keys =
     (if gbi_granule_size idx = 0 then None
      else map_option (\<lambda>fs. idx\<lparr>gbi_filters := fs\<rparr>)
             (those (map (bloom_build xxh3 (gbi_config idx)) (chunks (gbi_granule_size idx) keys))))"

definition granule_bloom_candidates ::
  "(bytes \<Rightarrow> 128 word) \<Rightarrow> granule_bloom_index \<Rightarrow> bytes \<Rightarrow> nat list option" where
  "granule_bloom_candidates xxh3 idx key =
     map_option (positions (\<lambda>b. b)) (those (map (\<lambda>f. may_contain xxh3 f key) (gbi_filters idx)))"

section \<open>A reference instance of the JSON codec\<close>

text \<open>A byte format that satisfies the round-trip hypothesis on the JSON codec; it only
  serves to show that the hypothesis can hold.\<close>

definition ref_to_vec :: "bloom_serialized \<Rightarrow> bytes option" where
  "ref_to_vec s =
     Some (to_le 4 (ser_bits_per_key s) @ to_le 4 (ser_k s) @ to_le 8 (ser_num_bits s) @
       (case ser_hash_fn s of XxHash3 \<Rightarrow> 0 | MurmurHash3 \<Rightarrow> 1) # ser_bitmap s)"

definition ref_from_slice :: "bytes \<Rightarrow> bloom_serialized option" where
  "ref_from_slice bs =
     (case read_u32 bs of None \<Rightarrow> None | Some (b, r1) \<Rightarrow>
     (case read_u32 r1 of None \<Rightarrow> None | Some (k, r2) \<Rightarrow>
     (case read_u64 r2 of None \<Rightarrow> None | Some (n, r3) \<Rightarrow>
     (case r3 of [] \<Rightarrow> None | h # bm \<Rightarrow>
        Some \<lparr>ser_bits_per_key = b, ser_hash_fn = (if h = 0 then XxHash3 else MurmurHash3),
              ser_k = k, ser_num_bits = n, ser_bitmap = bm\<rparr>))))"

lemma ref_json: "\<exists>data. ref_to_vec s = Some data \<and> ref_from_slice data = Some s"
  by (cases s) (auto simp: ref_to_vec_def ref_from_slice_def codec_simps split: bloom_hash_fn.splits)

section \<open>Properties\<close>

text \<open>C28. A Bloom filter gives no false negative and does not panic: for every hash function,
  configuration and size whose bit count, computed modulo \<open>2 ^ 64\<close> and rounded up to a multiple of
  eight, does not wrap to zero, inserting any list of keys succeeds and every inserted key is
  reported as possibly contained.\<close>

theorem bloom_no_false_negative:
  assumes "bloom_fits expected_items cfg"
  shows "\<exists>bf. bloom_insert_all xxh3 (bloom_new expected_items cfg) keys = Some bf \<and>
     list_all (\<lambda>key. may_contain xxh3 bf key = Some True) keys"
  using bloom_insert_all_total [OF bloom_new_wf [OF assms]] unfolding list_all_iff by blast

theorem bloom_no_false_negative_witness:
  "bloom_fits 2 bloom_config_default \<and>
   (\<exists>bf. bloom_insert_all (\<lambda>key. of_nat (length key)) (bloom_new 2 bloom_config_default) [[1], [2, 3]] = Some bf \<and>
     list_all (\<lambda>key. may_contain (\<lambda>key. of_nat (length key)) bf key = Some True) [[1], [2, 3]])"
proof -
  have "bloom_fits 2 bloom_config_default" by (simp add: bloom_fits_def bloom_product_def bloom_config_default_def)
  then show ?thesis using bloom_no_false_negative by blast
qed

text \<open>Outside these sizes the filter has no bits and the first insertion panics on the remainder
  by zero.\<close>

lemma bloom_oversized_panics:
  assumes "\<not> bloom_fits expected_items cfg"
  shows "bloom_insert xxh3 (bloom_new expected_items cfg) key = None"
proof -
  have "bloom_num_bits expected_items cfg = 0" using bloom_num_bits_pos [of expected_items cfg] assms by simp
  then have "hash_indices xxh3 (bloom_new expected_items cfg) key = None"
    using optimal_k_pos [of cfg] by (auto simp: hash_indices_def xxh3_hashes_def murmur3_hashes_def double_hashes_def
      bloom_new_def bitvec_with_capacity_def case_prod_unfold Let_def split: bloom_hash_fn.split)
  then show ?thesis by (simp add: bloom_insert_def)
qed

text \<open>A filter written to a \<open>.bloom\<close> file and read back answers every membership
  query as the original does, provided the JSON codec reads back what it wrote.\<close>

lemma bloom_file_answers_agree:
  assumes json: "\<And>s. \<exists>data. to_vec s = Some data \<and> from_slice data = Some s"
    and small: "bv_num_bits (bloom_bitmap bf) < 2 ^ 64"
  shows "\<exists>img bf'. bloom_to_bytes to_vec crc32 bf = Inr img \<and>
     bloom_from_bytes from_slice crc32 img = Inr bf' \<and>
     (\<forall>key. may_contain xxh3 bf' key = may_contain xxh3 bf key)"
  using bloom_file_roundtrip [OF json small, of crc32] by (metis may_contain_reloaded)

text \<open>The granule Bloom index never hides a row: after building over a column, the
  granules reported for a key include the granule of every row that holds it.\<close>

lemma granule_bloom_sound:
  assumes "0 < gbi_granule_size idx" and "i < length keys"
    and fits: "list_all (\<lambda>ks. bloom_fits (length ks) (gbi_config idx)) (chunks (gbi_granule_size idx) keys)"
  shows "\<exists>idx' cands. granule_bloom_build xxh3 idx keys = Some idx' \<and>
     granule_bloom_candidates xxh3 idx' (keys ! i) = Some cands \<and>
     i div gbi_granule_size idx \<in> set cands"
proof -
  let ?n = "gbi_granule_size idx"
  let ?gs = "chunks ?n keys"
  obtain fs where fs: "those (map (bloom_build xxh3 (gbi_config idx)) ?gs) = Some fs"
    using bloom_filter.build_granules_total [OF fits] by blast
  from bloom_filter.probe_granules [OF fs fits, of "keys ! i"] chunks_row [OF assms(1,2)]
    chunks_row_mem [OF assms(1,2)]
  obtain cs where "those (map (\<lambda>f. may_contain xxh3 f (keys ! i)) fs) = Some cs"
    and "i div ?n \<in> set (positions (\<lambda>b. b) cs)" by blast
  with fs assms(1) show ?thesis
    by (simp add: granule_bloom_build_def granule_bloom_candidates_def)
qed

end
