(* ===== verification/Indexes.thy ===== *)
theory Indexes
  imports Bloom
begin

text \<open>
  The data skipping indexes of the storage node (\<open>storage-node/src/index\<close>): min/max,
  set, n-gram Bloom and Bloom. Each keeps a summary per granule of rows and uses it
  to leave granules out of a scan. The interface \<open>skip_index\<close> states the one law a
  summary must obey and proves once that a scan of the remaining granules returns
  exactly the rows a full scan would.
\<close>

section \<open>The interface of a skipping index\<close>

locale skip_index =
  fixes summarize :: "'r list \<Rightarrow> 's"
    and can_skip :: "'s \<Rightarrow> 'q \<Rightarrow> bool"
    and sat :: "'r \<Rightarrow> 'q \<Rightarrow> bool"
  assumes skip_sound: "can_skip (summarize g) q \<Longrightarrow> r \<in> set g \<Longrightarrow> \<not> sat r q"
begin

lemma kept_rows:
  "concat (map (filter (\<lambda>r. sat r q)) (filter (\<lambda>g. \<not> can_skip (summarize g) q) gs)) =
   filter (\<lambda>r. sat r q) (concat gs)"
proof (induction gs)
  case Nil
  then show ?case by simp
next
  case (Cons g gs)
  have "filter (\<lambda>r. sat r q) g = []" if "can_skip (summarize g) q"
    using skip_sound [OF that] by (simp add: filter_empty_conv)
  with Cons show ?case by auto
qed

lemma scan_candidates:
  assumes "0 < n"
  shows "concat (map (\<lambda>i. filter (\<lambda>r. sat r q) (chunks n rows ! i))
           (positions (\<lambda>s. \<not> can_skip s q) (map summarize (chunks n rows)))) =
         filter (\<lambda>r. sat r q) rows"
proof -
  let ?gs = "chunks n rows"
  have "map (\<lambda>i. ?gs ! i) (positions (\<lambda>s. \<not> can_skip s q) (map summarize ?gs)) =
      map (\<lambda>i. ?gs ! i) (filter (\<lambda>i. \<not> can_skip (summarize (?gs ! i)) q) [0..<length ?gs])"
    by (auto simp: positions_def intro!: arg_cong [where f = "map _"] filter_cong)
  also have "\<dots> = filter (\<lambda>g. \<not> can_skip (summarize g) q) (map (\<lambda>i. ?gs ! i) [0..<length ?gs])"
    by (simp add: filter_map comp_def)
  also have "map (\<lambda>i. ?gs ! i) [0..<length ?gs] = ?gs" by (rule map_nth)
  finally have m: "map (\<lambda>i. ?gs ! i) (positions (\<lambda>s. \<not> can_skip s q) (map summarize ?gs)) =
      filter (\<lambda>g. \<not> can_skip (summarize g) q) ?gs" .
  have "concat (map (\<lambda>i. filter (\<lambda>r. sat r q) (?gs ! i))
      (positions (\<lambda>s. \<not> can_skip s q) (map summarize ?gs))) =
    concat (map (filter (\<lambda>r. sat r q))
      (map (\<lambda>i. ?gs ! i) (positions (\<lambda>s. \<not> can_skip s q) (map summarize ?gs))))"
    by (simp add: comp_def)
  also have "\<dots> = filter (\<lambda>r. sat r q) (concat ?gs)"
    unfolding m by (rule kept_rows)
  finally show ?thesis by (simp only: concat_chunks [OF assms])
qed

end

section \<open>Min/max index\<close>

record granule_minmax =
  gmm_granule_idx :: u32
  gmm_row_offset :: u64
  gmm_row_count :: u32
  gmm_min_val :: "bytes option"
  gmm_max_val :: "bytes option"

record minmax_builder =
  mmb_granule_size :: nat
  mmb_granules :: "granule_minmax list"

definition minmax_builder_new :: "nat \<Rightarrow> minmax_builder" where
  "minmax_builder_new gsize = \<lparr>mmb_granule_size = gsize, mmb_granules = []\<rparr>"

definition minmax_granule :: "nat \<Rightarrow> nat \<Rightarrow> bytes option list \<Rightarrow> granule_minmax" where
  "minmax_granule gsize g_idx chunk =
     (let non_null = List.map_filter id chunk
      in \<lparr>gmm_granule_idx = of_nat g_idx, gmm_row_offset = of_nat (g_idx * gsize),
          gmm_row_count = of_nat (length chunk),
          gmm_min_val = iter_min non_null, gmm_max_val = iter_max non_null\<rparr>)"

definition minmax_build_bytes :: "minmax_builder \<Rightarrow> bytes option list \<Rightarrow> minmax_builder option" where
  "minmax_build_bytes b values =
     (if mmb_granule_size b = 0 then None
      else Some (b\<lparr>mmb_granules :=
        map (\<lambda>(g_idx, chunk). minmax_granule (mmb_granule_size b) g_idx chunk)
          (enumerate 0 (chunks (mmb_granule_size b) values))\<rparr>))"

type_synonym minmax_index = "granule_minmax list"

definition minmax_finish :: "minmax_builder \<Rightarrow> minmax_index" where
  "minmax_finish b = mmb_granules b"

definition minmax_skips :: "granule_minmax \<Rightarrow> bytes option \<times> bytes option \<Rightarrow> bool" where
  "minmax_skips g r =
     ((case (gmm_max_val g, fst r) of (Some gmax, Some lo) \<Rightarrow> gmax < lo | _ \<Rightarrow> False) \<or>
      (case (gmm_min_val g, snd r) of (Some gmin, Some hi) \<Rightarrow> hi < gmin | _ \<Rightarrow> False))"

definition candidate_granules_range ::
  "minmax_index \<Rightarrow> bytes option \<Rightarrow> bytes option \<Rightarrow> nat list" where
  "candidate_granules_range idx lo hi = positions (\<lambda>g. \<not> minmax_skips g (lo, hi)) idx"

definition candidate_granules_eq :: "minmax_index \<Rightarrow> bytes \<Rightarrow> nat list" where
  "candidate_granules_eq idx v = candidate_granules_range idx (Some v) (Some v)"

definition granule_min_max :: "minmax_index \<Rightarrow> nat \<Rightarrow> (bytes \<times> bytes) option" where
  "granule_min_max idx g =
     (if g < length idx
      then (case (gmm_min_val (idx ! g), gmm_max_val (idx ! g)) of
              (Some mn, Some mx) \<Rightarrow> Some (mn, mx) | _ \<Rightarrow> None)
      else None)"

definition global_min_max :: "minmax_index \<Rightarrow> bytes option \<times> bytes option" where
  "global_min_max idx =
     (iter_min (List.map_filter gmm_min_val idx), iter_max (List.map_filter gmm_max_val idx))"

text \<open>The predicate a range scan evaluates: a non-null value within the bounds.\<close>

definition in_range :: "bytes option \<Rightarrow> bytes option \<times> bytes option \<Rightarrow> bool" where
  "in_range r bounds =
     (case r of
        None \<Rightarrow> False
      | Some v \<Rightarrow> (case fst bounds of None \<Rightarrow> True | Some lo \<Rightarrow> lo \<le> v) \<and>
                   (case snd bounds of None \<Rightarrow> True | Some hi \<Rightarrow> v \<le> hi))"

lemma mem_map_filter_id [simp]: "v \<in> set (List.map_filter id xs) \<longleftrightarrow> Some v \<in> set xs"
  by (auto simp: List.map_filter_def image_iff intro: bexI [of _ "Some v"])

lemma minmax_skips_sound:
  assumes "minmax_skips (minmax_granule n i g) bounds" "r \<in> set g"
  shows "\<not> in_range r bounds"
proof
  assume "in_range r bounds"
  then obtain v where v: "r = Some v"
      "case fst bounds of None \<Rightarrow> True | Some lo \<Rightarrow> lo \<le> v"
      "case snd bounds of None \<Rightarrow> True | Some hi \<Rightarrow> v \<le> hi"
    by (auto simp: in_range_def split: option.splits)
  with assms(2) have mem: "v \<in> set (List.map_filter id g)" by simp
  have "\<And>m. iter_min (List.map_filter id g) = Some m \<Longrightarrow> m \<le> v"
    and "\<And>m. iter_max (List.map_filter id g) = Some m \<Longrightarrow> v \<le> m"
    using mem iter_min_Some iter_max_Some by blast+
  with assms(1) v(2,3) show False
    by (auto simp: minmax_skips_def minmax_granule_def Let_def split: option.splits)
qed

interpretation minmax: skip_index "minmax_granule n i" minmax_skips in_range for n i
  by unfold_locales (rule minmax_skips_sound)

lemma minmax_skips_granule: "minmax_skips (minmax_granule n i g) q = minmax_skips (minmax_granule n 0 g) q"
  by (simp add: minmax_skips_def minmax_granule_def Let_def)

lemma minmax_candidates:
  assumes "minmax_build_bytes b rows = Some b'"
  shows "candidate_granules_range (minmax_finish b') lo hi =
     positions (\<lambda>g. \<not> minmax_skips g (lo, hi))
       (map (minmax_granule (mmb_granule_size b) 0) (chunks (mmb_granule_size b) rows))"
proof -
  let ?n = "mmb_granule_size b"
  from assms have idx: "minmax_finish b' =
      map (\<lambda>(g_idx, chunk). minmax_granule ?n g_idx chunk) (enumerate 0 (chunks ?n rows))"
    by (auto simp: minmax_build_bytes_def minmax_finish_def split: if_splits)
  show ?thesis
    unfolding candidate_granules_range_def idx positions_def
    using minmax_skips_granule by (intro filter_cong) (auto simp: nth_enumerate_eq)
qed

section \<open>Set index\<close>

record granule_set_index =
  gsi_values :: "string set"
  gsi_max_values :: nat
  gsi_overflow :: bool

definition granule_set_new :: "nat \<Rightarrow> granule_set_index" where
  "granule_set_new max_values =
     \<lparr>gsi_values = {}, gsi_max_values = max_values, gsi_overflow = False\<rparr>"

definition granule_set_insert :: "string \<Rightarrow> granule_set_index \<Rightarrow> granule_set_index" where
  "granule_set_insert v g =
     (if gsi_overflow g then g
      else (let vs = insert v (gsi_values g)
            in if gsi_max_values g < card vs
               then g\<lparr>gsi_overflow := True, gsi_values := {}\<rparr>
               else g\<lparr>gsi_values := vs\<rparr>))"

definition can_skip_in :: "granule_set_index \<Rightarrow> string set \<Rightarrow> bool" where
  "can_skip_in g candidates =
     (if gsi_overflow g then False else (\<forall>v \<in> candidates. v \<notin> gsi_values g))"

definition can_skip_eq :: "granule_set_index \<Rightarrow> string \<Rightarrow> bool" where
  "can_skip_eq g v = (if gsi_overflow g then False else v \<notin> gsi_values g)"

definition can_skip_not_in :: "granule_set_index \<Rightarrow> string set \<Rightarrow> bool" where
  "can_skip_not_in g excluded =
     (if gsi_overflow g then False
      else gsi_values g \<noteq> {} \<and> (\<forall>v \<in> gsi_values g. v \<in> excluded))"

record set_index =
  si_granules :: "granule_set_index list"
  si_granule_size :: nat
  si_max_values :: nat

definition set_index_new :: "nat \<Rightarrow> nat \<Rightarrow> set_index" where
  "set_index_new gsize max_values =
     \<lparr>si_granules = [], si_granule_size = gsize, si_max_values = max_values\<rparr>"

definition set_granule :: "nat \<Rightarrow> string list \<Rightarrow> granule_set_index" where
  "set_granule max_values values = fold granule_set_insert values (granule_set_new max_values)"

definition set_push_granule :: "set_index \<Rightarrow> string list \<Rightarrow> set_index" where
  "set_push_granule idx values =
     idx\<lparr>si_granules := si_granules idx @ [set_granule (si_max_values idx) values]\<rparr>"

definition set_index_build :: "string list \<Rightarrow> nat \<Rightarrow> nat \<Rightarrow> set_index option" where
  "set_index_build values gsize max_values =
     (if gsize = 0 then None
      else (let chunk_count = (length values + gsize - 1) div gsize
            in Some ((set_index_new gsize max_values)\<lparr>si_granules :=
                 map (\<lambda>i. set_granule max_values (take gsize (drop (i * gsize) values)))
                   [0..<chunk_count]\<rparr>)))"

definition skip_mask_in :: "set_index \<Rightarrow> string set \<Rightarrow> bool list" where
  "skip_mask_in idx candidates = map (\<lambda>g. can_skip_in g candidates) (si_granules idx)"

definition skip_mask_eq :: "set_index \<Rightarrow> string \<Rightarrow> bool list" where
  "skip_mask_eq idx v = map (\<lambda>g. can_skip_eq g v) (si_granules idx)"

text \<open>A granule summary either overflowed or holds exactly the distinct values.\<close>

lemma granule_set_fold:
  "finite (gsi_values g) \<Longrightarrow>
   gsi_overflow (fold granule_set_insert vs g) \<or>
   \<not> gsi_overflow g \<and> gsi_values (fold granule_set_insert vs g) = gsi_values g \<union> set vs"
proof (induction vs arbitrary: g)
  case Nil
  then show ?case by auto
next
  case (Cons v vs)
  have "finite (gsi_values (granule_set_insert v g))"
    using Cons.prems by (simp add: granule_set_insert_def Let_def)
  from Cons.IH [OF this] show ?case
    by (auto simp: granule_set_insert_def Let_def split: if_splits)
qed

lemma set_granule_values:
  "gsi_overflow (set_granule m vs) \<or> gsi_values (set_granule m vs) = set vs"
  using granule_set_fold [of "granule_set_new m" vs] by (auto simp: set_granule_def granule_set_new_def)

interpretation set_in: skip_index "set_granule m" can_skip_in "\<lambda>r S. r \<in> S" for m
  using set_granule_values by unfold_locales (auto simp: can_skip_in_def split: if_splits)

interpretation set_eq: skip_index "set_granule m" can_skip_eq "\<lambda>r v. r = v" for m
  using set_granule_values by unfold_locales (auto simp: can_skip_eq_def split: if_splits)

interpretation set_not_in: skip_index "set_granule m" can_skip_not_in "\<lambda>r S. r \<notin> S" for m
  using set_granule_values by unfold_locales (fastforce simp: can_skip_not_in_def split: if_splits)

lemma set_index_build_granules:
  assumes "set_index_build values gsize max_values = Some idx"
  shows "0 < gsize" "si_granules idx = map (set_granule max_values) (chunks gsize values)"
proof -
  from assms show n: "0 < gsize" by (auto simp: set_index_build_def split: if_splits)
  with assms show "si_granules idx = map (set_granule max_values) (chunks gsize values)"
    by (auto simp: set_index_build_def Let_def simp flip: slices_eq_chunks [OF n])
qed

section \<open>N-gram Bloom index\<close>

text \<open>The operations the index uses of the \<open>bloomfilter\<close> crate, and what it relies on:
  a set element is found, setting another one does not unset it, and a filter rebuilt
  from its own parts answers as the original.\<close>

record 'b bloom_crate =
  bc_new_for_fp_rate :: "nat \<Rightarrow> real \<Rightarrow> 'b"
  bc_set :: "'b \<Rightarrow> bytes \<Rightarrow> 'b"
  bc_check :: "'b \<Rightarrow> bytes \<Rightarrow> bool"
  bc_bitmap :: "'b \<Rightarrow> bytes"
  bc_number_of_hash_functions :: "'b \<Rightarrow> u32"
  bc_number_of_bits :: "'b \<Rightarrow> u64"
  bc_sip_keys :: "'b \<Rightarrow> (u64 \<times> u64) \<times> (u64 \<times> u64)"
  bc_from_existing :: "bytes \<Rightarrow> u64 \<Rightarrow> u32 \<Rightarrow> (u64 \<times> u64) \<times> (u64 \<times> u64) \<Rightarrow> 'b"

definition bloom_crate_ok :: "'b bloom_crate \<Rightarrow> bool" where
  "bloom_crate_ok bc \<longleftrightarrow>
     (\<forall>b x. bc_check bc (bc_set bc b x) x) \<and>
     (\<forall>b x y. bc_check bc b y \<longrightarrow> bc_check bc (bc_set bc b x) y) \<and>
     (\<forall>b x. bc_check bc (bc_from_existing bc (bc_bitmap bc b) (bc_number_of_bits bc b)
        (bc_number_of_hash_functions bc b) (bc_sip_keys bc b)) x = bc_check bc b x)"

record 'b ngram_granule =
  ngg_bloom :: 'b
  ngg_n :: nat
  ngg_sip_keys :: "(u64 \<times> u64) \<times> (u64 \<times> u64)"

text \<open>\<open>len.saturating_sub(n - 1)\<close> on unsigned values: for \<open>n = 0\<close> the inner difference
  wraps to the maximum and the result is zero.\<close>

definition ngram_count :: "bytes \<Rightarrow> nat \<Rightarrow> nat" where
  "ngram_count s n = (if n = 0 then 0 else length s - (n - 1))"

definition ngrams :: "bytes \<Rightarrow> nat \<Rightarrow> bytes list" where
  "ngrams s n = map (\<lambda>i. take (min n (length s - i)) (drop i s)) [0..<ngram_count s n]"

definition ngram_granule_new :: "'b bloom_crate \<Rightarrow> nat \<Rightarrow> real \<Rightarrow> nat \<Rightarrow> 'b ngram_granule" where
  "ngram_granule_new bc n fp_rate expected_insertions =
     (let bloom = bc_new_for_fp_rate bc (max expected_insertions 1) fp_rate
      in \<lparr>ngg_bloom = bloom, ngg_n = n, ngg_sip_keys = bc_sip_keys bc bloom\<rparr>)"

definition ngram_insert :: "'b bloom_crate \<Rightarrow> bytes \<Rightarrow> 'b ngram_granule \<Rightarrow> 'b ngram_granule" where
  "ngram_insert bc s g =
     g\<lparr>ngg_bloom := fold (\<lambda>ng b. bc_set bc b ng) (ngrams s (ngg_n g)) (ngg_bloom g)\<rparr>"

definition can_skip_contains :: "'b bloom_crate \<Rightarrow> 'b ngram_granule \<Rightarrow> bytes \<Rightarrow> bool" where
  "can_skip_contains bc g needle =
     (if length needle < ngg_n g then False
      else \<not> list_all (\<lambda>ng. bc_check bc (ngg_bloom g) ng) (ngrams needle (ngg_n g)))"

definition can_skip_starts_with :: "'b bloom_crate \<Rightarrow> 'b ngram_granule \<Rightarrow> bytes \<Rightarrow> bool" where
  "can_skip_starts_with bc g pfx = can_skip_contains bc g pfx"

definition ngram_can_skip_eq :: "'b bloom_crate \<Rightarrow> 'b ngram_granule \<Rightarrow> bytes \<Rightarrow> bool" where
  "ngram_can_skip_eq bc g v = can_skip_contains bc g v"

record ngram_bf_serialized =
  ngs_bitmap :: bytes
  ngs_k_num :: u32
  ngs_num_bits :: u64
  ngs_n :: nat
  ngs_sip0 :: "u64 \<times> u64"
  ngs_sip1 :: "u64 \<times> u64"

definition ngram_to_bytes ::
  "'b bloom_crate \<Rightarrow> (ngram_bf_serialized \<Rightarrow> bytes option) \<Rightarrow> 'b ngram_granule \<Rightarrow> bytes option" where
  "ngram_to_bytes bc to_vec g =
     to_vec \<lparr>ngs_bitmap = bc_bitmap bc (ngg_bloom g),
             ngs_k_num = bc_number_of_hash_functions bc (ngg_bloom g),
             ngs_num_bits = bc_number_of_bits bc (ngg_bloom g),
             ngs_n = ngg_n g, ngs_sip0 = fst (ngg_sip_keys g), ngs_sip1 = snd (ngg_sip_keys g)\<rparr>"

definition ngram_from_bytes ::
  "'b bloom_crate \<Rightarrow> (bytes \<Rightarrow> ngram_bf_serialized option) \<Rightarrow> bytes \<Rightarrow> 'b ngram_granule option" where
  "ngram_from_bytes bc from_slice data =
     map_option (\<lambda>s.
       let bloom = bc_from_existing bc (ngs_bitmap s) (ngs_num_bits s) (ngs_k_num s)
                     (ngs_sip0 s, ngs_sip1 s)
       in \<lparr>ngg_bloom = bloom, ngg_n = ngs_n s, ngg_sip_keys = bc_sip_keys bc bloom\<rparr>)
     (from_slice data)"

record 'b ngram_index =
  ngi_granules :: "'b ngram_granule list"
  ngi_granule_size :: nat

definition ngram_granule_of :: "'b bloom_crate \<Rightarrow> nat \<Rightarrow> real \<Rightarrow> bytes list \<Rightarrow> 'b ngram_granule" where
  "ngram_granule_of bc n fp_rate chunk =
     (let total_ngrams = sum_list (map (\<lambda>s. ngram_count s n) chunk)
      in fold (ngram_insert bc) chunk (ngram_granule_new bc n fp_rate (max total_ngrams 1)))"

definition ngram_index_build ::
  "'b bloom_crate \<Rightarrow> bytes list \<Rightarrow> nat \<Rightarrow> nat \<Rightarrow> real \<Rightarrow> 'b ngram_index option" where
  "ngram_index_build bc values gsize n fp_rate =
     (if gsize = 0 then None
      else (let chunk_count = (length values + gsize - 1) div gsize
            in Some \<lparr>ngi_granules =
                 map (\<lambda>i. ngram_granule_of bc n fp_rate (take gsize (drop (i * gsize) values)))
                   [0..<chunk_count], ngi_granule_size = gsize\<rparr>))"

definition skip_mask_contains :: "'b bloom_crate \<Rightarrow> 'b ngram_index \<Rightarrow> bytes \<Rightarrow> bool list" where
  "skip_mask_contains bc idx needle = map (\<lambda>g. can_skip_contains bc g needle) (ngi_granules idx)"

definition ngram_skip_mask_eq :: "'b bloom_crate \<Rightarrow> 'b ngram_index \<Rightarrow> bytes \<Rightarrow> bool list" where
  "ngram_skip_mask_eq bc idx v = map (\<lambda>g. ngram_can_skip_eq bc g v) (ngi_granules idx)"

lemma ngrams_sublist:
  assumes "sublist needle s" "ng \<in> set (ngrams needle n)"
  shows "ng \<in> set (ngrams s n)"
proof -
  from assms(1) obtain p q where s: "s = p @ needle @ q" by (auto simp: sublist_def)
  from assms(2) obtain i where i: "0 < n" "i < length needle - (n - 1)"
      "ng = take (min n (length needle - i)) (drop i needle)"
    by (auto simp: ngrams_def ngram_count_def split: if_splits)
  then have n: "min n (length needle - i) = n" "n \<le> length needle - i" by linarith+
  then have "ng = take n (drop (length p + i) s)" by (simp add: i(3) s)
  moreover have "min n (length s - (length p + i)) = n" using n by (simp add: s)
  moreover have "length p + i < length s - (n - 1)" using i(1,2) by (simp add: s)
  ultimately show ?thesis
    using i(1) by (auto simp: ngrams_def ngram_count_def image_iff intro!: bexI [of _ "length p + i"])
qed

lemma fold_set_check:
  assumes "bloom_crate_ok bc" "bc_check bc b y \<or> y \<in> set xs"
  shows "bc_check bc (fold (\<lambda>x b. bc_set bc b x) xs b) y"
  using assms(2)
proof (induction xs arbitrary: b)
  case Nil
  then show ?case by simp
next
  case (Cons x xs)
  with assms(1) have "bc_check bc (bc_set bc b x) y \<or> y \<in> set xs"
    by (auto simp: bloom_crate_ok_def)
  with Cons.IH show ?case by simp
qed

lemma fold_ngram_insert:
  assumes ok: "bloom_crate_ok bc"
  shows "ngg_n (fold (ngram_insert bc) ss g) = ngg_n g \<and>
    (\<forall>y. bc_check bc (ngg_bloom g) y \<or> (\<exists>s \<in> set ss. y \<in> set (ngrams s (ngg_n g))) \<longrightarrow>
       bc_check bc (ngg_bloom (fold (ngram_insert bc) ss g)) y)"
proof (induction ss arbitrary: g)
  case Nil
  then show ?case by simp
next
  case (Cons s ss)
  let ?g = "ngram_insert bc s g"
  have "ngg_n ?g = ngg_n g" by (simp add: ngram_insert_def)
  moreover have "bc_check bc (ngg_bloom ?g) y"
    if "bc_check bc (ngg_bloom g) y \<or> y \<in> set (ngrams s (ngg_n g))" for y
    using fold_set_check [OF ok that] by (simp add: ngram_insert_def)
  ultimately show ?case using Cons.IH [of ?g] by auto
qed

lemma ngram_skip_index:
  assumes ok: "bloom_crate_ok bc"
  shows "skip_index (ngram_granule_of bc n fp_rate) (can_skip_contains bc) (\<lambda>s needle. sublist needle s)"
proof
  fix g needle s
  assume skip: "can_skip_contains bc (ngram_granule_of bc n fp_rate g) needle" and s: "s \<in> set g"
  let ?new = "\<lambda>k. ngram_granule_new bc n fp_rate k"
  have new: "ngg_n (?new k) = n" for k by (simp add: ngram_granule_new_def Let_def)
  have n: "ngg_n (ngram_granule_of bc n fp_rate g) = n"
    using fold_ngram_insert [OF ok] by (simp add: ngram_granule_of_def new)
  have "bc_check bc (ngg_bloom (ngram_granule_of bc n fp_rate g)) y" if "y \<in> set (ngrams s n)" for y
    using fold_ngram_insert [OF ok, of g] that s new unfolding ngram_granule_of_def Let_def by metis
  with skip show "\<not> sublist needle s"
    using ngrams_sublist [of needle s] by (auto simp: can_skip_contains_def n list_all_iff split: if_splits)
qed

lemma ngram_index_granules:
  assumes "ngram_index_build bc values gsize n fp_rate = Some idx"
  shows "0 < gsize" "ngi_granules idx = map (ngram_granule_of bc n fp_rate) (chunks gsize values)"
proof -
  from assms show n: "0 < gsize" by (auto simp: ngram_index_build_def split: if_splits)
  with assms show "ngi_granules idx = map (ngram_granule_of bc n fp_rate) (chunks gsize values)"
    by (auto simp: ngram_index_build_def Let_def simp flip: slices_eq_chunks [OF n])
qed

section \<open>Bloom filter index\<close>

record granule_bloom_entry =
  gbe_granule_idx :: u32
  gbe_row_offset :: u64
  gbe_row_count :: u32
  gbe_bloom_bytes :: bytes

record bloom_filter_index =
  bfi_entries :: "granule_bloom_entry list"
  bfi_granule_size :: nat

definition bloom_index_entry ::
  "(bytes \<Rightarrow> 128 word) \<Rightarrow> (bloom_serialized \<Rightarrow> bytes option) \<Rightarrow> (bytes \<Rightarrow> u32) \<Rightarrow> nat \<Rightarrow> nat \<Rightarrow>
   bytes option list \<Rightarrow> (bloom_error + granule_bloom_entry) option" where
  "bloom_index_entry xxh3 to_vec crc32 gsize g_idx chunk =
     (let row_offset = of_nat (g_idx * gsize);
          non_null = List.map_filter id chunk
      in case bloom_insert_all xxh3 (bloom_with_defaults (max (length non_null) 1)) non_null of
           None \<Rightarrow> None
         | Some bf \<Rightarrow>
             (case bloom_to_bytes to_vec crc32 bf of
                Inl e \<Rightarrow> Some (Inl e)
              | Inr bloom_bytes \<Rightarrow>
                  Some (Inr \<lparr>gbe_granule_idx = of_nat g_idx, gbe_row_offset = row_offset,
                             gbe_row_count = of_nat (length chunk),
                             gbe_bloom_bytes = bloom_bytes\<rparr>)))"

fun bloom_index_entries ::
  "(bytes \<Rightarrow> 128 word) \<Rightarrow> (bloom_serialized \<Rightarrow> bytes option) \<Rightarrow> (bytes \<Rightarrow> u32) \<Rightarrow> nat \<Rightarrow> nat \<Rightarrow>
   bytes option list list \<Rightarrow> (bloom_error + granule_bloom_entry list) option" where
  "bloom_index_entries xxh3 to_vec crc32 gsize g_idx [] = Some (Inr [])"
| "bloom_index_entries xxh3 to_vec crc32 gsize g_idx (chunk # rest) =
     (case bloom_index_entry xxh3 to_vec crc32 gsize g_idx chunk of
        None \<Rightarrow> None
      | Some (Inl e) \<Rightarrow> Some (Inl e)
      | Some (Inr entry) \<Rightarrow>
          (case bloom_index_entries xxh3 to_vec crc32 gsize (g_idx + 1) rest of
             None \<Rightarrow> None
           | Some (Inl e) \<Rightarrow> Some (Inl e)
           | Some (Inr entries) \<Rightarrow> Some (Inr (entry # entries))))"

definition bloom_index_build ::
  "(bytes \<Rightarrow> 128 word) \<Rightarrow> (bloom_serialized \<Rightarrow> bytes option) \<Rightarrow> (bytes \<Rightarrow> u32) \<Rightarrow> nat \<Rightarrow>
   bytes option list \<Rightarrow> (bloom_error + bloom_filter_index) option" where
  "bloom_index_build xxh3 to_vec crc32 gsize values =
     (if gsize = 0 then None
      else map_option (map_sum id (\<lambda>es. \<lparr>bfi_entries = es, bfi_granule_size = gsize\<rparr>))
             (bloom_index_entries xxh3 to_vec crc32 gsize 0 (chunks gsize values)))"

definition bloom_entry_probe ::
  "(bytes \<Rightarrow> 128 word) \<Rightarrow> (bytes \<Rightarrow> bloom_serialized option) \<Rightarrow> (bytes \<Rightarrow> u32) \<Rightarrow> bytes \<Rightarrow>
   granule_bloom_entry \<Rightarrow> bool option" where
  "bloom_entry_probe xxh3 from_slice crc32 key entry =
     (case bloom_from_bytes from_slice crc32 (gbe_bloom_bytes entry) of
        Inl _ \<Rightarrow> Some False
      | Inr bf \<Rightarrow> may_contain xxh3 bf key)"

definition bloom_index_candidates ::
  "(bytes \<Rightarrow> 128 word) \<Rightarrow> (bytes \<Rightarrow> bloom_serialized option) \<Rightarrow> (bytes \<Rightarrow> u32) \<Rightarrow>
   bloom_filter_index \<Rightarrow> bytes \<Rightarrow> nat list option" where
  "bloom_index_candidates xxh3 from_slice crc32 idx key =
     map_option (positions (\<lambda>b. b))
       (those (map (bloom_entry_probe xxh3 from_slice crc32 key) (bfi_entries idx)))"

lemma bitvec_set_all_num_bits:
  "bitvec_set_all v is = Some w \<Longrightarrow> bv_num_bits w = bv_num_bits v"
  by (induction v "is" rule: bitvec_set_all.induct)
    (auto simp: bitvec_set_def Let_def split: option.splits if_splits)

lemma bloom_insert_all_num_bits:
  "bloom_insert_all xxh3 bf keys = Some bf' \<Longrightarrow>
   bv_num_bits (bloom_bitmap bf') = bv_num_bits (bloom_bitmap bf)"
  by (induction xxh3 bf keys rule: bloom_insert_all.induct)
    (auto simp: bloom_insert_def bitvec_set_all_num_bits split: option.splits)

lemma length_map_filter: "length (List.map_filter f xs) \<le> length xs"
  by (induction xs) (auto simp: List.map_filter_simps split: option.splits)

lemma bloom_index_entry_ok:
  assumes json: "\<And>s. \<exists>data. to_vec s = Some data \<and> from_slice data = Some s"
    and small: "length chunk < 2 ^ 60"
  obtains entry where "bloom_index_entry xxh3 to_vec crc32 gsize g_idx chunk = Some (Inr entry)"
    "\<And>key. \<exists>b. bloom_entry_probe xxh3 from_slice crc32 key entry = Some b"
    "\<And>key. Some key \<in> set chunk \<Longrightarrow> bloom_entry_probe xxh3 from_slice crc32 key entry = Some True"
proof -
  let ?keys = "List.map_filter id chunk"
  let ?new = "bloom_new (max (length ?keys) 1) bloom_config_default"
  obtain bf where bf: "bloom_insert_all xxh3 ?new ?keys = Some bf" "bloom_wf bf"
      "\<And>k. k \<in> set ?keys \<Longrightarrow> may_contain xxh3 bf k = Some True"
  proof -
    have "length ?keys < 2 ^ 60" using length_map_filter small le_less_trans by blast
    then have "bloom_fits (max (length ?keys) 1) bloom_config_default"
      by (intro bloom_fits_small) (simp add: bloom_config_default_def)
    from that bloom_insert_all_total [OF bloom_new_wf [OF this]] show thesis by metis
  qed
  have "bv_num_bits (bloom_bitmap bf) < 2 ^ 64"
    using bloom_insert_all_num_bits [OF bf(1)]
    bloom_new_bits [of "max (length ?keys) 1" bloom_config_default] by simp
  from bloom_file_roundtrip [OF json this, of crc32]
  obtain img where img: "bloom_to_bytes to_vec crc32 bf = Inr img"
      "bloom_from_bytes from_slice crc32 img = Inr (bloom_reloaded bf)" .
  let ?e = "\<lparr>gbe_granule_idx = of_nat g_idx, gbe_row_offset = of_nat (g_idx * gsize),
             gbe_row_count = of_nat (length chunk), gbe_bloom_bytes = img\<rparr>"
  have probe: "bloom_entry_probe xxh3 from_slice crc32 key ?e = may_contain xxh3 bf key" for key
    by (simp add: bloom_entry_probe_def img(2))
  show thesis
  proof (rule that [of ?e])
    show "bloom_index_entry xxh3 to_vec crc32 gsize g_idx chunk = Some (Inr ?e)"
      using bf(1) img(1) by (simp add: bloom_index_entry_def bloom_with_defaults_def Let_def)
  qed (use bf(2,3) in \<open>simp_all only: probe may_contain_total mem_map_filter_id\<close>)
qed

lemma bloom_index_entries_ok:
  assumes json: "\<And>s. \<exists>data. to_vec s = Some data \<and> from_slice data = Some s"
    and small: "list_all (\<lambda>chunk. length chunk < 2 ^ 60) gs"
  shows "\<exists>es. bloom_index_entries xxh3 to_vec crc32 gsize g_idx gs = Some (Inr es) \<and>
    length es = length gs \<and>
    (\<exists>bs. those (map (bloom_entry_probe xxh3 from_slice crc32 key) es) = Some bs \<and>
       length bs = length gs \<and> (\<forall>g < length gs. Some key \<in> set (gs ! g) \<longrightarrow> bs ! g))"
  using small
proof (induction gs arbitrary: g_idx)
  case Nil
  then show ?case by simp
next
  case (Cons c gs)
  then have "length c < 2 ^ 60" by simp
  from bloom_index_entry_ok [OF json this, where ?xxh3.0 = xxh3 and ?crc32.0 = crc32 and gsize = gsize and g_idx = g_idx]
  obtain e where e: "bloom_index_entry xxh3 to_vec crc32 gsize g_idx c = Some (Inr e)"
      "\<And>key. \<exists>b. bloom_entry_probe xxh3 from_slice crc32 key e = Some b"
      "\<And>key. Some key \<in> set c \<Longrightarrow> bloom_entry_probe xxh3 from_slice crc32 key e = Some True"
    by metis
  obtain b where b: "bloom_entry_probe xxh3 from_slice crc32 key e = Some b" using e(2) by blast
  obtain es bs where *: "bloom_index_entries xxh3 to_vec crc32 gsize (g_idx + 1) gs = Some (Inr es)"
      "length es = length gs"
      "those (map (bloom_entry_probe xxh3 from_slice crc32 key) es) = Some bs"
      "length bs = length gs" "\<forall>g < length gs. Some key \<in> set (gs ! g) \<longrightarrow> bs ! g"
    using Cons.IH [of "g_idx + 1"] Cons.prems by auto
  have "\<forall>g < length (c # gs). Some key \<in> set ((c # gs) ! g) \<longrightarrow> (b # bs) ! g"
    using * b e(3) by (auto simp: nth_Cons split: nat.split)
  with e(1) b * show ?case by (intro exI [of _ "e # es"]) auto
qed

section \<open>A reference instance of the Bloom filter crate\<close>

text \<open>A one-byte filter with one hash function satisfies the hypotheses on the crate.\<close>

definition ref_bloom_crate :: "byte bloom_crate" where
  "ref_bloom_crate =
     \<lparr>bc_new_for_fp_rate = (\<lambda>_ _. 0),
      bc_set = (\<lambda>b x. b OR push_bit (unat (sum_list x) mod 8) 1),
      bc_check = (\<lambda>b x. bit b (unat (sum_list x) mod 8)),
      bc_bitmap = (\<lambda>b. [b]), bc_number_of_hash_functions = (\<lambda>_. 1),
      bc_number_of_bits = (\<lambda>_. 8), bc_sip_keys = (\<lambda>_. ((0, 0), (0, 0))),
      bc_from_existing = (\<lambda>bm _ _ _. hd bm)\<rparr>"

lemma ref_bloom_crate_ok: "bloom_crate_ok ref_bloom_crate"
  by (simp add: bloom_crate_ok_def ref_bloom_crate_def bit_or_iff bit_exp_iff possible_bit_word)

section \<open>Properties\<close>

text \<open>C34. A range scan through the min/max index reads only the candidate granules and
  still returns exactly the rows within the bounds, in order, nulls left out.\<close>

theorem minmax_range_scan_complete:
  assumes "minmax_build_bytes b rows = Some b'"
  shows "concat (map (\<lambda>g. filter (\<lambda>r. in_range r (lo, hi)) (chunks (mmb_granule_size b) rows ! g))
           (candidate_granules_range (minmax_finish b') lo hi)) =
         filter (\<lambda>r. in_range r (lo, hi)) rows"
proof -
  from assms have "0 < mmb_granule_size b"
    by (auto simp: minmax_build_bytes_def split: if_splits)
  from minmax.scan_candidates [OF this] show ?thesis
    unfolding minmax_candidates [OF assms] .
qed

theorem minmax_range_scan_complete_witness:
  "let rows = [Some [1], None, Some [9], Some [4, 2]];
       idx = minmax_finish (the (minmax_build_bytes (minmax_builder_new 2) rows))
   in candidate_granules_range idx (Some [3]) (Some [5]) = [1] \<and>
      concat (map (\<lambda>g. filter (\<lambda>r. in_range r (Some [3], Some [5])) (chunks 2 rows ! g))
        (candidate_granules_range idx (Some [3]) (Some [5]))) =
      filter (\<lambda>r. in_range r (Some [3], Some [5])) rows"
  using minmax_range_scan_complete [of "minmax_builder_new 2" "[Some [1], None, Some [9], Some [4, 2]]"
      "the (minmax_build_bytes (minmax_builder_new 2) [Some [1], None, Some [9], Some [4, 2]])"
      "Some [3]" "Some [5]"]
  by (simp add: Let_def minmax_builder_new_def minmax_build_bytes_def minmax_finish_def
      candidate_granules_range_def minmax_skips_def minmax_granule_def positions_def
      chunks_step iter_min_def iter_max_def List.map_filter_simps)

text \<open>A set index, overflowed or not, never skips a granule that holds a row of an
  IN list: scanning the granules its mask keeps returns exactly the matching rows.\<close>

lemma set_index_in_scan_complete:
  assumes "set_index_build rows gsize max_values = Some idx"
  shows "concat (map (\<lambda>g. filter (\<lambda>r. r \<in> candidates) (chunks gsize rows ! g))
           (positions (\<lambda>skip. \<not> skip) (skip_mask_in idx candidates))) =
         filter (\<lambda>r. r \<in> candidates) rows"
proof -
  note b = set_index_build_granules [OF assms]
  have "positions (\<lambda>skip. \<not> skip) (skip_mask_in idx candidates) =
      positions (\<lambda>s. \<not> can_skip_in s candidates) (map (set_granule max_values) (chunks gsize rows))"
    unfolding skip_mask_in_def b(2) by (simp add: positions_map comp_def)
  with set_in.scan_candidates [OF b(1)] show ?thesis by simp
qed

text \<open>C35. The n-gram index accelerates \<open>LIKE '%needle%'\<close> without losing rows: scanning
  the granules it keeps returns exactly the strings that contain the needle, for any
  Bloom filter implementation without false negatives.\<close>

theorem ngram_contains_scan_complete:
  assumes "bloom_crate_ok bc" and "ngram_index_build bc rows gsize n fp_rate = Some idx"
  shows "concat (map (\<lambda>g. filter (\<lambda>s. sublist needle s) (chunks gsize rows ! g))
           (positions (\<lambda>skip. \<not> skip) (skip_mask_contains bc idx needle))) =
         filter (\<lambda>s. sublist needle s) rows"
proof -
  note b = ngram_index_granules [OF assms(2)]
  have "positions (\<lambda>skip. \<not> skip) (skip_mask_contains bc idx needle) =
      positions (\<lambda>s. \<not> can_skip_contains bc s needle)
        (map (ngram_granule_of bc n fp_rate) (chunks gsize rows))"
    unfolding skip_mask_contains_def b(2) by (simp add: positions_map comp_def)
  with skip_index.scan_candidates [OF ngram_skip_index [OF assms(1)] b(1)] show ?thesis by simp
qed

theorem ngram_contains_scan_complete_witness:
  "let rows = [ascii ''abcd'', ascii ''xyz'', ascii ''zabc'', ascii ''q''];
       idx = the (ngram_index_build ref_bloom_crate rows 2 3 (1 / 100))
   in concat (map (\<lambda>g. filter (\<lambda>s. sublist (ascii ''abc'') s) (chunks 2 rows ! g))
           (positions (\<lambda>skip. \<not> skip) (skip_mask_contains ref_bloom_crate idx (ascii ''abc'')))) =
      filter (\<lambda>s. sublist (ascii ''abc'') s) rows"
  using ngram_contains_scan_complete [OF ref_bloom_crate_ok,
      of "[ascii ''abcd'', ascii ''xyz'', ascii ''zabc'', ascii ''q'']" 2 3 "1 / 100"
      "the (ngram_index_build ref_bloom_crate [ascii ''abcd'', ascii ''xyz'', ascii ''zabc'', ascii ''q''] 2 3 (1 / 100))"
      "ascii ''abc''"]
  by (simp add: Let_def ngram_index_build_def)

text \<open>A Bloom filter index that was built and serialised answers an equality lookup
  without losing rows: building succeeds and the candidates of a key include the
  granule of every row that holds it, provided the JSON codec reads back what it wrote.\<close>

lemma bloom_index_sound:
  assumes "\<And>s. \<exists>data. to_vec s = Some data \<and> from_slice data = Some s"
    and "0 < gsize" and "gsize < 2 ^ 60" and "i < length rows" and "rows ! i = Some key"
  shows "\<exists>idx cands. bloom_index_build xxh3 to_vec crc32 gsize rows = Some (Inr idx) \<and>
     bloom_index_candidates xxh3 from_slice crc32 idx key = Some cands \<and> i div gsize \<in> set cands"
proof -
  let ?gs = "chunks gsize rows"
  have "length (?gs ! g) \<le> gsize" if "g < length ?gs" for g
    using chunks_nth [OF assms(2) that] by simp
  then have "list_all (\<lambda>c. length c < 2 ^ 60) ?gs"
    using assms(3) by (auto simp: list_all_length intro: le_less_trans)
  from bloom_index_entries_ok [OF assms(1) this]
  obtain es bs where es: "bloom_index_entries xxh3 to_vec crc32 gsize 0 ?gs = Some (Inr es)"
      "those (map (bloom_entry_probe xxh3 from_slice crc32 key) es) = Some bs"
      "length bs = length ?gs" "\<forall>g < length ?gs. Some key \<in> set (?gs ! g) \<longrightarrow> bs ! g"
    by metis
  have "i div gsize \<in> set (positions (\<lambda>b. b) bs)"
    using es(3,4) chunks_row [OF assms(2,4)] chunks_row_mem [OF assms(2,4)] assms(5) by simp
  with es(1,2) assms(2) show ?thesis
    by (simp add: bloom_index_build_def bloom_index_candidates_def)
qed

text \<open>A stored filter that fails its checksum is treated as an absent key: the granule
  is left out of the candidates although it may hold the key.\<close>

lemma bloom_index_corrupt_entry_skipped:
  assumes "14 \<le> length raw" and "take 8 raw = ascii ''WOWBLOOM''"
    and "from_le (take 4 (drop 10 raw)) \<noteq> crc32 (drop 14 raw)"
  shows "bloom_index_candidates xxh3 from_slice crc32
     \<lparr>bfi_entries = [e\<lparr>gbe_bloom_bytes := raw\<rparr>], bfi_granule_size = gsize\<rparr> key = Some []"
  using assms
  by (simp add: bloom_index_candidates_def bloom_entry_probe_def bloom_from_bytes_def Let_def positions_def)

end
