(* ===== verification/Encoding.thy ===== *)
theory Encoding
  imports Prelude
begin

text \<open>
  Column encodings of the storage node (\<open>storage-node/src/columnar/encoding.rs\<close>):
  dictionary, delta, bit packing and plain. Each encoder and each decoder is
  translated on its own; the decoders that index without a check return \<open>None\<close>
  where the Rust code panics. The interface \<open>column_codec\<close> collects what a column
  file relies on, and every encoding interprets it.
\<close>

section \<open>The interface of a column encoding\<close>

locale column_codec =
  fixes encode :: "'v list \<Rightarrow> 'c"
    and decode :: "'c \<Rightarrow> 'v list option"
    and ok :: "'v list \<Rightarrow> bool"
  assumes decode_encode: "ok vs \<Longrightarrow> decode (encode vs) = Some vs"
begin

lemma encode_inj: "ok vs \<Longrightarrow> ok ws \<Longrightarrow> encode vs = encode ws \<Longrightarrow> vs = ws"
  by (metis decode_encode option.inject)

end

datatype encoding = Plain | Dictionary | Delta | BitPacking

section \<open>Dictionary encoding\<close>

record dict_encoder =
  enc_dict :: "bytes list"
  enc_lookup :: "bytes \<rightharpoonup> u32"
  enc_codes :: "u32 list"

definition dict_new :: dict_encoder where
  "dict_new = \<lparr>enc_dict = [], enc_lookup = Map.empty, enc_codes = []\<rparr>"

definition dict_push :: "dict_encoder \<Rightarrow> bytes \<Rightarrow> dict_encoder" where
  "dict_push e value =
     (let next_id = of_nat (length (enc_dict e)) :: u32
      in case enc_lookup e value of
           Some code \<Rightarrow> e\<lparr>enc_codes := enc_codes e @ [code]\<rparr>
         | None \<Rightarrow> e\<lparr>enc_dict := enc_dict e @ [value],
                     enc_lookup := (enc_lookup e)(value \<mapsto> next_id),
                     enc_codes := enc_codes e @ [next_id]\<rparr>)"

definition dict_finish :: "dict_encoder \<Rightarrow> bytes \<times> bytes" where
  "dict_finish e =
     (to_le 4 (of_nat (length (enc_dict e)) :: u32) @ concat (map put_len_bytes (enc_dict e)),
      to_le 4 (of_nat (length (enc_codes e)) :: u32) @ concat (map (to_le 4) (enc_codes e)))"

fun dict_fetch :: "bytes list \<Rightarrow> u32 list \<Rightarrow> bytes list option" where
  "dict_fetch d [] = Some []"
| "dict_fetch d (c # cs) =
     (if unat c < length d
      then map_option (\<lambda>vs. d ! unat c # vs) (dict_fetch d cs)
      else None)"

definition dict_decode :: "bytes \<Rightarrow> bytes \<Rightarrow> bytes list option" where
  "dict_decode dict_bytes codes_bytes =
     (case read_u32 dict_bytes of
        None \<Rightarrow> None
      | Some (n_dict, rest) \<Rightarrow>
     (case parse_n get_len_bytes (unat n_dict) rest of
        None \<Rightarrow> None
      | Some (d, _) \<Rightarrow>
     (case read_u32 codes_bytes of
        None \<Rightarrow> None
      | Some (n_codes, crest) \<Rightarrow>
     (case parse_n read_u32 (unat n_codes) crest of
        None \<Rightarrow> None
      | Some (cs, _) \<Rightarrow> dict_fetch d cs))))"

definition dict_encode :: "bytes list \<Rightarrow> bytes \<times> bytes" where
  "dict_encode vs = dict_finish (fold (\<lambda>v e. dict_push e v) vs dict_new)"

text \<open>What the encoder keeps true: the lookup table inverts the dictionary and the
  codes read back the values pushed so far.\<close>

definition dict_inv :: "dict_encoder \<Rightarrow> bytes list \<Rightarrow> bool" where
  "dict_inv e vs \<longleftrightarrow>
     length (enc_dict e) \<le> length vs \<and> length (enc_codes e) = length vs \<and>
     set (enc_dict e) \<subseteq> set vs \<and>
     (\<forall>v c. enc_lookup e v = Some c \<longrightarrow> unat c < length (enc_dict e) \<and> enc_dict e ! unat c = v) \<and>
     dict_fetch (enc_dict e) (enc_codes e) = Some vs"

lemma dict_fetch_append:
  "dict_fetch d cs = Some vs \<Longrightarrow> dict_fetch d cs' = Some ws \<Longrightarrow>
   dict_fetch d (cs @ cs') = Some (vs @ ws)"
  by (induction cs arbitrary: vs) (auto split: if_splits)

lemma dict_fetch_extend: "dict_fetch d cs = Some vs \<Longrightarrow> dict_fetch (d @ d') cs = Some vs"
  by (induction cs arbitrary: vs) (auto simp: nth_append split: if_splits)

lemma dict_inv_new: "dict_inv dict_new []"
  by (simp add: dict_inv_def dict_new_def)

lemma dict_inv_push:
  assumes inv: "dict_inv e vs" and len: "length vs < 2 ^ 32"
  shows "dict_inv (dict_push e v) (vs @ [v])"
proof (cases "enc_lookup e v")
  case (Some c)
  with inv have "unat c < length (enc_dict e)" "enc_dict e ! unat c = v"
    by (auto simp: dict_inv_def)
  with inv Some show ?thesis
    by (auto simp: dict_inv_def dict_push_def Let_def intro!: dict_fetch_append)
next
  case None
  from inv len have id: "unat (of_nat (length (enc_dict e)) :: u32) = length (enc_dict e)"
    by (intro unat_u32_of_nat) (simp add: dict_inv_def)
  from inv have f: "dict_fetch (enc_dict e @ [v]) (enc_codes e) = Some vs"
    by (intro dict_fetch_extend) (simp add: dict_inv_def)
  with inv None id show ?thesis
    by (auto simp: dict_inv_def dict_push_def Let_def nth_append less_Suc_eq
        intro!: dict_fetch_append)
qed

lemma dict_inv_pushes:
  "dict_inv e vs \<Longrightarrow> length vs + length ws \<le> 2 ^ 32 \<Longrightarrow>
   dict_inv (fold (\<lambda>v e. dict_push e v) ws e) (vs @ ws)"
proof (induction ws arbitrary: e vs)
  case Nil
  then show ?case by simp
next
  case (Cons w ws)
  then have "dict_inv (dict_push e w) (vs @ [w])"
    by (intro dict_inv_push) simp_all
  from Cons.IH [OF this] Cons.prems show ?case by simp
qed

lemma dict_decode_finish:
  assumes inv: "dict_inv e vs" and len: "fits_u32 vs" and ok: "list_all fits_u32 vs"
  shows "dict_decode (fst (dict_finish e)) (snd (dict_finish e)) = Some vs"
proof -
  from inv len have "fits_u32 (enc_dict e)" "fits_u32 (enc_codes e)"
    by (simp_all add: dict_inv_def fits_u32_def)
  note lens = this [THEN fits_u32_unat]
  from inv ok have "list_all fits_u32 (enc_dict e)"
    by (auto simp: dict_inv_def list_all_iff)
  note d = len_bytes.parse_n_enc [OF this, where rest = "[]", simplified]
  have c: "parse_n read_u32 (length (enc_codes e)) (concat (map (to_le 4) (enc_codes e))) =
      Some (enc_codes e, [])"
    using u32_codec.parse_n_enc [of "enc_codes e" "[]"] by (simp add: list_all_iff)
  show ?thesis
    unfolding dict_decode_def dict_finish_def fst_conv snd_conv read_u32_append
      option.case prod.case lens d c
    using inv by (simp add: dict_inv_def)
qed

section \<open>Delta encoding\<close>

text \<open>An \<open>i64\<close> is a 64-bit word; the difference and the running sum wrap.\<close>

definition delta_encode :: "u64 list \<Rightarrow> bytes" where
  "delta_encode values =
     (case values of
        [] \<Rightarrow> []
      | v # vs \<Rightarrow>
          to_le 8 v @ concat (map (\<lambda>(a, b). to_le 8 (b - a)) (zip values (tl values))))"

fun running_sum :: "u64 \<Rightarrow> u64 list \<Rightarrow> u64 list" where
  "running_sum prev [] = []"
| "running_sum prev (d # ds) = (prev + d) # running_sum (prev + d) ds"

definition i64_at :: "bytes \<Rightarrow> nat \<Rightarrow> u64" where
  "i64_at data i = from_le (take 8 (drop (i * 8) data))"

definition delta_decode :: "bytes \<Rightarrow> u64 list option" where
  "delta_decode data =
     (if data = [] then Some []
      else if length data < 8 then None
      else (let n = length data div 8; base = i64_at data 0
            in Some (base # running_sum base (map (i64_at data) [1..<n]))))"

lemma i64_at_concat:
  "i < length ws \<Longrightarrow> i64_at (concat (map (to_le 8) ws)) i = ws ! i"
proof (induction ws arbitrary: i)
  case Nil
  then show ?case by simp
next
  case (Cons w ws)
  show ?case
  proof (cases i)
    case 0
    then show ?thesis by (simp add: i64_at_def le_u64)
  next
    case (Suc j)
    with Cons show ?thesis by (simp add: i64_at_def)
  qed
qed

lemma length_concat_le [simp]: "length (concat (map (to_le n) ws)) = n * length ws"
  by (induction ws) simp_all

lemma delta_encode_words:
  "delta_encode (v # vs) = concat (map (to_le 8) (v # map (\<lambda>(a, b). b - a) (zip (v # vs) vs)))"
  by (simp add: delta_encode_def comp_def case_prod_unfold)

lemma running_sum_deltas: "running_sum v (map (\<lambda>(a, b). b - a) (zip (v # vs) vs)) = vs"
  by (induction vs arbitrary: v) simp_all

lemma delta_decode_words:
  "delta_decode (concat (map (to_le 8) (w # ws))) = Some (w # running_sum w ws)"
proof -
  let ?d = "concat (map (to_le 8) (w # ws))"
  have l: "length ?d = 8 * Suc (length ws)" by simp
  have at: "i64_at ?d i = (w # ws) ! i" if "i < Suc (length ws)" for i
    using that by (intro i64_at_concat) simp
  have "map (i64_at ?d) [1..<Suc (length ws)] = map ((!) (w # ws)) [1..<Suc (length ws)]"
    using at by (intro map_cong) auto
  also have "\<dots> = ws"
    by (simp add: map_Suc_upt [symmetric] comp_def map_nth del: upt_Suc)
  finally have tl: "map (i64_at ?d) [1..<Suc (length ws)] = ws" .
  have ne: "?d \<noteq> []" and ge: "\<not> length ?d < 8" and n: "length ?d div 8 = Suc (length ws)"
    using l by (simp_all del: concat.simps list.map)
  show ?thesis
    unfolding delta_decode_def Let_def n tl at [OF zero_less_Suc] using ne ge by auto
qed

section \<open>Bit packing\<close>

text \<open>\<open>u32::BITS - x.leading_zeros()\<close>: the number of significant bits.\<close>

fun bit_len :: "nat \<Rightarrow> nat" where
  "bit_len n = (if n = 0 then 0 else Suc (bit_len (n div 2)))"

declare bit_len.simps [simp del]

text \<open>The inner \<open>while bits_used >= 8\<close> loop of the encoder: it emits the low bytes of
  the accumulator.\<close>

function bitpack_drain :: "u64 \<Rightarrow> nat \<Rightarrow> bytes \<times> u64 \<times> nat" where
  "bitpack_drain bits bits_used =
     (if 8 \<le> bits_used
      then (case bitpack_drain (drop_bit 8 bits) (bits_used - 8) of
              (out, bits', used') \<Rightarrow> (ucast bits # out, bits', used'))
      else ([], bits, bits_used))"
  by pat_completeness auto
termination
  by (relation "measure (\<lambda>(bits, used). used)") auto

declare bitpack_drain.simps [simp del]

fun bitpack_loop :: "nat \<Rightarrow> u64 \<Rightarrow> nat \<Rightarrow> u32 list \<Rightarrow> bytes" where
  "bitpack_loop bit_width bits bits_used [] = (if 0 < bits_used then [ucast bits] else [])"
| "bitpack_loop bit_width bits bits_used (v # vs) =
     (case bitpack_drain (bits OR push_bit bits_used (ucast v)) (bits_used + bit_width) of
        (out, bits', used') \<Rightarrow> out @ bitpack_loop bit_width bits' used' vs)"

definition bitpack_width :: "u32 list \<Rightarrow> nat" where
  "bitpack_width values =
     (let max_val = (case iter_max values of None \<Rightarrow> 0 | Some m \<Rightarrow> m)
      in if max_val = 0 then 1 else bit_len (unat max_val))"

definition bitpack_encode :: "u32 list \<Rightarrow> bytes" where
  "bitpack_encode values =
     (if values = [] then []
      else (let bit_width = bitpack_width values
            in of_nat bit_width # to_le 4 (of_nat (length values) :: u32)
               @ bitpack_loop bit_width 0 0 values))"

text \<open>The decoder trusts the width byte of its input, so shift distances are taken
  modulo 64 and the \<open>u8\<close> counter of available bits modulo 256, as the release
  build does.\<close>

function bitpack_fill :: "nat \<Rightarrow> u64 \<Rightarrow> nat \<Rightarrow> bytes \<Rightarrow> u64 \<times> nat \<times> bytes" where
  "bitpack_fill bit_width bits bits_avail payload =
     (if bits_avail < bit_width \<and> payload \<noteq> []
      then bitpack_fill bit_width
             (bits OR push_bit (bits_avail mod 64) (ucast (hd payload)))
             ((bits_avail + 8) mod 256) (tl payload)
      else (bits, bits_avail, payload))"
  by pat_completeness auto
termination
  by (relation "measure (\<lambda>(w, bits, avail, payload). length payload)") auto

declare bitpack_fill.simps [simp del]

fun bitpack_unpack :: "nat \<Rightarrow> u64 \<Rightarrow> nat \<Rightarrow> u64 \<Rightarrow> nat \<Rightarrow> bytes \<Rightarrow> u32 list" where
  "bitpack_unpack bit_width msk 0 bits bits_avail payload = []"
| "bitpack_unpack bit_width msk (Suc n) bits bits_avail payload =
     (case bitpack_fill bit_width bits bits_avail payload of
        (bits', avail', payload') \<Rightarrow>
          ucast (bits' AND msk)
          # bitpack_unpack bit_width msk n (drop_bit (bit_width mod 64) bits')
              (avail' - bit_width) payload')"

definition bitpack_decode :: "bytes \<Rightarrow> u32 list" where
  "bitpack_decode data =
     (if length data < 5 then []
      else (let bit_width = unat (data ! 0);
                n = unat (from_le (take 4 (drop 1 data)) :: u32);
                msk = (if bit_width = 32 then 0xFFFFFFFF else push_bit (bit_width mod 64) 1 - 1)
            in bitpack_unpack bit_width msk n 0 0 (drop 5 data)))"

subsection \<open>The packed stream as a list of bits\<close>

definition bits_of :: "nat \<Rightarrow> 'a::len word \<Rightarrow> bool list" where
  "bits_of n w = map (bit w) [0..<n]"

definition byte_bits :: "bytes \<Rightarrow> bool list" where
  "byte_bits bs = concat (map (bits_of 8) bs)"

definition below :: "nat \<Rightarrow> 'a::len word \<Rightarrow> bool" where
  "below n w \<longleftrightarrow> (\<forall>i. bit w i \<longrightarrow> i < n)"

lemma length_bits_of [simp]: "length (bits_of n w) = n"
  by (simp add: bits_of_def)

lemma bits_of_0 [simp]: "bits_of 0 w = []"
  by (simp add: bits_of_def)

lemma byte_bits_simps [simp]:
  "byte_bits [] = []" "byte_bits (b # bs) = bits_of 8 b @ byte_bits bs"
  "byte_bits (bs @ cs) = byte_bits bs @ byte_bits cs"
  by (simp_all add: byte_bits_def)

lemma bits_of_split: "bits_of (m + n) w = bits_of m w @ bits_of n (drop_bit m w)"
  by (rule nth_equalityI) (auto simp: bits_of_def nth_append bit_drop_bit_eq)

lemma bits_of_ucast:
  "n \<le> LENGTH('b) \<Longrightarrow> bits_of n (ucast (w :: 'a::len word) :: 'b::len word) = bits_of n w"
  by (rule nth_equalityI) (auto simp: bits_of_def bit_ucast_iff)

lemma bits_of_or_push:
  fixes bits :: u64
  assumes "below m bits" "m + n \<le> 64"
  shows "bits_of (m + n) (bits OR push_bit m v) = bits_of m bits @ bits_of n v"
proof (rule nth_equalityI)
  fix i assume "i < length (bits_of (m + n) (bits OR push_bit m v))"
  with assms show "bits_of (m + n) (bits OR push_bit m v) ! i =
      (bits_of m bits @ bits_of n v) ! i"
    by (auto simp: bits_of_def nth_append bit_or_iff bit_push_bit_iff below_def)
qed simp

lemma bits_of_pad:
  assumes "below m w" "m \<le> n"
  shows "bits_of n w = bits_of m w @ replicate (n - m) False"
  using assms
  by (intro nth_equalityI) (auto simp: bits_of_def nth_append below_def)

lemma below_or_push:
  fixes bits :: u64
  assumes "below m bits" "below n v"
  shows "below (m + n) (bits OR push_bit m v)"
  using assms by (fastforce simp: below_def bit_or_iff bit_push_bit_iff)

lemma below_drop: "below m w \<Longrightarrow> below (m - k) (drop_bit k w)"
  by (fastforce simp: below_def bit_drop_bit_eq)

lemma below_ucast: "below n w \<Longrightarrow> below n (ucast w)"
  by (auto simp: below_def bit_ucast_iff)

lemma below_byte: "below 8 (b :: byte)"
  by (auto simp: below_def dest: bit_imp_le_length)

lemma bits_of_inj:
  assumes "bits_of n v = bits_of n w" "below n v" "below n w"
  shows "v = w"
proof (rule bit_eqI)
  fix i
  show "bit v i \<longleftrightarrow> bit w i"
  proof (cases "i < n")
    case True
    then show ?thesis using assms(1) by (metis bits_of_def length_bits_of nth_map
        length_upt minus_nat.diff_0 nth_upt plus_nat.add_0)
  next
    case False
    then show ?thesis using assms(2,3) by (auto simp: below_def)
  qed
qed

lemma bitpack_drain_bits:
  assumes "bitpack_drain bits used = (out, bits', used')" "below used bits"
  shows "byte_bits out @ bits_of used' bits' = bits_of used bits \<and> used' < 8 \<and> below used' bits'"
  using assms
proof (induction bits used arbitrary: out bits' used' rule: bitpack_drain.induct)
  case (1 bits used)
  show ?case
  proof (cases "8 \<le> used")
    case True
    then obtain o1 b1 u1 where r: "bitpack_drain (drop_bit 8 bits) (used - 8) = (o1, b1, u1)"
      using prod_cases3 by blast
    with True "1.prems"(1) have eqs: "out = ucast bits # o1" "bits' = b1" "used' = u1"
      by (simp_all add: bitpack_drain.simps [of bits used])
    from "1.IH" [OF True r] "1.prems"(2)
    have ih: "byte_bits o1 @ bits_of u1 b1 = bits_of (used - 8) (drop_bit 8 bits)"
        "u1 < 8" "below u1 b1"
      by (simp_all add: below_drop)
    have "bits_of used bits = bits_of 8 bits @ bits_of (used - 8) (drop_bit 8 bits)"
      using bits_of_split [of 8 "used - 8" bits] True by simp
    with ih eqs show ?thesis by (simp add: bits_of_ucast)
  next
    case False
    with "1.prems" show ?thesis by (auto simp: bitpack_drain.simps [of bits used])
  qed
qed

lemma bitpack_loop_bits:
  assumes "used < 8" "below used bits" "w \<le> 32" "\<forall>v \<in> set vs. below w v"
  shows "\<exists>pad. byte_bits (bitpack_loop w bits used vs) =
           bits_of used bits @ concat (map (bits_of w) vs) @ replicate pad False"
  using assms
proof (induction vs arbitrary: bits used)
  case Nil
  show ?case
  proof (cases "0 < used")
    case True
    with Nil.prems bits_of_pad [of used bits 8] show ?thesis
      by (auto simp: bits_of_ucast)
  next
    case False
    then show ?thesis by (auto intro: exI [of _ 0])
  qed
next
  case (Cons v vs)
  let ?b = "bits OR push_bit used (ucast v)"
  obtain out b' u' where d: "bitpack_drain ?b (used + w) = (out, b', u')"
    using prod_cases3 by blast
  have "below (used + w) ?b"
    using Cons.prems by (intro below_or_push below_ucast) simp_all
  from bitpack_drain_bits [OF d this]
  have r: "byte_bits out @ bits_of u' b' = bits_of (used + w) ?b" "u' < 8" "below u' b'"
    by simp_all
  have "bits_of (used + w) ?b = bits_of used bits @ bits_of w (ucast v :: u64)"
    using Cons.prems by (intro bits_of_or_push) simp_all
  also have "bits_of w (ucast v :: u64) = bits_of w v"
    using Cons.prems by (intro bits_of_ucast) simp
  finally have s: "byte_bits out @ bits_of u' b' = bits_of used bits @ bits_of w v"
    using r by simp
  obtain pad where "byte_bits (bitpack_loop w b' u' vs) =
      bits_of u' b' @ concat (map (bits_of w) vs) @ replicate pad False"
    using Cons.IH [OF r(2,3)] Cons.prems by auto
  with s d show ?case by (auto simp flip: append_assoc)
qed

lemma bitpack_fill_bits:
  assumes "bitpack_fill w bits avail payload = (bits', avail', payload')"
    and "below avail bits" "avail < w + 8" "w \<le> 32"
  shows "bits_of avail' bits' @ byte_bits payload' = bits_of avail bits @ byte_bits payload \<and>
     below avail' bits' \<and> avail' < w + 8 \<and> (w \<le> avail' \<or> payload' = [])"
  using assms
proof (induction w bits avail payload arbitrary: bits' avail' payload' rule: bitpack_fill.induct)
  case (1 w bits avail payload)
  show ?case
  proof (cases "avail < w \<and> payload \<noteq> []")
    case True
    then obtain b bs where p: "payload = b # bs" by (cases payload) auto
    let ?b = "bits OR push_bit avail (ucast b)"
    from True "1.prems"(4) have m: "avail mod 64 = avail" "(avail + 8) mod 256 = avail + 8"
      by simp_all
    have bel: "below (avail + 8) ?b"
      using "1.prems"(2) by (intro below_or_push below_ucast below_byte)
    from True p "1.prems"(1) m have r: "bitpack_fill w ?b (avail + 8) bs = (bits', avail', payload')"
      by (simp add: bitpack_fill.simps [of w bits avail "b # bs"])
    have "bits_of (avail + 8) ?b = bits_of avail bits @ bits_of 8 (ucast b :: u64)"
      using True "1.prems" by (intro bits_of_or_push) simp_all
    also have "bits_of 8 (ucast b :: u64) = bits_of 8 b" by (intro bits_of_ucast) simp
    finally have s: "bits_of (avail + 8) ?b = bits_of avail bits @ bits_of 8 b" .
    from "1.IH" [OF True, unfolded p list.sel m, OF r bel] True "1.prems"(4) s p
    show ?thesis by simp
  next
    case False
    with "1.prems" show ?thesis by (auto simp: bitpack_fill.simps [of w bits avail payload])
  qed
qed

lemma take_low_bits:
  fixes b :: u64 and v :: u32
  assumes "bits_of w b = bits_of w v" "below w v" "w \<le> 32"
  shows "ucast (b AND mask w) = v"
proof (rule bits_of_inj)
  show "bits_of w (ucast (b AND mask w) :: u32) = bits_of w v"
    unfolding assms(1) [symmetric] using assms(3)
    by (intro nth_equalityI) (auto simp: bits_of_def bit_ucast_iff bit_and_iff bit_mask_iff)
  show "below w (ucast (b AND mask w) :: u32)"
    by (auto simp: below_def bit_ucast_iff bit_and_iff bit_mask_iff)
qed (rule assms(2))

lemma bitpack_unpack_bits:
  assumes "bits_of avail bits @ byte_bits payload = concat (map (bits_of w) vs) @ rest"
    and "below avail bits" "avail < 8" "0 < w" "w \<le> 32" "\<forall>v \<in> set vs. below w v"
  shows "bitpack_unpack w (mask w) (length vs) bits avail payload = vs"
  using assms
proof (induction vs arbitrary: bits avail payload)
  case Nil
  then show ?case by simp
next
  case (Cons v vs)
  obtain b a p where f: "bitpack_fill w bits avail payload = (b, a, p)"
    using prod_cases3 by blast
  from bitpack_fill_bits [OF f Cons.prems(2)] Cons.prems(3-5)
  have r: "bits_of a b @ byte_bits p = bits_of avail bits @ byte_bits payload"
      "below a b" "a < w + 8" "w \<le> a \<or> p = []"
    by auto
  from r(1) Cons.prems(1)
  have s: "bits_of a b @ byte_bits p = bits_of w v @ concat (map (bits_of w) vs) @ rest" by simp
  have wa: "w \<le> a"
  proof (rule ccontr)
    assume "\<not> w \<le> a"
    with r(4) have "p = []" by simp
    with s have "a = w + length (concat (map (bits_of w) vs) @ rest)"
      by (metis append_Nil2 byte_bits_simps(1) length_append length_bits_of)
    with \<open>\<not> w \<le> a\<close> show False by simp
  qed
  have "bits_of a b = bits_of w b @ bits_of (a - w) (drop_bit w b)"
    using bits_of_split [of w "a - w" b] wa by simp
  with s have t: "bits_of w b @ (bits_of (a - w) (drop_bit w b) @ byte_bits p) =
      bits_of w v @ (concat (map (bits_of w) vs) @ rest)" by simp
  then have hd: "bits_of w b = bits_of w v"
    and tl: "bits_of (a - w) (drop_bit w b) @ byte_bits p = concat (map (bits_of w) vs) @ rest"
    using append_eq_append_conv [of "bits_of w b" "bits_of w v"] by auto
  have v: "ucast (b AND mask w) = v"
    using hd Cons.prems(5,6) by (intro take_low_bits) simp_all
  have "bitpack_unpack w (mask w) (length vs) (drop_bit w b) (a - w) p = vs"
    using r(2,3) Cons.prems wa by (intro Cons.IH [OF tl]) (auto intro: below_drop)
  with f v Cons.prems(5) show ?case by simp
qed

lemma unat_lt_bit_len: "n < 2 ^ bit_len n"
proof (induction n rule: bit_len.induct)
  case (1 n)
  show ?case
  proof (cases "n = 0")
    case True
    then show ?thesis by (simp add: bit_len.simps)
  next
    case False
    with "1" have "n div 2 < 2 ^ bit_len (n div 2)" by simp
    with False show ?thesis by (simp add: bit_len.simps [of n])
  qed
qed

lemma bit_len_le: "n < 2 ^ k \<Longrightarrow> bit_len n \<le> k"
proof (induction n arbitrary: k rule: bit_len.induct)
  case (1 n)
  show ?case
  proof (cases "n = 0")
    case True
    then show ?thesis by (simp add: bit_len.simps)
  next
    case False
    with "1.prems" obtain j where k: "k = Suc j" by (cases k) auto
    with "1.prems" have "n div 2 < 2 ^ j" by auto
    with "1.IH" False k show ?thesis by (simp add: bit_len.simps [of n])
  qed
qed

lemma below_unat: "unat w < 2 ^ n \<Longrightarrow> below n w"
  unfolding below_def
proof (intro allI impI)
  fix i assume lt: "unat w < 2 ^ n" and b: "bit w i"
  then have "bit (unat w) i" by (simp add: bit_unsigned_iff)
  then have "2 ^ i \<le> unat w"
    by (metis bit_iff_odd div_less even_zero not_less)
  with lt have "(2::nat) ^ i < 2 ^ n" by linarith
  then show "i < n" by simp
qed

lemma bitpack_width_bounds:
  assumes "values \<noteq> []"
  shows "0 < bitpack_width values" "bitpack_width values \<le> 32"
    "\<forall>v \<in> set values. below (bitpack_width values) v"
proof -
  from assms obtain m where m: "iter_max values = Some m" by (cases "iter_max values") auto
  from iter_max_Some [OF m] have ub: "\<forall>v \<in> set values. v \<le> m" by simp
  have lt: "unat m < 2 ^ 32" using unsigned_less [of m] by simp
  show "0 < bitpack_width values"
    using m by (auto simp: bitpack_width_def bit_len.simps [of "unat m"] unat_eq_zero)
  show "bitpack_width values \<le> 32"
    using m bit_len_le [OF lt] by (simp add: bitpack_width_def)
  have "unat m < 2 ^ bitpack_width values"
    using m unat_lt_bit_len by (simp add: bitpack_width_def)
  then have "below (bitpack_width values) v" if "v \<in> set values" for v
    using ub that by (intro below_unat) (meson le_less_trans word_le_nat_alt)
  then show "\<forall>v \<in> set values. below (bitpack_width values) v" by blast
qed

lemma bitpack_mask:
  "w \<le> 32 \<Longrightarrow> (if w = 32 then 0xFFFFFFFF else push_bit (w mod 64) 1 - 1 :: u64) = mask w"
  by (auto simp: mask_eq_decr_exp push_bit_of_1)

lemma bitpack_decode_encode:
  assumes "fits_u32 values"
  shows "bitpack_decode (bitpack_encode values) = values"
proof (cases "values = []")
  case True
  then show ?thesis by (simp add: bitpack_encode_def bitpack_decode_def)
next
  case False
  let ?w = "bitpack_width values"
  let ?p = "bitpack_loop ?w 0 0 values"
  note w = bitpack_width_bounds [OF False]
  have b0: "below 0 (0 :: u64)" by (simp add: below_def)
  have enc: "bitpack_encode values =
      of_nat ?w # to_le 4 (of_nat (length values) :: u32) @ ?p"
    using False by (simp add: bitpack_encode_def Let_def)
  have wb: "unat (of_nat ?w :: byte) = ?w" using w(2) by (simp add: unat_of_nat)
  have n: "unat (from_le (take 4 (to_le 4 (of_nat (length values) :: u32) @ ?p)) :: u32) =
      length values"
    using fits_u32_unat [OF assms] by (simp add: le_u32)
  obtain pad where "byte_bits ?p = bits_of 0 (0 :: u64) @ concat (map (bits_of ?w) values) @
      replicate pad False"
    using bitpack_loop_bits [OF _ b0 w(2,3)] by auto
  then have st: "bits_of 0 (0 :: u64) @ byte_bits ?p =
      concat (map (bits_of ?w) values) @ replicate pad False" by simp
  have "bitpack_decode (bitpack_encode values) =
      bitpack_unpack ?w (mask ?w) (length values) 0 0 ?p"
    unfolding enc bitpack_decode_def Let_def nth_Cons_0 wb bitpack_mask [OF w(2)]
    using n by simp
  also have "\<dots> = values"
    using bitpack_unpack_bits [OF st b0 _ w] by simp
  finally show ?thesis .
qed

section \<open>Plain encoding\<close>

definition plain_encode :: "bytes list \<Rightarrow> bytes" where
  "plain_encode values =
     to_le 4 (of_nat (length values) :: u32) @ concat (map put_len_bytes values)"

definition plain_decode :: "bytes \<Rightarrow> bytes list" where
  "plain_decode data =
     (case read_u32 data of
        None \<Rightarrow> []
      | Some (n, rest) \<Rightarrow> parse_upto get_len_bytes (unat n) rest)"

section \<open>Choice of the encoding\<close>

definition select_encoding :: "nat \<Rightarrow> nat \<Rightarrow> bool \<Rightarrow> encoding" where
  "select_encoding ndv total_rows is_monotonic =
     (if is_monotonic then Delta
      else if 0 < ndv \<and> 2 \<le> total_rows div ndv \<and> ndv < 1000 then Dictionary
      else Plain)"

section \<open>The encodings implement the interface\<close>

lemma dict_decode_encode:
  assumes "fits_u32 vs" "list_all fits_u32 vs"
  shows "(case dict_encode vs of (d, c) \<Rightarrow> dict_decode d c) = Some vs"
proof -
  have "dict_inv (fold (\<lambda>v e. dict_push e v) vs dict_new) ([] @ vs)"
    using assms(1) by (intro dict_inv_pushes dict_inv_new) (simp add: fits_u32_def)
  from dict_decode_finish [OF this [simplified] assms] show ?thesis
    by (simp add: dict_encode_def case_prod_unfold)
qed

lemma delta_decode_encode: "delta_decode (delta_encode vs) = Some vs"
proof (cases vs)
  case Nil
  then show ?thesis by (simp add: delta_encode_def delta_decode_def)
next
  case (Cons v ws)
  then show ?thesis
    by (simp only: delta_encode_words delta_decode_words running_sum_deltas)
qed

lemma plain_decode_encode:
  assumes "fits_u32 vs" "list_all fits_u32 vs"
  shows "plain_decode (plain_encode vs) = vs"
  using len_bytes.parse_upto_enc [OF assms(2), of "[]"]
  by (simp add: plain_decode_def plain_encode_def read_u32_append fits_u32_unat [OF assms(1)])

interpretation dict_col: column_codec dict_encode "\<lambda>(d, c). dict_decode d c"
    "\<lambda>vs. fits_u32 vs \<and> list_all fits_u32 vs"
  by unfold_locales (auto dest: dict_decode_encode)

interpretation delta_col: column_codec delta_encode delta_decode "\<lambda>_. True"
  by unfold_locales (rule delta_decode_encode)

interpretation bitpack_col: column_codec bitpack_encode "\<lambda>d. Some (bitpack_decode d)" fits_u32
  by unfold_locales (simp add: bitpack_decode_encode)

interpretation plain_col: column_codec plain_encode "\<lambda>d. Some (plain_decode d)"
    "\<lambda>vs. fits_u32 vs \<and> list_all fits_u32 vs"
  by unfold_locales (simp add: plain_decode_encode)

section \<open>Properties\<close>

text \<open>C36. Dictionary encoding is lossless: pushing any column of fewer than \<open>2^32\<close>
  values, each shorter than \<open>2^32\<close> bytes, and decoding the two buffers that
  \<open>finish\<close> produces returns the column, without an out-of-range access in the
  decoder.\<close>

theorem dict_roundtrip:
  assumes "length vs < 2 ^ 32" and "list_all (\<lambda>v. length v < 2 ^ 32) vs"
  shows "dict_decode (fst (dict_encode vs)) (snd (dict_encode vs)) = Some vs"
  using dict_col.decode_encode [of vs] assms
  by (simp add: fits_u32_def list_all_iff case_prod_unfold)

theorem dict_roundtrip_witness:
  "dict_decode (fst (dict_encode [[1, 2], [3], [1, 2]])) (snd (dict_encode [[1, 2], [3], [1, 2]])) =
     Some [[1, 2], [3], [1, 2]] \<and> length (enc_dict (fold (\<lambda>v e. dict_push e v) [[1, 2], [3], [1, 2]] dict_new)) = 2"
  using dict_roundtrip [of "[[1, 2], [3], [1, 2]]"]
  by (auto simp: dict_push_def dict_new_def)

text \<open>C37. Delta encoding is lossless for every sequence of 64-bit integers, monotone
  or not: the differences wrap and the running sum wraps back.\<close>

theorem delta_roundtrip: "delta_decode (delta_encode vs) = Some vs"
  by (rule delta_decode_encode)

text \<open>Bit packing is lossless: for a column of fewer than \<open>2^32\<close> unsigned 32-bit
  values the decoder recovers every value from the packed bits, whatever the width
  the encoder chose and however values straddle byte boundaries.\<close>

lemma bitpack_roundtrip:
  assumes "length values < 2 ^ 32"
  shows "bitpack_decode (bitpack_encode values) = values"
  using assms by (intro bitpack_decode_encode) (simp add: fits_u32_def)

text \<open>A plain column cut at any byte decodes to exactly the values whose bytes
  survived: a prefix of the column, never a wrong or partial value. An uncut column
  decodes to itself.\<close>

lemma plain_decode_cut:
  assumes "length vs < 2 ^ 32" and "list_all (\<lambda>v. length v < 2 ^ 32) vs" and "4 \<le> k"
  shows "\<exists>j \<le> length vs. plain_decode (take k (plain_encode vs)) = take j vs \<and>
     length (plain_encode (take j vs)) \<le> k \<and>
     (j < length vs \<longrightarrow> k < length (plain_encode (take (Suc j) vs)))"
proof -
  from assms have ok: "list_all fits_u32 vs" and n: "fits_u32 vs"
    by (simp_all add: fits_u32_def list_all_iff)
  have t: "take k (plain_encode vs) =
      to_le 4 (of_nat (length vs) :: u32) @ take (k - 4) (concat (map put_len_bytes vs))"
    using assms(3) by (simp add: plain_encode_def)
  have d: "plain_decode (take k (plain_encode vs)) =
      parse_upto get_len_bytes (length vs) (take (k - 4) (concat (map put_len_bytes vs)))"
    unfolding t plain_decode_def read_u32_append by (simp add: fits_u32_unat [OF n])
  from len_bytes.parse_upto_cut [OF ok, of "k - 4"] assms(3) show ?thesis
    unfolding d by (fastforce simp: plain_encode_def)
qed

end
