(* ===== verification/Memtable.thy ===== *)
theory Memtable
  imports Prelude
begin

text \<open>
  The in-memory table of a partition (\<open>storage-node/src/lsm/memtable.rs\<close>) and the
  sort keys of \<open>shared/src/types.rs\<close>. The crossbeam skip list is third-party code: its
  operations are an argument, with its documented behaviour as the hypothesis
  \<open>skip_map_ok\<close>. The shared atomic sequence counter is passed explicitly.
\<close>

section \<open>Sort keys and their order\<close>

datatype sort_key_component = SortKeyComponent (skc_column: string) (skc_encoded: bytes)

datatype sort_key = SortKey (sk_values: "sort_key_component list")

datatype mem_key = MemKey (mk_sort_key: sort_key) (mk_seq: u64)

text \<open>The derived orders of the source are lexicographic in the fields.\<close>

instantiation sort_key_component :: linorder
begin

definition less_eq_sort_key_component :: "sort_key_component \<Rightarrow> sort_key_component \<Rightarrow> bool" where
  "less_eq_sort_key_component a b \<longleftrightarrow> (skc_column a, skc_encoded a) \<le> (skc_column b, skc_encoded b)"

definition less_sort_key_component :: "sort_key_component \<Rightarrow> sort_key_component \<Rightarrow> bool" where
  "less_sort_key_component a b \<longleftrightarrow> (skc_column a, skc_encoded a) < (skc_column b, skc_encoded b)"

instance
  by standard
    (auto simp: less_eq_sort_key_component_def less_sort_key_component_def
      less_le_not_le sort_key_component.expand)

end

instantiation sort_key :: linorder
begin

definition less_eq_sort_key :: "sort_key \<Rightarrow> sort_key \<Rightarrow> bool" where
  "less_eq_sort_key a b \<longleftrightarrow> sk_values a \<le> sk_values b"

definition less_sort_key :: "sort_key \<Rightarrow> sort_key \<Rightarrow> bool" where
  "less_sort_key a b \<longleftrightarrow> sk_values a < sk_values b"

instance
  by standard (auto simp: less_eq_sort_key_def less_sort_key_def sort_key.expand)

end

instantiation mem_key :: linorder
begin

definition less_eq_mem_key :: "mem_key \<Rightarrow> mem_key \<Rightarrow> bool" where
  "less_eq_mem_key a b \<longleftrightarrow> (mk_sort_key a, mk_seq a) \<le> (mk_sort_key b, mk_seq b)"

definition less_mem_key :: "mem_key \<Rightarrow> mem_key \<Rightarrow> bool" where
  "less_mem_key a b \<longleftrightarrow> (mk_sort_key a, mk_seq a) < (mk_sort_key b, mk_seq b)"

instance
  by standard (auto simp: less_eq_mem_key_def less_mem_key_def less_le_not_le mem_key.expand)

end

section \<open>The skip list\<close>

record ('k, 'v, 'm) skip_map =
  sm_new :: 'm
  sm_insert :: "'m \<Rightarrow> 'k \<Rightarrow> 'v \<Rightarrow> 'm"
  sm_iter :: "'m \<Rightarrow> ('k \<times> 'v) list"
  sm_len :: "'m \<Rightarrow> nat"

text \<open>Insertion into a list sorted by key, replacing an entry with the same key.\<close>

fun put_sorted :: "'k::linorder \<Rightarrow> 'v \<Rightarrow> ('k \<times> 'v) list \<Rightarrow> ('k \<times> 'v) list" where
  "put_sorted k v [] = [(k, v)]"
| "put_sorted k v ((k', v') # xs) =
     (if k < k' then (k, v) # (k', v') # xs
      else if k = k' then (k, v) # xs
      else (k', v') # put_sorted k v xs)"

definition skip_map_ok :: "('k::linorder, 'v, 'm) skip_map \<Rightarrow> bool" where
  "skip_map_ok sm \<longleftrightarrow>
     sm_iter sm (sm_new sm) = [] \<and>
     (\<forall>m k v. sm_iter sm (sm_insert sm m k v) = put_sorted k v (sm_iter sm m)) \<and>
     (\<forall>m. sm_len sm m = length (sm_iter sm m))"

lemma skip_map_laws:
  assumes "skip_map_ok sm"
  shows sm_iter_new: "sm_iter sm (sm_new sm) = []"
    and sm_iter_insert: "sm_iter sm (sm_insert sm m k v) = put_sorted k v (sm_iter sm m)"
    and sm_len_iter: "sm_len sm m = length (sm_iter sm m)"
  using assms by (simp_all add: skip_map_ok_def)

lemma set_put_sorted_keys: "fst ` set (put_sorted k v xs) = insert k (fst ` set xs)"
  by (induction k v xs rule: put_sorted.induct) auto

lemma strict_sorted_put:
  "sorted_wrt (<) (map fst xs) \<Longrightarrow> sorted_wrt (<) (map fst (put_sorted k v xs))"
proof (induction k v xs rule: put_sorted.induct)
  case (1 k v)
  then show ?case by simp
next
  case (2 k v k' v' xs)
  have "\<forall>y \<in> fst ` set (put_sorted k v xs). k' < y" if "k' < k"
    unfolding set_put_sorted_keys using that 2(2) by auto
  with 2 show ?case by fastforce
qed

lemma mset_put_sorted:
  "k \<notin> fst ` set xs \<Longrightarrow> mset (put_sorted k v xs) = add_mset (k, v) (mset xs)"
  by (induction k v xs rule: put_sorted.induct) auto

lemma length_put_sorted:
  "k \<notin> fst ` set xs \<Longrightarrow> length (put_sorted k v xs) = Suc (length xs)"
  by (metis mset_put_sorted size_add_mset size_mset)

text \<open>A sorted association list satisfies the hypothesis.\<close>

definition alist_skip_map :: "('k::linorder, 'v, ('k \<times> 'v) list) skip_map" where
  "alist_skip_map =
     \<lparr>sm_new = [], sm_insert = (\<lambda>m k v. put_sorted k v m), sm_iter = (\<lambda>m. m), sm_len = length\<rparr>"

lemma alist_skip_map_ok: "skip_map_ok alist_skip_map"
  by (simp add: skip_map_ok_def alist_skip_map_def)

section \<open>Rows and tables\<close>

record mem_row =
  mr_columns :: "(string \<times> bytes) list"
  mr_tx_id :: u64
  mr_deleted :: bool

type_synonym 'm row_map = "(mem_key, mem_row, 'm) skip_map"

record immutable_memtable =
  imm_entries :: "(mem_key \<times> mem_row) list"
  imm_size_bytes :: nat

record 'm memtable =
  mt_map :: 'm
  mt_size_bytes :: nat
  mt_threshold :: nat

definition memtable_new :: "'m row_map \<Rightarrow> nat \<Rightarrow> 'm memtable" where
  "memtable_new sm threshold = \<lparr>mt_map = sm_new sm, mt_size_bytes = 0, mt_threshold = threshold\<rparr>"

definition estimate_row_size :: "(string \<times> bytes) list \<Rightarrow> nat" where
  "estimate_row_size columns =
     foldl (\<lambda>size (name, val). size + (length name + length val + 16)) 64 columns"

definition memtable_insert ::
  "'m row_map \<Rightarrow> u64 \<Rightarrow> 'm memtable \<Rightarrow> sort_key \<Rightarrow> (string \<times> bytes) list \<Rightarrow> u64 \<Rightarrow>
   u64 \<times> 'm memtable \<times> bool" where
  "memtable_insert sm seq_gen mt skey columns tx =
     (let seq = seq_gen;
          row_size = estimate_row_size columns;
          key = MemKey skey seq;
          row = \<lparr>mr_columns = columns, mr_tx_id = tx, mr_deleted = False\<rparr>;
          total_size = mt_size_bytes mt + row_size
      in (seq_gen + 1,
          mt\<lparr>mt_map := sm_insert sm (mt_map mt) key row, mt_size_bytes := total_size\<rparr>,
          mt_threshold mt \<le> total_size))"

definition memtable_delete ::
  "'m row_map \<Rightarrow> u64 \<Rightarrow> 'm memtable \<Rightarrow> sort_key \<Rightarrow> u64 \<Rightarrow> u64 \<times> 'm memtable \<times> bool" where
  "memtable_delete sm seq_gen mt skey tx =
     (let key = MemKey skey seq_gen;
          row = \<lparr>mr_columns = [], mr_tx_id = tx, mr_deleted = True\<rparr>;
          total_size = mt_size_bytes mt + 64
      in (seq_gen + 1,
          mt\<lparr>mt_map := sm_insert sm (mt_map mt) key row, mt_size_bytes := total_size\<rparr>,
          mt_threshold mt \<le> total_size))"

definition memtable_row_count :: "'m row_map \<Rightarrow> 'm memtable \<Rightarrow> nat" where
  "memtable_row_count sm mt = sm_len sm (mt_map mt)"

definition memtable_is_full :: "'m memtable \<Rightarrow> bool" where
  "memtable_is_full mt \<longleftrightarrow> mt_threshold mt \<le> mt_size_bytes mt"

definition memtable_reset :: "'m row_map \<Rightarrow> 'm memtable \<Rightarrow> 'm memtable" where
  "memtable_reset sm mt = mt\<lparr>mt_map := sm_new sm, mt_size_bytes := 0\<rparr>"

definition memtable_freeze :: "'m row_map \<Rightarrow> 'm memtable \<Rightarrow> immutable_memtable" where
  "memtable_freeze sm mt =
     \<lparr>imm_entries = map (\<lambda>e. (fst e, snd e)) (sm_iter sm (mt_map mt)),
      imm_size_bytes = mt_size_bytes mt\<rparr>"

definition sort_key_first :: "sort_key \<Rightarrow> bytes" where
  "sort_key_first k = (case sk_values k of [] \<Rightarrow> [] | c # _ \<Rightarrow> skc_encoded c)"

definition memtable_iter_rows :: "'m row_map \<Rightarrow> 'm memtable \<Rightarrow> (bytes \<times> (string \<times> bytes) list) list" where
  "memtable_iter_rows sm mt =
     map (\<lambda>e. (sort_key_first (mk_sort_key (fst e)), mr_columns (snd e)))
       (filter (\<lambda>e. \<not> mr_deleted (snd e)) (sm_iter sm (mt_map mt)))"

definition snapshot_as_immutable :: "'m row_map \<Rightarrow> 'm memtable \<Rightarrow> immutable_memtable" where
  "snapshot_as_immutable sm mt =
     \<lparr>imm_entries = map (\<lambda>e. (fst e, snd e)) (sm_iter sm (mt_map mt)),
      imm_size_bytes = mt_size_bytes mt\<rparr>"

lemma freeze_entries [simp]:
  "imm_entries (memtable_freeze sm mt) = sm_iter sm (mt_map mt)"
  "imm_entries (snapshot_as_immutable sm mt) = sm_iter sm (mt_map mt)"
  by (simp_all add: memtable_freeze_def snapshot_as_immutable_def)

section \<open>The coordinator, one caller at a time\<close>

record 'm memtable_set =
  mts_active :: "'m memtable"
  mts_immutable :: "immutable_memtable list"
  mts_seq_gen :: u64
  mts_threshold :: nat

definition memtable_set_new :: "'m row_map \<Rightarrow> nat \<Rightarrow> 'm memtable_set" where
  "memtable_set_new sm threshold =
     \<lparr>mts_active = memtable_new sm threshold, mts_immutable = [], mts_seq_gen = 0,
      mts_threshold = threshold\<rparr>"

definition try_freeze :: "'m row_map \<Rightarrow> 'm memtable_set \<Rightarrow> 'm memtable_set" where
  "try_freeze sm ms =
     (if \<not> memtable_is_full (mts_active ms) then ms
      else (let old = mts_active ms
            in ms\<lparr>mts_active := memtable_new sm (mts_threshold ms),
                  mts_immutable := mts_immutable ms @ [memtable_freeze sm old]\<rparr>))"

definition memtable_set_insert ::
  "'m row_map \<Rightarrow> 'm memtable_set \<Rightarrow> sort_key \<Rightarrow> (string \<times> bytes) list \<Rightarrow> u64 \<Rightarrow> 'm memtable_set" where
  "memtable_set_insert sm ms skey columns tx =
     (let (sq, mt, full) = memtable_insert sm (mts_seq_gen ms) (mts_active ms) skey columns tx;
          ms = ms\<lparr>mts_active := mt, mts_seq_gen := sq\<rparr>
      in if full then try_freeze sm ms else ms)"

definition pop_immutable :: "'m memtable_set \<Rightarrow> immutable_memtable option \<times> 'm memtable_set" where
  "pop_immutable ms =
     (case mts_immutable ms of
        [] \<Rightarrow> (None, ms)
      | imm # rest \<Rightarrow> (Some imm, ms\<lparr>mts_immutable := rest\<rparr>))"

end
