(* ===== verification/MemtableConc.thy ===== *)
theory MemtableConc
  imports Memtable
begin

text \<open>
  Concurrent writers of one \<open>MemTableSet\<close>. Each atomic operation of \<open>insert\<close> and
  \<open>try_freeze\<close> is one step of one thread: the sequence fetch-and-add, the skip list
  insertion and the size fetch-and-add under the shared read lock; the try-lock of
  the freeze mutex, the second fullness check, the exchange of the active table
  under the write lock, and the push onto the immutable list. Steps of different
  threads interleave in any order.
\<close>

section \<open>Threads and steps\<close>

datatype 'm writer_pc =
    Idle
  | Enter sort_key "(string \<times> bytes) list" u64
  | HasSeq mem_key mem_row
  | Inserted nat
  | WantFreeze
  | Locked
  | Checked
  | Swapped "'m memtable"

fun holds_read :: "'m writer_pc \<Rightarrow> bool" where
  "holds_read (Enter _ _ _) = True"
| "holds_read (HasSeq _ _) = True"
| "holds_read (Inserted _) = True"
| "holds_read _ = False"

fun holds_freeze :: "'m writer_pc \<Rightarrow> bool" where
  "holds_freeze Locked = True"
| "holds_freeze Checked = True"
| "holds_freeze (Swapped _) = True"
| "holds_freeze _ = False"

record 'm writers =
  ws_set :: "'m memtable_set"
  ws_lock :: bool
  ws_threads :: "'m writer_pc list"

datatype event = Tau | Issue mem_key mem_row | Popped immutable_memtable

definition goto :: "nat \<Rightarrow> 'm writer_pc \<Rightarrow> 'm writers \<Rightarrow> 'm writers" where
  "goto i pc s = s\<lparr>ws_threads := (ws_threads s)[i := pc]\<rparr>"

definition on_set :: "('m memtable_set \<Rightarrow> 'm memtable_set) \<Rightarrow> 'm writers \<Rightarrow> 'm writers" where
  "on_set f s = s\<lparr>ws_set := f (ws_set s)\<rparr>"

definition set_lock :: "bool \<Rightarrow> 'm writers \<Rightarrow> 'm writers" where
  "set_lock b s = s\<lparr>ws_lock := b\<rparr>"

definition at :: "'m writers \<Rightarrow> nat \<Rightarrow> 'm writer_pc \<Rightarrow> bool" where
  "at s i pc \<longleftrightarrow> i < length (ws_threads s) \<and> ws_threads s ! i = pc"

text \<open>The three atomic actions of an insertion on the shared state.\<close>

definition act_seq :: "'m memtable_set \<Rightarrow> 'm memtable_set" where
  "act_seq ms = ms\<lparr>mts_seq_gen := mts_seq_gen ms + 1\<rparr>"

definition act_put :: "'m row_map \<Rightarrow> mem_key \<Rightarrow> mem_row \<Rightarrow> 'm memtable_set \<Rightarrow> 'm memtable_set" where
  "act_put sm k r ms =
     ms\<lparr>mts_active := (mts_active ms)\<lparr>mt_map := sm_insert sm (mt_map (mts_active ms)) k r\<rparr>\<rparr>"

definition act_size :: "nat \<Rightarrow> 'm memtable_set \<Rightarrow> 'm memtable_set" where
  "act_size n ms =
     ms\<lparr>mts_active := (mts_active ms)\<lparr>mt_size_bytes := mt_size_bytes (mts_active ms) + n\<rparr>\<rparr>"

definition act_swap :: "'m row_map \<Rightarrow> 'm memtable_set \<Rightarrow> 'm memtable_set" where
  "act_swap sm ms = ms\<lparr>mts_active := memtable_new sm (mts_threshold ms)\<rparr>"

definition act_push :: "immutable_memtable \<Rightarrow> 'm memtable_set \<Rightarrow> 'm memtable_set" where
  "act_push imm ms = ms\<lparr>mts_immutable := mts_immutable ms @ [imm]\<rparr>"

lemmas act_defs = act_seq_def act_put_def act_size_def act_swap_def act_push_def

inductive mts_step :: "'m row_map \<Rightarrow> 'm writers \<Rightarrow> event \<Rightarrow> 'm writers \<Rightarrow> bool" for sm where
  Begin: "at s i Idle \<Longrightarrow> mts_step sm s Tau (goto i (Enter skey cols tx) s)"
| TakeSeq: "at s i (Enter skey cols tx) \<Longrightarrow>
     key = MemKey skey (mts_seq_gen (ws_set s)) \<Longrightarrow>
     row = \<lparr>mr_columns = cols, mr_tx_id = tx, mr_deleted = False\<rparr> \<Longrightarrow>
     mts_step sm s (Issue key row) (goto i (HasSeq key row) (on_set act_seq s))"
| Put: "at s i (HasSeq key row) \<Longrightarrow>
     mts_step sm s Tau
       (goto i (Inserted (estimate_row_size (mr_columns row))) (on_set (act_put sm key row) s))"
| Account: "at s i (Inserted n) \<Longrightarrow> s' = on_set (act_size n) s \<Longrightarrow>
     mts_step sm s Tau
       (goto i (if memtable_is_full (mts_active (ws_set s')) then WantFreeze else Idle) s')"
| LockFail: "at s i WantFreeze \<Longrightarrow> ws_lock s \<Longrightarrow> mts_step sm s Tau (goto i Idle s)"
| LockOk: "at s i WantFreeze \<Longrightarrow> \<not> ws_lock s \<Longrightarrow> mts_step sm s Tau (goto i Locked (set_lock True s))"
| CheckNo: "at s i Locked \<Longrightarrow> \<not> memtable_is_full (mts_active (ws_set s)) \<Longrightarrow>
     mts_step sm s Tau (goto i Idle (set_lock False s))"
| CheckYes: "at s i Locked \<Longrightarrow> memtable_is_full (mts_active (ws_set s)) \<Longrightarrow>
     mts_step sm s Tau (goto i Checked s)"
| Swap: "at s i Checked \<Longrightarrow> list_all (\<lambda>pc. \<not> holds_read pc) (ws_threads s) \<Longrightarrow>
     old = mts_active (ws_set s) \<Longrightarrow>
     mts_step sm s Tau (goto i (Swapped old) (on_set (act_swap sm) s))"
| Push: "at s i (Swapped old) \<Longrightarrow>
     mts_step sm s Tau
       (goto i Idle (set_lock False (on_set (act_push (memtable_freeze sm old)) s)))"
| Pop: "pop_immutable (ws_set s) = (Some imm, ms) \<Longrightarrow>
     mts_step sm s (Popped imm) (s\<lparr>ws_set := ms\<rparr>)"

text \<open>A run records the rows issued, in the order of their sequence numbers, and the
  tables handed to the flusher.\<close>

fun record_event :: "event \<Rightarrow> (mem_key \<times> mem_row) list \<times> immutable_memtable list \<Rightarrow>
    (mem_key \<times> mem_row) list \<times> immutable_memtable list" where
  "record_event Tau h = h"
| "record_event (Issue k r) (ws, ps) = (ws @ [(k, r)], ps)"
| "record_event (Popped imm) (ws, ps) = (ws, ps @ [imm])"

definition writers_init :: "'m row_map \<Rightarrow> nat \<Rightarrow> nat \<Rightarrow> 'm writers" where
  "writers_init sm threshold n =
     \<lparr>ws_set = memtable_set_new sm threshold, ws_lock = False, ws_threads = replicate n Idle\<rparr>"

inductive mts_run :: "'m row_map \<Rightarrow> nat \<Rightarrow> nat \<Rightarrow> 'm writers \<Rightarrow>
    (mem_key \<times> mem_row) list \<times> immutable_memtable list \<Rightarrow> bool" for sm threshold n where
  Init: "mts_run sm threshold n (writers_init sm threshold n) ([], [])"
| Step: "mts_run sm threshold n s h \<Longrightarrow> mts_step sm s ev s' \<Longrightarrow>
     mts_run sm threshold n s' (record_event ev h)"

inductive_cases Step_cases: "mts_step sm s ev s'"

lemma goto_simps [simp]:
  "ws_set (goto i pc s) = ws_set s" "ws_lock (goto i pc s) = ws_lock s"
  "ws_threads (goto i pc s) = (ws_threads s)[i := pc]"
  "ws_set (on_set f s) = f (ws_set s)" "ws_lock (on_set f s) = ws_lock s"
  "ws_threads (on_set f s) = ws_threads s"
  "ws_set (set_lock b s) = ws_set s" "ws_lock (set_lock b s) = b"
  "ws_threads (set_lock b s) = ws_threads s"
  by (simp_all add: goto_def on_set_def set_lock_def)

text \<open>Run without interference, the steps of one insertion are the sequential operation.\<close>

lemma sequential_insert:
  "memtable_set_insert sm ms skey cols tx =
     (let row = \<lparr>mr_columns = cols, mr_tx_id = tx, mr_deleted = False\<rparr>;
          ms' = act_size (estimate_row_size cols)
                  (act_put sm (MemKey skey (mts_seq_gen ms)) row (act_seq ms))
      in if memtable_is_full (mts_active ms')
         then act_push (memtable_freeze sm (mts_active ms')) (act_swap sm ms') else ms')"
  by (simp add: memtable_set_insert_def memtable_insert_def try_freeze_def memtable_is_full_def
      act_defs Let_def memtable_freeze_def)

section \<open>Every issued row is held exactly once\<close>

fun inflight :: "'m row_map \<Rightarrow> 'm writer_pc \<Rightarrow> (mem_key \<times> mem_row) list" where
  "inflight sm (HasSeq k r) = [(k, r)]"
| "inflight sm (Swapped old) = sm_iter sm (mt_map old)"
| "inflight sm _ = []"

definition held :: "'m row_map \<Rightarrow> 'm writers \<Rightarrow> immutable_memtable list \<Rightarrow> (mem_key \<times> mem_row) multiset" where
  "held sm s ps =
     mset (sm_iter sm (mt_map (mts_active (ws_set s)))) +
     mset (concat (map (inflight sm) (ws_threads s))) +
     mset (concat (map imm_entries (mts_immutable (ws_set s)))) +
     mset (concat (map imm_entries ps))"

definition issued_ok :: "'m writers \<Rightarrow> (mem_key \<times> mem_row) list \<Rightarrow> bool" where
  "issued_ok s ws \<longleftrightarrow>
     mts_seq_gen (ws_set s) = of_nat (length ws) \<and>
     map (\<lambda>e. mk_seq (fst e)) ws = map of_nat [0..<length ws]"

lemma mset_concat_update:
  assumes "i < length xs"
  shows "mset (concat (map f (xs[i := y]))) + mset (f (xs ! i)) = mset (concat (map f xs)) + mset (f y)"
  using assms
proof (induction xs arbitrary: i)
  case Nil
  then show ?case by simp
next
  case (Cons x xs)
  show ?case
  proof (cases i)
    case 0
    then show ?thesis by simp
  next
    case (Suc j)
    with Cons.IH [of j] Cons.prems show ?thesis by (simp add: ac_simps)
  qed
qed

lemma mset_inflight_goto:
  assumes "at s i pc"
  shows "mset (concat (map (inflight sm) ((ws_threads s)[i := pc']))) + mset (inflight sm pc) =
    mset (concat (map (inflight sm) (ws_threads s))) + mset (inflight sm pc')"
  using mset_concat_update [of i "ws_threads s" "inflight sm" pc'] assms by (simp add: at_def)

lemma issued_ok_step:
  assumes "mts_step sm s ev s'" "issued_ok s ws"
  shows "issued_ok s' (fst (record_event ev (ws, ps)))"
  using assms(1)
proof cases
  case Pop
  with assms(2) show ?thesis
    by (auto simp: issued_ok_def pop_immutable_def split: list.splits)
qed (use assms(2) in \<open>auto simp: issued_ok_def act_defs\<close>)

lemma issued_distinct:
  assumes "issued_ok s ws" "length ws \<le> 2 ^ 64"
  shows "distinct (map fst ws)"
proof -
  have "inj_on (of_nat :: nat \<Rightarrow> u64) {0..<length ws}"
  proof (rule inj_onI)
    fix a b assume "a \<in> {0..<length ws}" "b \<in> {0..<length ws}" "(of_nat a :: u64) = of_nat b"
    moreover from this assms(2) have "a < 2 ^ LENGTH(64)" "b < 2 ^ LENGTH(64)" by auto
    ultimately show "a = b" by (metis unat_of_nat mod_less)
  qed
  then have "distinct (map (\<lambda>e. mk_seq (fst e)) ws)"
    using assms(1) by (simp add: issued_ok_def distinct_map)
  then have "distinct (map mk_seq (map fst ws))" by (simp add: comp_def)
  then show ?thesis by (simp only: distinct_map [of mk_seq])
qed

lemma put_fresh:
  assumes "at s i (HasSeq k r)" "mset ws = held sm s ps" "distinct (map fst ws)"
  shows "k \<notin> fst ` set (sm_iter sm (mt_map (mts_active (ws_set s))))"
proof
  assume "k \<in> fst ` set (sm_iter sm (mt_map (mts_active (ws_set s))))"
  then have a: "1 \<le> count (image_mset fst (mset (sm_iter sm (mt_map (mts_active (ws_set s)))))) k"
    by (simp add: count_greater_eq_one_iff)
  have "(k, r) \<in> set (concat (map (inflight sm) (ws_threads s)))"
    using assms(1) nth_mem [of i "ws_threads s"] by (force simp: at_def)
  then have b: "1 \<le> count (image_mset fst (mset (concat (map (inflight sm) (ws_threads s))))) k"
    unfolding count_greater_eq_one_iff by (force simp del: set_concat)
  have "count (mset (map fst ws)) k = count (image_mset fst (held sm s ps)) k"
    using assms(2) by (simp only: mset_map)
  with a b have "2 \<le> count (mset (map fst ws)) k"
    unfolding held_def image_mset_union count_union by linarith
  with assms(3) show False
    by (simp add: distinct_count_atmost_1 split: if_splits)
qed

lemma held_step:
  assumes ok: "skip_map_ok sm" and step: "mts_step sm s ev s'"
    and eq: "mset ws = held sm s ps" and dist: "distinct (map fst ws)"
  shows "mset (fst (record_event ev (ws, ps))) = held sm s' (snd (record_event ev (ws, ps)))"
  using step
proof cases
  case (Put i key row)
  note fresh = put_fresh [OF Put(3) eq dist]
  show ?thesis
    using eq mset_inflight_goto [OF Put(3), of sm "Inserted (estimate_row_size (mr_columns row))"]
    by (simp add: Put(1,2) held_def act_defs sm_iter_insert [OF ok] mset_put_sorted [OF fresh])
next
  case (Swap i old)
  show ?thesis
    using eq mset_inflight_goto [OF Swap(3), of sm "Swapped old"]
    by (simp add: Swap(1,2,5) held_def act_defs memtable_new_def sm_iter_new [OF ok] ac_simps)
next
  case (Pop imm ms)
  then show ?thesis
    using eq by (auto simp: held_def pop_immutable_def ac_simps split: list.splits)
next
  case (TakeSeq i skey cols tx key row)
  show ?thesis
    using eq mset_inflight_goto [OF TakeSeq(3), of sm "HasSeq key row"]
    by (simp add: TakeSeq(1,2) held_def act_defs ac_simps)
next
  case (Push i old)
  show ?thesis
    using eq mset_inflight_goto [OF Push(3), of sm Idle]
    by (simp add: Push(1,2) held_def act_defs ac_simps)
next
  case (Account i n s1)
  show ?thesis
    using eq mset_inflight_goto [OF Account(3), of sm WantFreeze]
      mset_inflight_goto [OF Account(3), of sm Idle]
    by (simp add: Account(1,2,4) held_def act_defs)
next
  case (Begin i skey cols tx)
  show ?thesis using eq mset_inflight_goto [OF Begin(3), of sm "Enter skey cols tx"]
    by (simp add: Begin(1,2) held_def)
next
  case (LockFail i)
  show ?thesis using eq mset_inflight_goto [OF LockFail(3), of sm Idle]
    by (simp add: LockFail(1,2) held_def)
next
  case (LockOk i)
  show ?thesis using eq mset_inflight_goto [OF LockOk(3), of sm Locked]
    by (simp add: LockOk(1,2) held_def)
next
  case (CheckNo i)
  show ?thesis using eq mset_inflight_goto [OF CheckNo(3), of sm Idle]
    by (simp add: CheckNo(1,2) held_def)
next
  case (CheckYes i)
  show ?thesis using eq mset_inflight_goto [OF CheckYes(3), of sm Checked]
    by (simp add: CheckYes(1,2) held_def)
qed

lemma record_event_length: "length (fst h) \<le> length (fst (record_event ev h))"
  by (cases h; cases ev) simp_all

lemma run_issued: "mts_run sm threshold n s h \<Longrightarrow> issued_ok s (fst h)"
proof (induction rule: mts_run.induct)
  case Init
  then show ?case by (simp add: issued_ok_def writers_init_def memtable_set_new_def)
next
  case (Step s h ev s')
  then show ?case using issued_ok_step [of sm s ev s' "fst h" "snd h"] by simp
qed

lemma run_held:
  assumes ok: "skip_map_ok sm"
  shows "mts_run sm threshold n s h \<Longrightarrow> length (fst h) \<le> 2 ^ 64 \<Longrightarrow> mset (fst h) = held sm s (snd h)"
proof (induction rule: mts_run.induct)
  case Init
  then show ?case
    by (simp add: held_def writers_init_def memtable_set_new_def memtable_new_def sm_iter_new [OF ok]
        map_replicate_const concat_replicate_trivial)
next
  case (Step s h ev s')
  then have le: "length (fst h) \<le> 2 ^ 64" using record_event_length [of h ev] by linarith
  with Step have "mset (fst h) = held sm s (snd h)" by blast
  from held_step [OF ok Step(2) this issued_distinct [OF run_issued [OF Step(1)] le]]
  show ?case by simp
qed

section \<open>Freezing is exclusive, ordered and only of full tables\<close>

definition lock_ok :: "'m writers \<Rightarrow> bool" where
  "lock_ok s \<longleftrightarrow> length (filter holds_freeze (ws_threads s)) = (if ws_lock s then 1 else 0)"

definition full_ok :: "nat \<Rightarrow> 'm writers \<Rightarrow> immutable_memtable list \<Rightarrow> bool" where
  "full_ok threshold s ps \<longleftrightarrow>
     mts_threshold (ws_set s) = threshold \<and> mt_threshold (mts_active (ws_set s)) = threshold \<and>
     (Checked \<in> set (ws_threads s) \<longrightarrow> threshold \<le> mt_size_bytes (mts_active (ws_set s))) \<and>
     (\<forall>old. Swapped old \<in> set (ws_threads s) \<longrightarrow> threshold \<le> mt_size_bytes old) \<and>
     (\<forall>imm \<in> set (mts_immutable (ws_set s)) \<union> set ps. threshold \<le> imm_size_bytes imm)"

definition sorted_ok :: "'m row_map \<Rightarrow> 'm writers \<Rightarrow> immutable_memtable list \<Rightarrow> bool" where
  "sorted_ok sm s ps \<longleftrightarrow>
     sorted_wrt (<) (map fst (sm_iter sm (mt_map (mts_active (ws_set s))))) \<and>
     (\<forall>old. Swapped old \<in> set (ws_threads s) \<longrightarrow> sorted_wrt (<) (map fst (sm_iter sm (mt_map old)))) \<and>
     (\<forall>imm \<in> set (mts_immutable (ws_set s)) \<union> set ps. sorted_wrt (<) (map fst (imm_entries imm)))"

lemma holders_goto:
  assumes "at s i pc"
  shows "length (filter holds_freeze ((ws_threads s)[i := pc'])) + (if holds_freeze pc then 1 else 0) =
    length (filter holds_freeze (ws_threads s)) + (if holds_freeze pc' then 1 else 0)"
proof -
  let ?f = "\<lambda>pc :: 'a writer_pc. if holds_freeze pc then [()] else []"
  have len: "length (filter holds_freeze xs) = size (mset (concat (map ?f xs)))" for xs
    by (induction xs) auto
  from assms have "size (mset (concat (map ?f ((ws_threads s)[i := pc'])))) + size (mset (?f pc)) =
      size (mset (concat (map ?f (ws_threads s)))) + size (mset (?f pc'))"
    using mset_concat_update [of i "ws_threads s" ?f pc'] unfolding at_def size_union [symmetric] by simp
  then show ?thesis unfolding len by (simp split: if_splits)
qed

lemma lock_ok_step:
  assumes "mts_step sm s ev s'" and ok: "lock_ok s"
  shows "lock_ok s'"
  using assms(1)
proof cases
  case (Begin i skey cols tx)
  with ok holders_goto [OF Begin(3), of "Enter skey cols tx"] show ?thesis by (simp add: lock_ok_def)
next
  case (TakeSeq i skey cols tx key row)
  with ok holders_goto [OF TakeSeq(3), of "HasSeq key row"] show ?thesis by (simp add: lock_ok_def)
next
  case (Put i key row)
  with ok holders_goto [OF Put(3), of "Inserted (estimate_row_size (mr_columns row))"]
  show ?thesis by (simp add: lock_ok_def)
next
  case (Account i n s1)
  with ok holders_goto [OF Account(3), of "if memtable_is_full (mts_active (ws_set s1)) then WantFreeze else Idle"]
  show ?thesis by (simp add: lock_ok_def split: if_splits)
next
  case (LockFail i)
  with ok holders_goto [OF LockFail(3), of Idle] show ?thesis by (simp add: lock_ok_def)
next
  case (LockOk i)
  with ok holders_goto [OF LockOk(3), of Locked] show ?thesis by (simp add: lock_ok_def)
next
  case (CheckNo i)
  with ok holders_goto [OF CheckNo(3), of Idle] show ?thesis by (simp add: lock_ok_def split: if_splits)
next
  case (CheckYes i)
  with ok holders_goto [OF CheckYes(3), of Checked] show ?thesis by (simp add: lock_ok_def)
next
  case (Swap i old)
  with ok holders_goto [OF Swap(3), of "Swapped old"] show ?thesis by (simp add: lock_ok_def)
next
  case (Push i old)
  with ok holders_goto [OF Push(3), of Idle] show ?thesis by (simp add: lock_ok_def split: if_splits)
next
  case (Pop imm ms)
  with ok show ?thesis by (simp add: lock_ok_def)
qed

lemma sole_holder:
  assumes "lock_ok s" "at s i pc" "holds_freeze pc" "holds_freeze pc'"
    and "pc' \<in> set ((ws_threads s)[i := new])"
  shows "pc' = new"
proof (rule ccontr)
  assume ne: "pc' \<noteq> new"
  have i: "i < length (ws_threads s)" using assms(2) by (simp add: at_def)
  from assms(5) ne have "pc' \<in> set (take i (ws_threads s)) \<union> set (drop (Suc i) (ws_threads s))"
    by (auto simp: upd_conv_take_nth_drop [OF i])
  then have "pc' \<in> set ((ws_threads s)[i := Idle])" by (auto simp: upd_conv_take_nth_drop [OF i])
  moreover have "filter holds_freeze ((ws_threads s)[i := Idle]) = []"
    using holders_goto [OF assms(2), of Idle] assms(1,3) by (simp add: lock_ok_def split: if_splits)
  ultimately show False using assms(4) by (auto simp: filter_empty_conv)
qed

lemma threads_goto_mem:
  "pc \<in> set ((ws_threads s)[i := pc']) \<Longrightarrow> pc = pc' \<or> pc \<in> set (ws_threads s)"
  using set_update_subset_insert by fastforce

lemma full_ok_step:
  assumes "mts_step sm s ev s'" and lock: "lock_ok s" and full: "full_ok threshold s ps"
  shows "full_ok threshold s' (snd (record_event ev (ws, ps)))"
  using assms(1)
proof cases
  case (Swap i old)
  have "Checked \<notin> set ((ws_threads s)[i := Swapped old])"
    using sole_holder [OF lock Swap(3), of Checked "Swapped old"] by auto
  moreover have "Checked \<in> set (ws_threads s)"
    using Swap(3) unfolding at_def by (metis nth_mem)
  then have "threshold \<le> mt_size_bytes old"
    using full Swap(5) by (simp add: full_ok_def)
  ultimately show ?thesis
    using full Swap(1,2) by (auto simp: full_ok_def act_defs memtable_new_def dest!: threads_goto_mem)
next
  case (Push i old)
  then have "threshold \<le> mt_size_bytes old"
    using full nth_mem [of i "ws_threads s"] by (auto simp: full_ok_def at_def)
  with full Push(1,2) show ?thesis
    by (auto simp: full_ok_def act_defs memtable_freeze_def dest!: threads_goto_mem)
next
  case (Pop imm ms)
  with full show ?thesis by (auto simp: full_ok_def pop_immutable_def split: list.splits)
next
  case (CheckYes i)
  with full show ?thesis by (auto simp: full_ok_def memtable_is_full_def dest!: threads_goto_mem)
next
  case (Account i n s1)
  with full show ?thesis
    by (auto simp: full_ok_def act_defs split: if_splits dest!: threads_goto_mem)
qed (use full in \<open>auto simp: full_ok_def act_defs dest!: threads_goto_mem\<close>)

lemma sorted_ok_step:
  assumes ok: "skip_map_ok sm" and step: "mts_step sm s ev s'" and sorted: "sorted_ok sm s ps"
  shows "sorted_ok sm s' (snd (record_event ev (ws, ps)))"
  using step
proof cases
  case (Put i key row)
  with sorted show ?thesis
    by (auto simp: sorted_ok_def act_defs sm_iter_insert [OF ok] intro: strict_sorted_put dest!: threads_goto_mem)
next
  case (Swap i old)
  with sorted show ?thesis
    by (auto simp: sorted_ok_def act_defs memtable_new_def sm_iter_new [OF ok] dest!: threads_goto_mem)
next
  case (Push i old)
  then have "Swapped old \<in> set (ws_threads s)" using nth_mem [of i "ws_threads s"] by (simp add: at_def)
  with sorted Push(1,2) show ?thesis by (auto simp: sorted_ok_def act_defs dest!: threads_goto_mem)
next
  case (Pop imm ms)
  with sorted show ?thesis by (auto simp: sorted_ok_def pop_immutable_def split: list.splits)
next
  case (Account i n s1)
  with sorted show ?thesis by (auto simp: sorted_ok_def act_defs split: if_splits dest!: threads_goto_mem)
qed (use sorted in \<open>auto simp: sorted_ok_def act_defs dest!: threads_goto_mem\<close>)

lemma run_lock: "mts_run sm threshold n s h \<Longrightarrow> lock_ok s"
proof (induction rule: mts_run.induct)
  case Init
  then show ?case by (simp add: lock_ok_def writers_init_def filter_replicate)
qed (rule lock_ok_step)

lemma run_full: "mts_run sm threshold n s h \<Longrightarrow> full_ok threshold s (snd h)"
proof (induction rule: mts_run.induct)
  case Init
  then show ?case by (simp add: full_ok_def writers_init_def memtable_set_new_def memtable_new_def)
next
  case (Step s h ev s')
  then show ?case using full_ok_step [OF Step(2) run_lock [OF Step(1)], of threshold "snd h" "fst h"] by simp
qed

lemma run_sorted:
  assumes "skip_map_ok sm"
  shows "mts_run sm threshold n s h \<Longrightarrow> sorted_ok sm s (snd h)"
proof (induction rule: mts_run.induct)
  case Init
  then show ?case
    by (simp add: sorted_ok_def writers_init_def memtable_set_new_def memtable_new_def
        sm_iter_new [OF assms])
next
  case (Step s h ev s')
  then show ?case using sorted_ok_step [OF assms Step(2), of "snd h" "fst h"] by simp
qed

section \<open>Properties\<close>

text \<open>A run of one writer that fills a table of threshold 50, freezes it and hands it
  over.\<close>

definition demo_row :: "mem_key \<times> mem_row" where
  "demo_row = (MemKey (SortKey [SortKeyComponent ''k'' [1]]) 0,
     \<lparr>mr_columns = [(''c'', [7])], mr_tx_id = 9, mr_deleted = False\<rparr>)"

lemma demo_run:
  "\<exists>s. mts_run alist_skip_map 50 2 s
     ([demo_row], [\<lparr>imm_entries = [demo_row], imm_size_bytes = 82\<rparr>])"
proof -
  let ?sm = "alist_skip_map :: (mem_key \<times> mem_row) list row_map"
  let ?k = "SortKey [SortKeyComponent ''k'' [1]]" and ?c = "[(''c'', [7])] :: (string \<times> bytes) list"
  let ?row = "snd demo_row"
  define s0 where "s0 = writers_init ?sm 50 2"
  define s1 where "s1 = goto 0 (Enter ?k ?c 9) s0"
  define s2 where "s2 = goto 0 (HasSeq (fst demo_row) ?row) (on_set act_seq s1)"
  define s3 where "s3 = goto 0 (Inserted (estimate_row_size (mr_columns ?row))) (on_set (act_put ?sm (fst demo_row) ?row) s2)"
  define s4 where "s4 = on_set (act_size (estimate_row_size (mr_columns ?row))) s3"
  define s5 where "s5 = goto 0 WantFreeze s4"
  define s6 where "s6 = goto 0 Locked (set_lock True s5)"
  define s7 where "s7 = goto 0 Checked s6"
  define old where "old = mts_active (ws_set s7)"
  define s8 where "s8 = goto 0 (Swapped old) (on_set (act_swap ?sm) s7)"
  define s9 where "s9 = goto 0 Idle (set_lock False (on_set (act_push (memtable_freeze ?sm old)) s8))"
  define s10 where "s10 = s9\<lparr>ws_set := (ws_set s9)\<lparr>mts_immutable := []\<rparr>\<rparr>"
  note s = s0_def s1_def s2_def s3_def s4_def s5_def s6_def s7_def old_def s8_def s9_def
    writers_init_def memtable_set_new_def at_def act_defs memtable_new_def memtable_is_full_def
    demo_row_def alist_skip_map_def estimate_row_size_def memtable_freeze_def
  note step = mts_run.Step [where sm = ?sm and threshold = 50 and n = 2]
  have pc: "at s0 0 Idle" "at s1 0 (Enter ?k ?c 9)" "at s2 0 (HasSeq (fst demo_row) ?row)"
      "at s3 0 (Inserted (estimate_row_size (mr_columns ?row)))" "at s5 0 WantFreeze"
      "at s6 0 Locked" "at s7 0 Checked" "at s8 0 (Swapped old)"
    by (simp_all add: s)
  have g: "fst demo_row = MemKey ?k (mts_seq_gen (ws_set s1))"
      "?row = \<lparr>mr_columns = ?c, mr_tx_id = 9, mr_deleted = False\<rparr>"
      "memtable_is_full (mts_active (ws_set s4))" "\<not> ws_lock s5"
      "memtable_is_full (mts_active (ws_set s6))"
      "list_all (\<lambda>pc. \<not> holds_read pc) (ws_threads s7)"
      "pop_immutable (ws_set s9) = (Some \<lparr>imm_entries = [demo_row], imm_size_bytes = 82\<rparr>, ws_set s10)"
    by (simp_all add: s s10_def pop_immutable_def numeral_2_eq_2)
  have "mts_run ?sm 50 2 s0 ([], [])" unfolding s0_def by (rule mts_run.Init)
  from step [OF this Begin [OF pc(1)]] have "mts_run ?sm 50 2 s1 ([], [])" unfolding s1_def by simp
  from step [OF this TakeSeq [OF pc(2) g(1,2)]]
  have "mts_run ?sm 50 2 s2 ([demo_row], [])" unfolding s2_def by simp
  from step [OF this Put [OF pc(3)]] have "mts_run ?sm 50 2 s3 ([demo_row], [])" unfolding s3_def by simp
  from step [OF this Account [OF pc(4) s4_def]]
  have "mts_run ?sm 50 2 s5 ([demo_row], [])" unfolding s5_def using g(3) by simp
  from step [OF this LockOk [OF pc(5) g(4)]] have "mts_run ?sm 50 2 s6 ([demo_row], [])" unfolding s6_def by simp
  from step [OF this CheckYes [OF pc(6) g(5)]] have "mts_run ?sm 50 2 s7 ([demo_row], [])" unfolding s7_def by simp
  from step [OF this Swap [OF pc(7) g(6) old_def]] have "mts_run ?sm 50 2 s8 ([demo_row], [])" unfolding s8_def by simp
  from step [OF this Push [OF pc(8)]] have "mts_run ?sm 50 2 s9 ([demo_row], [])" unfolding s9_def by simp
  from step [OF this Pop [OF g(7)]] show ?thesis by auto
qed

text \<open>C1. No interleaving of concurrent writers, freezes and flusher hand-overs loses or
  duplicates a row: at every moment each row that was given a sequence number is held
  exactly once, by the active table, by a writer about to insert it, by a table being
  frozen, by an immutable table, or by a table already handed to the flusher.\<close>

theorem memtable_rows_held_once:
  assumes "skip_map_ok sm" and "mts_run sm threshold n s (ws, ps)" and "length ws \<le> 2 ^ 64"
  shows "mset ws =
      mset (sm_iter sm (mt_map (mts_active (ws_set s)))) +
      mset (concat (map (inflight sm) (ws_threads s))) +
      mset (concat (map imm_entries (mts_immutable (ws_set s) @ ps)))
    \<and> distinct (map fst ws)"
  using run_held [OF assms(1,2)] issued_distinct [OF run_issued [OF assms(2)]] assms(3)
  by (simp add: held_def ac_simps)

text \<open>C7. Freezing is exclusive and useful: at most one writer is inside the freeze at any
  time, and every table that was frozen, waiting or handed over, had reached the
  threshold and lists its rows strictly ascending in (sort key, sequence).\<close>

theorem memtable_freeze_exclusive:
  assumes "skip_map_ok sm" and "mts_run sm threshold n s (ws, ps)"
  shows "length (filter holds_freeze (ws_threads s)) \<le> 1 \<and>
    list_all (\<lambda>imm. threshold \<le> imm_size_bytes imm \<and> sorted_wrt (<) (map fst (imm_entries imm)))
      (mts_immutable (ws_set s) @ ps)"
  using run_lock [OF assms(2)] run_full [OF assms(2)] run_sorted [OF assms]
  by (auto simp: lock_ok_def full_ok_def sorted_ok_def list_all_iff split: if_splits)

theorem memtable_rows_held_once_witness:
  "\<exists>s ps. mts_run alist_skip_map 50 2 s ([demo_row], ps) \<and>
     mset [demo_row] =
       mset (sm_iter alist_skip_map (mt_map (mts_active (ws_set s)))) +
       mset (concat (map (inflight alist_skip_map) (ws_threads s))) +
       mset (concat (map imm_entries (mts_immutable (ws_set s) @ ps))) \<and>
     distinct (map fst [demo_row])"
  using demo_run memtable_rows_held_once [OF alist_skip_map_ok] by fastforce

theorem memtable_freeze_exclusive_witness:
  "\<exists>s ps. ps \<noteq> [] \<and> mts_run alist_skip_map 50 2 s ([demo_row], ps) \<and>
     length (filter holds_freeze (ws_threads s)) \<le> 1 \<and>
     list_all (\<lambda>imm. 50 \<le> imm_size_bytes imm \<and> sorted_wrt (<) (map fst (imm_entries imm)))
       (mts_immutable (ws_set s) @ ps)"
  using demo_run memtable_freeze_exclusive [OF alist_skip_map_ok] by fastforce

end
