(* ===== verification/F64.thy ===== *)
theory F64
  imports Prelude Complex_Main
begin

text \<open>
  The floating point values the storage node compares: ratios of non-negative
  quantities. A finite value is the exact quotient; a division by zero gives infinity
  or, for zero by zero, NaN, which compares with nothing. Rounding is not modelled:
  operands below \<open>2 ^ 53\<close> convert exactly and a correctly rounded quotient is on the
  same side of 1 as the exact one.
\<close>

datatype f64 = Fin rat | Inf | NaN

datatype rust_ordering = Less | Equal | Greater

definition f64_div :: "nat \<Rightarrow> nat \<Rightarrow> f64" where
  "f64_div a b =
     (if b = 0 then (if a = 0 then NaN else Inf) else Fin (of_nat a / of_nat b))"

definition f64_partial_cmp :: "f64 \<Rightarrow> f64 \<Rightarrow> rust_ordering option" where
  "f64_partial_cmp a b =
     (case (a, b) of
        (NaN, _) \<Rightarrow> None
      | (_, NaN) \<Rightarrow> None
      | (Inf, Inf) \<Rightarrow> Some Equal
      | (Inf, Fin _) \<Rightarrow> Some Greater
      | (Fin _, Inf) \<Rightarrow> Some Less
      | (Fin x, Fin y) \<Rightarrow> Some (if x < y then Less else if x = y then Equal else Greater))"

text \<open>\<open>a >= b\<close>, false when either side is NaN.\<close>

definition f64_ge :: "f64 \<Rightarrow> f64 \<Rightarrow> bool" where
  "f64_ge a b \<longleftrightarrow> f64_partial_cmp a b = Some Greater \<or> f64_partial_cmp a b = Some Equal"

lemma f64_ge_ratio: "0 < b \<Longrightarrow> f64_ge (f64_div a b) (Fin 1) \<longleftrightarrow> b \<le> a"
  by (auto simp: f64_ge_def f64_div_def f64_partial_cmp_def)

text \<open>\<open>Iterator::max_by\<close>: a later element replaces the current one unless the current
  one is strictly greater.\<close>

definition max_by :: "('a \<Rightarrow> 'a \<Rightarrow> rust_ordering) \<Rightarrow> 'a list \<Rightarrow> 'a option" where
  "max_by cmp xs =
     (case xs of [] \<Rightarrow> None
      | x # ys \<Rightarrow> Some (fold (\<lambda>y m. if cmp m y = Greater then m else y) ys x))"

definition f64_cmp_or_equal :: "f64 \<Rightarrow> f64 \<Rightarrow> rust_ordering" where
  "f64_cmp_or_equal a b = (case f64_partial_cmp a b of None \<Rightarrow> Equal | Some r \<Rightarrow> r)"

text \<open>Away from NaN the comparison is a total order and \<open>max_by\<close> finds a maximum.\<close>

definition f64_le :: "f64 \<Rightarrow> f64 \<Rightarrow> bool" where
  "f64_le a b \<longleftrightarrow> f64_ge b a"

lemma f64_le_trans: "f64_le a b \<Longrightarrow> f64_le b c \<Longrightarrow> f64_le a c"
  by (auto simp: f64_le_def f64_ge_def f64_partial_cmp_def split: f64.splits if_splits)

lemma f64_le_total: "a \<noteq> NaN \<Longrightarrow> b \<noteq> NaN \<Longrightarrow> f64_le a b \<or> f64_le b a"
  by (auto simp: f64_le_def f64_ge_def f64_partial_cmp_def split: f64.splits if_splits)

lemma f64_cmp_greater: "f64_cmp_or_equal a b = Greater \<Longrightarrow> f64_le b a"
  by (auto simp: f64_cmp_or_equal_def f64_le_def f64_ge_def split: option.splits)

lemma f64_cmp_not_greater: "a \<noteq> NaN \<Longrightarrow> b \<noteq> NaN \<Longrightarrow> f64_cmp_or_equal a b \<noteq> Greater \<Longrightarrow> f64_le a b"
  by (auto simp: f64_cmp_or_equal_def f64_le_def f64_ge_def f64_partial_cmp_def
      split: f64.splits if_splits)

lemma max_by_f64:
  assumes "max_by (\<lambda>a b. f64_cmp_or_equal (f a) (f b)) xs = Some m" "\<forall>x \<in> set xs. f x \<noteq> NaN"
  shows "m \<in> set xs \<and> (\<forall>x \<in> set xs. f64_le (f x) (f m))"
proof -
  let ?g = "\<lambda>y m. if f64_cmp_or_equal (f m) (f y) = Greater then m else y"
  have refl: "f64_le v v" if "v \<noteq> NaN" for v using f64_le_total [OF that that] by simp
  have "fold ?g ys x \<in> insert x (set ys) \<and> (\<forall>y \<in> insert x (set ys). f64_le (f y) (f (fold ?g ys x)))"
    if "\<forall>y \<in> insert x (set ys). f y \<noteq> NaN" for x ys
    using that
  proof (induction ys arbitrary: x)
    case Nil
    then show ?case by (simp add: refl)
  next
    case (Cons y ys)
    let ?z = "?g y x"
    have z: "?z \<in> {x, y}" "f64_le (f x) (f ?z)" "f64_le (f y) (f ?z)"
      using Cons.prems refl f64_cmp_greater f64_cmp_not_greater by auto
    have "\<forall>w \<in> insert ?z (set ys). f w \<noteq> NaN" using Cons.prems z(1) by auto
    from Cons.IH [OF this] z show ?case by (auto intro: f64_le_trans)
  qed
  with assms show ?thesis by (cases xs) (auto simp: max_by_def)
qed

end
