(* ===== verification/Levels.thy ===== *)
theory Levels
  imports F64
begin

text \<open>
  The level structure of a partition (\<open>storage-node/src/lsm/levels.rs\<close>): SSTable
  references, levels L0 to L6, compaction scores, write control and the check of the
  non-overlap invariant of the levels above L0.
\<close>

section \<open>SSTable references\<close>

record sst_ref =
  sst_id :: uuid
  sst_sequence_num :: u64
  sst_generation :: u64
  sst_compacted_from :: "uuid list"
  sst_level :: u32
  sst_path :: string
  sst_size_bytes :: u64
  sst_row_count :: u64
  sst_min_sort_key :: bytes
  sst_max_sort_key :: bytes

definition key_in_range :: "sst_ref \<Rightarrow> bytes \<Rightarrow> bool" where
  "key_in_range s key \<longleftrightarrow> sst_min_sort_key s \<le> key \<and> key \<le> sst_max_sort_key s"

definition overlaps_with :: "sst_ref \<Rightarrow> sst_ref \<Rightarrow> bool" where
  "overlaps_with s t \<longleftrightarrow> sst_min_sort_key s \<le> sst_max_sort_key t \<and> sst_min_sort_key t \<le> sst_max_sort_key s"

section \<open>Configuration\<close>

record compaction_config =
  l0_file_compaction_trigger :: nat
  l0_slowdown_write_trigger :: nat
  l0_stop_write_trigger :: nat
  l1_max_bytes :: u64
  level_size_multiplier :: u64
  max_levels :: u32
  target_file_size_bytes :: u64
  check_interval_ms :: u64

definition compaction_config_default :: compaction_config where
  "compaction_config_default =
     \<lparr>l0_file_compaction_trigger = 4, l0_slowdown_write_trigger = 8, l0_stop_write_trigger = 12,
      l1_max_bytes = 256 * 1024 * 1024, level_size_multiplier = 10, max_levels = 6,
      target_file_size_bytes = 64 * 1024 * 1024, check_interval_ms = 1000\<rparr>"

definition target_level_size_bytes :: "compaction_config \<Rightarrow> nat \<Rightarrow> u64" where
  "target_level_size_bytes cfg lvl =
     (if lvl = 0 then 0
      else (let e = of_nat (lvl - 1) :: u32
            in saturating_mul (l1_max_bytes cfg) (saturating_pow (level_size_multiplier cfg) (unat e))))"

section \<open>Levels\<close>

record partition_levels =
  pl_levels :: "sst_ref list list"
  pl_config :: compaction_config

definition levels_new :: "compaction_config \<Rightarrow> partition_levels" where
  "levels_new cfg = \<lparr>pl_levels = replicate (unat (max_levels cfg) + 1) [], pl_config = cfg\<rparr>"

definition levels_add :: "sst_ref \<Rightarrow> partition_levels \<Rightarrow> partition_levels option" where
  "levels_add s p =
     (let lvl = unat (sst_level s)
      in if lvl < length (pl_levels p)
         then (let pushed = pl_levels p ! lvl @ [s];
                   level = (if 0 < lvl then sort_key sst_min_sort_key pushed else pushed)
               in Some (p\<lparr>pl_levels := (pl_levels p)[lvl := level]\<rparr>))
         else None)"

definition levels_remove :: "uuid \<Rightarrow> partition_levels \<Rightarrow> partition_levels" where
  "levels_remove i p = p\<lparr>pl_levels := map (filter (\<lambda>s. sst_id s \<noteq> i)) (pl_levels p)\<rparr>"

definition read_snapshot :: "partition_levels \<Rightarrow> sst_ref list" where
  "read_snapshot p = concat (pl_levels p)"

definition level_size_bytes :: "partition_levels \<Rightarrow> nat \<Rightarrow> u64" where
  "level_size_bytes p lvl =
     (if lvl < length (pl_levels p) then sum_list (map sst_size_bytes (pl_levels p ! lvl)) else 0)"

definition l0_count :: "partition_levels \<Rightarrow> nat" where
  "l0_count p = (case pl_levels p of [] \<Rightarrow> 0 | l0 # _ \<Rightarrow> length l0)"

definition compaction_score :: "partition_levels \<Rightarrow> nat \<Rightarrow> f64" where
  "compaction_score p lvl =
     (if lvl = 0 then f64_div (l0_count p) (l0_file_compaction_trigger (pl_config p))
      else f64_div (unat (level_size_bytes p lvl)) (unat (target_level_size_bytes (pl_config p) lvl)))"

definition highest_priority_level :: "partition_levels \<Rightarrow> nat option" where
  "highest_priority_level p =
     (case max_by (\<lambda>a b. f64_cmp_or_equal (compaction_score p a) (compaction_score p b))
             (filter (\<lambda>lvl. pl_levels p ! lvl \<noteq> []) [0..<length (pl_levels p)]) of
        None \<Rightarrow> None
      | Some lvl \<Rightarrow> if f64_ge (compaction_score p lvl) (Fin 1) then Some lvl else None)"

record non_overlap_violation =
  nov_level :: u32
  nov_sst_a :: uuid
  nov_sst_b :: uuid

text \<open>The nested loops over the pairs of one level, and over the levels from L1.\<close>

fun level_violation :: "sst_ref list \<Rightarrow> (sst_ref \<times> sst_ref) option" where
  "level_violation [] = None"
| "level_violation (s # ssts) =
     (case find (overlaps_with s) ssts of
        Some t \<Rightarrow> Some (s, t)
      | None \<Rightarrow> level_violation ssts)"

fun first_violation :: "nat \<Rightarrow> sst_ref list list \<Rightarrow> non_overlap_violation option" where
  "first_violation lvl [] = None"
| "first_violation lvl (ssts # rest) =
     (case level_violation ssts of
        Some (s, t) \<Rightarrow> Some \<lparr>nov_level = of_nat lvl, nov_sst_a = sst_id s, nov_sst_b = sst_id t\<rparr>
      | None \<Rightarrow> first_violation (lvl + 1) rest)"

definition verify_non_overlapping :: "partition_levels \<Rightarrow> non_overlap_violation + unit" where
  "verify_non_overlapping p =
     (case first_violation 1 (drop 1 (pl_levels p)) of Some v \<Rightarrow> Inl v | None \<Rightarrow> Inr ())"

record lsm_level_stats =
  lls_level :: u32
  lls_file_count :: nat
  lls_size_bytes :: u64
  lls_compaction_score :: f64

definition level_stats :: "partition_levels \<Rightarrow> lsm_level_stats list" where
  "level_stats p =
     map (\<lambda>(lvl, ssts). \<lparr>lls_level = of_nat lvl, lls_file_count = length ssts,
           lls_size_bytes = sum_list (map sst_size_bytes ssts),
           lls_compaction_score = compaction_score p lvl\<rparr>) (enumerate 0 (pl_levels p))"

datatype write_control = Normal | Slowdown | Stop

definition levels_write_control :: "partition_levels \<Rightarrow> write_control" where
  "levels_write_control p =
     (let l0 = l0_count p; cfg = pl_config p
      in if l0_stop_write_trigger cfg \<le> l0 then Stop
         else if l0_slowdown_write_trigger cfg \<le> l0 then Slowdown
         else Normal)"

section \<open>The non-overlap invariant\<close>

definition disjoint_level :: "sst_ref list \<Rightarrow> bool" where
  "disjoint_level ssts \<longleftrightarrow> sorted_wrt (\<lambda>s t. \<not> overlaps_with s t) ssts"

definition non_overlapping :: "partition_levels \<Rightarrow> bool" where
  "non_overlapping p \<longleftrightarrow> list_all disjoint_level (drop 1 (pl_levels p))"

lemma overlaps_sym: "overlaps_with s t \<longleftrightarrow> overlaps_with t s"
  by (auto simp: overlaps_with_def)

lemma level_violation_None: "level_violation ssts = None \<longleftrightarrow> disjoint_level ssts"
  by (induction ssts) (auto simp: disjoint_level_def find_None_iff find_Some_iff split: option.splits)

lemma first_violation_None: "first_violation lvl ls = None \<longleftrightarrow> list_all disjoint_level ls"
  by (induction ls arbitrary: lvl) (auto simp: level_violation_None [symmetric] split: option.splits)

lemma list_all_drop1: "list_all P (drop 1 xs) \<longleftrightarrow> (\<forall>i. 1 \<le> i \<and> i < length xs \<longrightarrow> P (xs ! i))"
  by (cases xs) (auto simp: list_all_length Suc_le_eq gr0_conv_Suc)

text \<open>Disjointness does not depend on the order within the level.\<close>

lemma disjoint_level_mset:
  assumes "mset xs = mset ys"
  shows "disjoint_level xs \<longleftrightarrow> disjoint_level ys"
proof -
  have "disjoint_level (s # zs) \<longleftrightarrow> disjoint_level zs \<and> (\<forall>t \<in> set zs. \<not> overlaps_with s t)" for s zs
    by (auto simp: disjoint_level_def)
  have step: "disjoint_level (as @ s # bs) \<longleftrightarrow> disjoint_level (s # as @ bs)" for s as bs
    using overlaps_sym by (auto simp: disjoint_level_def sorted_wrt_append)
  show ?thesis
    using assms
  proof (induction xs arbitrary: ys)
    case Nil
    then show ?case by simp
  next
    case (Cons x xs)
    then have "x \<in> set ys" by (metis list.set_intros(1) mset_eq_setD)
    then obtain as bs where ys: "ys = as @ x # bs" by (meson split_list)
    with Cons.prems have m: "mset xs = mset (as @ bs)" by simp
    then have "set xs = set (as @ bs)" by (rule mset_eq_setD)
    with Cons.IH [OF m] show ?case unfolding ys step by (simp add: disjoint_level_def)
  qed
qed


section \<open>Properties\<close>

text \<open>The runtime check is exact: it reports no violation if and only if no two
  SSTables of a level above L0 have overlapping key ranges.\<close>

lemma verify_non_overlapping_exact:
  "verify_non_overlapping p = Inr () \<longleftrightarrow>
     (\<forall>lvl i j. 1 \<le> lvl \<and> lvl < length (pl_levels p) \<and> i < j \<and> j < length (pl_levels p ! lvl) \<longrightarrow>
        \<not> overlaps_with (pl_levels p ! lvl ! i) (pl_levels p ! lvl ! j))"
proof -
  have "verify_non_overlapping p = Inr () \<longleftrightarrow> list_all disjoint_level (drop 1 (pl_levels p))"
    using first_violation_None [of 1 "drop 1 (pl_levels p)"]
    by (auto simp: verify_non_overlapping_def split: option.splits)
  also have "\<dots> \<longleftrightarrow> (\<forall>lvl. 1 \<le> lvl \<and> lvl < length (pl_levels p) \<longrightarrow> disjoint_level (pl_levels p ! lvl))"
    by (rule list_all_drop1)
  finally show ?thesis by (auto simp: disjoint_level_def sorted_wrt_iff_nth_less)
qed

definition sample_sst :: "uuid \<Rightarrow> u32 \<Rightarrow> bytes \<Rightarrow> bytes \<Rightarrow> sst_ref" where
  "sample_sst i lvl lo hi =
     \<lparr>sst_id = i, sst_sequence_num = ucast i, sst_generation = 0, sst_compacted_from = [], sst_level = lvl,
      sst_path = [], sst_size_bytes = 100, sst_row_count = 10, sst_min_sort_key = lo, sst_max_sort_key = hi\<rparr>"

text \<open>The scheduler compacts a most loaded level and leaves none behind: with positive
  triggers and targets it returns a non-empty level whose score is at least one and is a
  maximum, and it returns nothing only if every non-empty level is below one.\<close>

lemma highest_priority_level_max:
  assumes "0 < l0_file_compaction_trigger (pl_config p)"
    and "0 < l1_max_bytes (pl_config p)" and "0 < level_size_multiplier (pl_config p)"
  shows "case highest_priority_level p of
      Some lvl \<Rightarrow> lvl < length (pl_levels p) \<and> pl_levels p ! lvl \<noteq> [] \<and>
        f64_ge (compaction_score p lvl) (Fin 1) \<and>
        (\<forall>k < length (pl_levels p). pl_levels p ! k \<noteq> [] \<longrightarrow>
           f64_ge (compaction_score p lvl) (compaction_score p k))
    | None \<Rightarrow> \<forall>k < length (pl_levels p). pl_levels p ! k \<noteq> [] \<longrightarrow>
        \<not> f64_ge (compaction_score p k) (Fin 1)"
proof -
  let ?xs = "filter (\<lambda>lvl. pl_levels p ! lvl \<noteq> []) [0..<length (pl_levels p)]"
  let ?m = "max_by (\<lambda>a b. f64_cmp_or_equal (compaction_score p a) (compaction_score p b)) ?xs"
  have "0 < unat (l1_max_bytes (pl_config p))" "0 < unat (level_size_multiplier (pl_config p))"
    using assms(2,3) by (simp_all add: word_less_nat_alt)
  then have "unat (target_level_size_bytes (pl_config p) k) \<noteq> 0" if "0 < k" for k
    using that
    by (simp add: target_level_size_bytes_def Let_def unat_saturating_mul unat_saturating_pow)
  then have nan: "compaction_score p k \<noteq> NaN" for k
    using assms(1) by (cases "k = 0") (simp_all add: compaction_score_def f64_div_def)
  show ?thesis
  proof (cases ?m)
    case None
    then have "?xs = []" by (cases ?xs) (auto simp: max_by_def)
    then have "\<forall>k < length (pl_levels p). pl_levels p ! k = []" by (auto simp: filter_empty_conv)
    with None show ?thesis by (simp add: highest_priority_level_def)
  next
    case (Some lvl)
    from max_by_f64 [OF Some] nan
    have m: "lvl \<in> set ?xs" "\<forall>k \<in> set ?xs. f64_le (compaction_score p k) (compaction_score p lvl)" by blast+
    show ?thesis
    proof (cases "f64_ge (compaction_score p lvl) (Fin 1)")
      case True
      with Some m show ?thesis by (auto simp: highest_priority_level_def f64_le_def)
    next
      case False
      with m(2) have "\<forall>k \<in> set ?xs. \<not> f64_ge (compaction_score p k) (Fin 1)"
        using f64_le_trans unfolding f64_le_def by blast
      with Some False show ?thesis by (simp add: highest_priority_level_def)
    qed
  qed
qed

text \<open>Level targets grow geometrically and saturate instead of wrapping: the target of
  level \<open>k\<close> is \<open>l1_max_bytes * multiplier ^ (k - 1)\<close> capped at the largest u64.\<close>

lemma target_level_size_saturates:
  assumes "1 \<le> lvl" and "lvl \<le> 2 ^ 32"
  shows "unat (target_level_size_bytes cfg lvl) =
    min (2 ^ 64 - 1) (unat (l1_max_bytes cfg) * unat (level_size_multiplier cfg) ^ (lvl - 1))"
proof -
  let ?a = "unat (l1_max_bytes cfg)" and ?b = "unat (level_size_multiplier cfg)"
  have "unat (of_nat (lvl - 1) :: u32) = lvl - 1" using assms by (intro unat_u32_of_nat) linarith
  then have t: "unat (target_level_size_bytes cfg lvl) =
      min (2 ^ 64 - 1) (?a * min (2 ^ 64 - 1) (?b ^ (lvl - 1)))"
    using assms(1) by (simp add: target_level_size_bytes_def Let_def unat_saturating_mul unat_saturating_pow)
  have cap: "min m (a * min m p) = min m (a * p)" for m a p :: nat
  proof (cases "p \<le> m \<or> a = 0")
    case True
    then show ?thesis by auto
  next
    case False
    then have "m \<le> a * m" "m \<le> p" by auto
    moreover from this have "m \<le> a * p" by (meson mult_le_mono2 order_trans)
    ultimately show ?thesis by (simp add: min_absorb1)
  qed
  show ?thesis unfolding t by (rule cap)
qed

end
