(* ===== verification/Manifest.thy ===== *)
theory Manifest
  imports Levels
begin

text \<open>
  The MANIFEST of a partition (\<open>storage-node/src/lsm/manifest.rs\<close>): a log of JSON
  lines, its in-memory projection, recovery and the atomic rewrite. The JSON codec is
  an argument; the hypothesis \<open>json_line_ok\<close> says that it writes an event as one
  non-blank line and reads it back. What the operating system does with an append is an
  argument: the file cannot be opened, the write stops after some bytes of the line, or
  the line is written. The file is text; the errors of reading it back, for a file that is
  unreadable or not UTF-8, are not modelled.
\<close>

section \<open>Events and state\<close>

datatype manifest_event =
    EvAdd sst_ref
  | EvRemove uuid u32
  | EvCompactionBegin uuid "uuid list" u32
  | EvCompactionEnd uuid "uuid list"

record pending_compaction =
  pcp_id :: uuid
  pcp_input_ids :: "uuid list"

record manifest =
  mf_file :: "string option"
  mf_active :: "sst_ref list"
  mf_pending :: "pending_compaction list"

type_synonym to_json = "manifest_event \<Rightarrow> string option"
type_synonym from_json = "string \<Rightarrow> manifest_event option"

definition newline :: char where "newline = CHR 0x0A"

definition is_space :: "char \<Rightarrow> bool" where
  "is_space c \<longleftrightarrow> c \<in> {CHR '' '', CHR 0x09, CHR 0x0A, CHR 0x0B, CHR 0x0C, CHR 0x0D}"

definition trim :: "string \<Rightarrow> string" where
  "trim s = rev (dropWhile is_space (rev (dropWhile is_space s)))"

text \<open>\<open>BufRead::lines\<close>: the pieces between newlines, without an empty piece at the end.
  The carriage return it also strips is removed by \<open>trim\<close>.\<close>

function split_lines :: "string \<Rightarrow> string list" where
  "split_lines s =
     (if s = [] then []
      else takeWhile (\<lambda>c. c \<noteq> newline) s # split_lines (tl (dropWhile (\<lambda>c. c \<noteq> newline) s)))"
  by pat_completeness auto

termination split_lines
proof (relation "measure length")
  fix s :: string assume "s \<noteq> []"
  then have "length (dropWhile (\<lambda>c. c \<noteq> newline) s) \<le> length s" "0 < length s"
    by (simp_all add: length_dropWhile_le)
  then have "length (dropWhile (\<lambda>c. c \<noteq> newline) s) - 1 < length s" by linarith
  then show "(tl (dropWhile (\<lambda>c. c \<noteq> newline) s), s) \<in> measure length" by simp
qed simp

declare split_lines.simps [simp del]

definition json_line_ok :: "to_json \<Rightarrow> from_json \<Rightarrow> manifest_event \<Rightarrow> bool" where
  "json_line_ok tj fj ev =
     (case tj ev of
        None \<Rightarrow> False
      | Some l \<Rightarrow> fj l = Some ev \<and> l \<noteq> [] \<and> newline \<notin> set l \<and> trim l = l)"

section \<open>Operations\<close>

definition manifest_contents :: "manifest \<Rightarrow> string" where
  "manifest_contents m = (case mf_file m of None \<Rightarrow> [] | Some f \<Rightarrow> f)"

text \<open>The fate of an append: \<open>WriteFails k\<close> leaves at most \<open>k\<close> bytes of the line, and never its
  newline, in the file that the open created.\<close>

datatype append_io = OpenFails | WriteFails nat | WritesAll

definition append_event :: "to_json \<Rightarrow> append_io \<Rightarrow> manifest_event \<Rightarrow> manifest \<Rightarrow> manifest \<times> bool" where
  "append_event tj io ev m =
     (case io of
        OpenFails \<Rightarrow> (m, False)
      | WriteFails k \<Rightarrow>
          (m\<lparr>mf_file := Some (manifest_contents m @ (case tj ev of None \<Rightarrow> [] | Some line \<Rightarrow> take k line))\<rparr>, False)
      | WritesAll \<Rightarrow>
          (case tj ev of
             None \<Rightarrow> (m\<lparr>mf_file := Some (manifest_contents m)\<rparr>, False)
           | Some line \<Rightarrow> (m\<lparr>mf_file := Some (manifest_contents m @ line @ [newline])\<rparr>, True)))"

definition add_sst :: "to_json \<Rightarrow> append_io \<Rightarrow> sst_ref \<Rightarrow> manifest \<Rightarrow> manifest \<times> bool" where
  "add_sst tj io s m =
     (case append_event tj io (EvAdd s) m of
        (m', False) \<Rightarrow> (m', False)
      | (m', True) \<Rightarrow> (m'\<lparr>mf_active := mf_active m' @ [s]\<rparr>, True))"

definition remove_sst :: "to_json \<Rightarrow> append_io \<Rightarrow> uuid \<Rightarrow> u32 \<Rightarrow> manifest \<Rightarrow> manifest \<times> bool" where
  "remove_sst tj io i lvl m =
     (case append_event tj io (EvRemove i lvl) m of
        (m', False) \<Rightarrow> (m', False)
      | (m', True) \<Rightarrow> (m'\<lparr>mf_active := filter (\<lambda>s. sst_id s \<noteq> i) (mf_active m')\<rparr>, True))"

definition begin_compaction ::
  "to_json \<Rightarrow> append_io \<Rightarrow> uuid \<Rightarrow> uuid list \<Rightarrow> u32 \<Rightarrow> manifest \<Rightarrow> manifest \<times> bool" where
  "begin_compaction tj io cid input_ids output_level m =
     (case append_event tj io (EvCompactionBegin cid input_ids output_level) m of
        (m', False) \<Rightarrow> (m', False)
      | (m', True) \<Rightarrow>
          (m'\<lparr>mf_pending := mf_pending m' @ [\<lparr>pcp_id = cid, pcp_input_ids = input_ids\<rparr>]\<rparr>, True))"

definition should_rewrite :: "manifest \<Rightarrow> bool" where
  "should_rewrite m =
     (case mf_file m of None \<Rightarrow> False | Some f \<Rightarrow> 16 * 1024 * 1024 < length f)"

definition atomic_rewrite :: "to_json \<Rightarrow> bool \<Rightarrow> manifest \<Rightarrow> manifest \<times> bool" where
  "atomic_rewrite tj io_ok m =
     (if \<not> io_ok then (m, False)
      else (case those (map (\<lambda>s. tj (EvAdd s)) (mf_active m)) of
              None \<Rightarrow> (m, False)
            | Some ls \<Rightarrow> (m\<lparr>mf_file := Some (concat (map (\<lambda>l. l @ [newline]) ls))\<rparr>, True)))"

definition complete_compaction ::
  "to_json \<Rightarrow> append_io \<times> bool \<Rightarrow> uuid \<Rightarrow> uuid list \<Rightarrow> uuid list \<Rightarrow> sst_ref list \<Rightarrow> manifest \<Rightarrow> manifest \<times> bool" where
  "complete_compaction tj io cid output_ids removed_ids added m =
     (let active = fold (\<lambda>i. filter (\<lambda>s. sst_id s \<noteq> i)) removed_ids (mf_active m);
          m1 = m\<lparr>mf_active := active @ added,
                 mf_pending := filter (\<lambda>p. pcp_id p \<noteq> cid) (mf_pending m)\<rparr>
      in case append_event tj (fst io) (EvCompactionEnd cid output_ids) m1 of
           (m2, False) \<Rightarrow> (m2, False)
         | (m2, True) \<Rightarrow> if should_rewrite m2 then atomic_rewrite tj (snd io) m2 else (m2, True))"

fun apply_event :: "manifest_event \<Rightarrow> manifest \<Rightarrow> manifest" where
  "apply_event (EvAdd s) m = m\<lparr>mf_active := mf_active m @ [s]\<rparr>"
| "apply_event (EvRemove i _) m = m\<lparr>mf_active := filter (\<lambda>s. sst_id s \<noteq> i) (mf_active m)\<rparr>"
| "apply_event (EvCompactionBegin cid ids _) m =
     m\<lparr>mf_pending := mf_pending m @ [\<lparr>pcp_id = cid, pcp_input_ids = ids\<rparr>]\<rparr>"
| "apply_event (EvCompactionEnd cid _) m =
     m\<lparr>mf_pending := filter (\<lambda>p. pcp_id p \<noteq> cid) (mf_pending m)\<rparr>"

fun recover_lines :: "from_json \<Rightarrow> string list \<Rightarrow> manifest \<Rightarrow> manifest" where
  "recover_lines fj [] m = m"
| "recover_lines fj (line # rest) m =
     (if trim line = [] then recover_lines fj rest m
      else (case fj (trim line) of
              Some ev \<Rightarrow> recover_lines fj rest (apply_event ev m)
            | None \<Rightarrow> m))"

definition manifest_recover :: "from_json \<Rightarrow> manifest \<Rightarrow> manifest" where
  "manifest_recover fj m = recover_lines fj (split_lines (manifest_contents m)) m"

definition manifest_open :: "from_json \<Rightarrow> string option \<Rightarrow> manifest" where
  "manifest_open fj f =
     (let m = \<lparr>mf_file = f, mf_active = [], mf_pending = []\<rparr>
      in if f = None then m else manifest_recover fj m)"

section \<open>Logs of whole lines\<close>

definition whole_lines :: "string \<Rightarrow> bool" where
  "whole_lines f \<longleftrightarrow> f = [] \<or> last f = newline"

lemma split_lines_Nil [simp]: "split_lines [] = []"
  by (simp add: split_lines.simps)

lemma split_lines_line:
  assumes "newline \<notin> set l"
  shows "split_lines (l @ newline # rest) = l # split_lines rest"
proof -
  have "takeWhile (\<lambda>c. c \<noteq> newline) (l @ newline # rest) = l"
      "dropWhile (\<lambda>c. c \<noteq> newline) (l @ newline # rest) = newline # rest"
    using assms by (auto simp: takeWhile_append dropWhile_append)
  then show ?thesis by (subst split_lines.simps) simp
qed

lemma split_lines_append:
  "whole_lines f \<Longrightarrow> split_lines (f @ g) = split_lines f @ split_lines g"
proof (induction "length f" arbitrary: f rule: less_induct)
  case less
  show ?case
  proof (cases "f = []")
    case False
    with less.prems have "newline \<in> set f" by (metis last_in_set whole_lines_def)
    then obtain l r where f: "f = l @ newline # r" "newline \<notin> set l" by (meson split_list_first)
    have "whole_lines r" using less.prems f(1) by (auto simp: whole_lines_def split: if_splits)
    with less.hyps [of r] f show ?thesis by (simp add: split_lines_line)
  qed simp
qed

lemma recover_lines_append:
  assumes "\<forall>l \<in> set ls. trim l = [] \<or> fj (trim l) \<noteq> None"
  shows "recover_lines fj (ls @ ks) m = recover_lines fj ks (recover_lines fj ls m)"
  using assms by (induction ls arbitrary: m) auto

lemma apply_event_file: "apply_event ev (m\<lparr>mf_file := f\<rparr>) = (apply_event ev m)\<lparr>mf_file := f\<rparr>"
  by (cases ev) simp_all

lemma recover_lines_file: "recover_lines fj ls (m\<lparr>mf_file := f\<rparr>) = (recover_lines fj ls m)\<lparr>mf_file := f\<rparr>"
  by (induction fj ls m rule: recover_lines.induct) (auto simp: apply_event_file split: option.splits)

text \<open>The file is readable throughout and gives the memory state back.\<close>

definition manifest_synced :: "from_json \<Rightarrow> manifest \<Rightarrow> bool" where
  "manifest_synced fj m \<longleftrightarrow> whole_lines (manifest_contents m) \<and>
     (\<forall>l \<in> set (split_lines (manifest_contents m)). trim l = [] \<or> fj (trim l) \<noteq> None) \<and>
     recover_lines fj (split_lines (manifest_contents m)) \<lparr>mf_file = mf_file m, mf_active = [], mf_pending = []\<rparr> = m"

lemma synced_open: "manifest_synced fj m \<Longrightarrow> manifest_open fj (mf_file m) = m"
  by (auto simp: manifest_synced_def manifest_open_def manifest_recover_def manifest_contents_def
      Let_def split: option.splits)

lemma synced_append:
  assumes "json_line_ok tj fj ev" "manifest_synced fj m" "append_event tj WritesAll ev m = (m1, ok)"
  shows "ok" "manifest_synced fj (apply_event ev m1)" "mf_active m1 = mf_active m"
    "mf_pending m1 = mf_pending m"
proof -
  obtain l where l: "tj ev = Some l" "fj l = Some ev" "l \<noteq> []" "newline \<notin> set l" "trim l = l"
    using assms(1) by (auto simp: json_line_ok_def split: option.splits)
  let ?f = "manifest_contents m @ l @ [newline]"
  have m1: "m1 = m\<lparr>mf_file := Some ?f\<rparr>" "ok" using assms(3) l(1) by (auto simp: append_event_def)
  then show "ok" "mf_active m1 = mf_active m" "mf_pending m1 = mf_pending m" by simp_all
  have c: "manifest_contents (apply_event ev m1) = ?f" "mf_file (apply_event ev m1) = Some ?f"
    by (cases ev; simp add: m1 manifest_contents_def)+
  have sp: "split_lines ?f = split_lines (manifest_contents m) @ [l]"
    using assms(2) split_lines_line [OF l(4), of "[]"]
    by (simp add: manifest_synced_def split_lines_append)
  have old: "recover_lines fj (split_lines (manifest_contents m))
      \<lparr>mf_file = Some ?f, mf_active = [], mf_pending = []\<rparr> = m1"
    using recover_lines_file [of fj "split_lines (manifest_contents m)"
        "Some ?f" "\<lparr>mf_file = mf_file m, mf_active = [], mf_pending = []\<rparr>"] assms(2)
    by (simp add: manifest_synced_def m1)
  have "recover_lines fj (split_lines ?f) \<lparr>mf_file = Some ?f, mf_active = [], mf_pending = []\<rparr> =
      recover_lines fj [l] m1"
    unfolding sp old [symmetric] using assms(2)
    by (intro recover_lines_append) (simp add: manifest_synced_def)
  also have "\<dots> = apply_event ev m1" using l by simp
  finally show "manifest_synced fj (apply_event ev m1)"
    using assms(2) l unfolding manifest_synced_def c sp by (auto simp: whole_lines_def)
qed

lemma those_map_Some: "(\<And>x. x \<in> set xs \<Longrightarrow> f x = Some (g x)) \<Longrightarrow> those (map f xs) = Some (map g xs)"
  by (induction xs) auto

text \<open>A rewritten file lists the active tables and nothing else.\<close>

lemma synced_rewrite:
  assumes "list_all (\<lambda>s. json_line_ok tj fj (EvAdd s)) (mf_active m)" "mf_pending m = []"
  shows "\<exists>m'. atomic_rewrite tj True m = (m', True) \<and> manifest_synced fj m' \<and> mf_active m' = mf_active m"
proof -
  define g where "g s = the (tj (EvAdd s))" for s
  have g: "tj (EvAdd s) = Some (g s)" "fj (g s) = Some (EvAdd s)" "g s \<noteq> []" "newline \<notin> set (g s)"
      "trim (g s) = g s" if "s \<in> set (mf_active m)" for s
    using assms(1) that by (auto simp: json_line_ok_def g_def list_all_iff split: option.splits)
  let ?f = "\<lambda>xs. concat (map (\<lambda>s. g s @ [newline]) xs)"
  have sp: "set xs \<subseteq> set (mf_active m) \<Longrightarrow> split_lines (?f xs) = map g xs" for xs
    using g(4) by (induction xs) (simp_all add: split_lines_line)
  have whole: "whole_lines (?f xs)" for xs
    by (induction xs rule: rev_induct) (auto simp: whole_lines_def)
  have rec: "set xs \<subseteq> set (mf_active m) \<Longrightarrow>
      recover_lines fj (map g xs) n = n\<lparr>mf_active := mf_active n @ xs\<rparr>" for xs n
    using g by (induction xs arbitrary: n) simp_all
  let ?m = "m\<lparr>mf_file := Some (?f (mf_active m))\<rparr>"
  have "atomic_rewrite tj True m = (?m, True)"
    using those_map_Some [of "mf_active m" "\<lambda>s. tj (EvAdd s)" g] g(1)
    by (simp add: atomic_rewrite_def comp_def)
  moreover have "manifest_synced fj ?m"
    using whole g sp assms(2) by (simp add: manifest_synced_def manifest_contents_def rec)
  ultimately show ?thesis by auto
qed

section \<open>Sequences of operations\<close>

datatype manifest_op =
    OpAdd sst_ref
  | OpRemove uuid u32
  | OpBegin uuid "uuid list" u32

fun op_event :: "manifest_op \<Rightarrow> manifest_event" where
  "op_event (OpAdd s) = EvAdd s"
| "op_event (OpRemove i lvl) = EvRemove i lvl"
| "op_event (OpBegin cid ids lvl) = EvCompactionBegin cid ids lvl"

fun run_op :: "to_json \<Rightarrow> manifest_op \<times> append_io \<Rightarrow> manifest \<Rightarrow> manifest" where
  "run_op tj (OpAdd s, io) m = fst (add_sst tj io s m)"
| "run_op tj (OpRemove i lvl, io) m = fst (remove_sst tj io i lvl m)"
| "run_op tj (OpBegin cid ids lvl, io) m = fst (begin_compaction tj io cid ids lvl m)"

lemma run_op_apply:
  "run_op tj (op, io) m =
     (if snd (append_event tj io (op_event op) m)
      then apply_event (op_event op) (fst (append_event tj io (op_event op) m))
      else fst (append_event tj io (op_event op) m))"
  by (cases op) (auto simp: add_sst_def remove_sst_def begin_compaction_def split: prod.splits bool.splits)

definition clean_io :: "append_io \<Rightarrow> bool" where
  "clean_io io \<longleftrightarrow> io = OpenFails \<or> io = WritesAll"

lemma synced_op [step_inv]:
  assumes ok: "json_line_ok tj fj (op_event op)" and m: "manifest_synced fj m" and io: "clean_io io"
  shows "manifest_synced fj (run_op tj (op, io) m)"
proof (cases "io = WritesAll")
  case False
  then show ?thesis using m io by (simp add: run_op_apply append_event_def clean_io_def)
next
  case True
  obtain m1 b where m1: "append_event tj WritesAll (op_event op) m = (m1, b)" by force
  from synced_append [OF ok m m1] True m1 show ?thesis by (simp add: run_op_apply)
qed

lemma synced_new: "manifest_synced fj \<lparr>mf_file = None, mf_active = [], mf_pending = []\<rparr>"
  by (simp add: manifest_synced_def manifest_contents_def whole_lines_def)

lemma synced_ops:
  "list_all (\<lambda>op. json_line_ok tj fj (op_event (fst op)) \<and> clean_io (snd op)) ops \<Longrightarrow> manifest_synced fj m \<Longrightarrow>
   manifest_synced fj (fold (run_op tj) ops m)"
proof (induction ops arbitrary: m)
  case Nil
  then show ?case by simp
next
  case (Cons op ops)
  then show ?case using synced_op [of tj fj "fst op" m "snd op"] by simp
qed

text \<open>A proper prefix of the JSON text of an event is not JSON.\<close>

definition json_prefix_ok :: "to_json \<Rightarrow> from_json \<Rightarrow> manifest_event \<Rightarrow> bool" where
  "json_prefix_ok tj fj ev =
     (case tj ev of
        None \<Rightarrow> False
      | Some l \<Rightarrow> list_all (\<lambda>k. trim (take k l) = [] \<or> fj (trim (take k l)) = None) [0..<length l])"

text \<open>Reading a file that ends in a torn line: the line is ignored, unless only its newline is
  missing.\<close>

lemma torn_open:
  assumes ok: "json_line_ok tj fj ev" and pre: "json_prefix_ok tj fj ev" and m: "manifest_synced fj m"
    and t: "append_event tj (WriteFails k) ev m = (m1, b)"
  shows "\<not> b" "manifest_open fj (mf_file m1) = (if length (the (tj ev)) \<le> k then apply_event ev m1 else m1)"
proof -
  obtain l where l: "tj ev = Some l" "fj l = Some ev" "l \<noteq> []" "newline \<notin> set l" "trim l = l"
    using ok by (auto simp: json_line_ok_def split: option.splits)
  let ?f = "manifest_contents m @ take k l"
  have m1: "m1 = m\<lparr>mf_file := Some ?f\<rparr>" and b: "\<not> b" using t l(1) by (auto simp: append_event_def)
  show "\<not> b" by (rule b)
  have piece: "split_lines (take k l) = (if take k l = [] then [] else [take k l])"
  proof -
    have "newline \<notin> set (take k l)" using l(4) by (blast dest: in_set_takeD)
    then have "takeWhile (\<lambda>c. c \<noteq> newline) (take k l) = take k l" "dropWhile (\<lambda>c. c \<noteq> newline) (take k l) = []"
      by (auto simp: takeWhile_eq_all_conv dropWhile_eq_Nil_conv)
    then show ?thesis by (subst split_lines.simps) (simp only: tl_Nil list.sel split_lines_Nil if_cancel)
  qed
  have "manifest_open fj (mf_file m1) =
      recover_lines fj (split_lines (manifest_contents m) @ split_lines (take k l)) \<lparr>mf_file = Some ?f, mf_active = [], mf_pending = []\<rparr>"
    using m by (simp add: m1 manifest_open_def manifest_recover_def manifest_contents_def manifest_synced_def split_lines_append)
  also have "\<dots> = recover_lines fj (split_lines (take k l))
      (recover_lines fj (split_lines (manifest_contents m)) \<lparr>mf_file = Some ?f, mf_active = [], mf_pending = []\<rparr>)"
    using m by (intro recover_lines_append) (simp add: manifest_synced_def)
  also have "recover_lines fj (split_lines (manifest_contents m)) \<lparr>mf_file = Some ?f, mf_active = [], mf_pending = []\<rparr> = m1"
    using recover_lines_file [of fj "split_lines (manifest_contents m)" "Some ?f"
        "\<lparr>mf_file = mf_file m, mf_active = [], mf_pending = []\<rparr>"] m
    by (simp add: manifest_synced_def m1)
  finally have "manifest_open fj (mf_file m1) = recover_lines fj (split_lines (take k l)) m1" .
  moreover have "trim (take k l) = [] \<or> fj (trim (take k l)) = None" if "k < length l"
    using pre that l(1) by (simp add: json_prefix_ok_def list_all_iff)
  ultimately show "manifest_open fj (mf_file m1) = (if length (the (tj ev)) \<le> k then apply_event ev m1 else m1)"
    using l unfolding piece by (auto simp: not_le split: option.splits)
qed

section \<open>Properties\<close>

text \<open>C6. The MANIFEST survives a crash. After additions, removals and compaction starts whose
  appends went through or could not open the file, reopening the file restores exactly the active
  tables and pending compactions held in memory. If the last append then stops inside its write and
  returns an error, reopening still restores the state held in memory, with one exception: when only
  the newline of the line is missing, the event is applied although the caller was told it failed.\<close>

theorem manifest_reopen_restores:
  assumes "list_all (\<lambda>op. json_line_ok tj fj (op_event (fst op)) \<and> clean_io (snd op)) ops"
    and "json_line_ok tj fj (op_event last_op)" and "json_prefix_ok tj fj (op_event last_op)"
  shows "let m = fold (run_op tj) ops (manifest_open fj None);
             m' = run_op tj (last_op, io) m
         in manifest_open fj (mf_file m) = m \<and>
            manifest_open fj (mf_file m') =
              (case io of
                 WriteFails k \<Rightarrow> if length (the (tj (op_event last_op))) \<le> k then apply_event (op_event last_op) m' else m'
               | _ \<Rightarrow> m')"
proof -
  define m where "m = fold (run_op tj) ops (manifest_open fj None)"
  have "manifest_open fj None = \<lparr>mf_file = None, mf_active = [], mf_pending = []\<rparr>"
    by (simp add: manifest_open_def)
  then have m: "manifest_synced fj m" unfolding m_def using synced_ops [OF assms(1) synced_new] by simp
  have "manifest_open fj (mf_file (run_op tj (last_op, io) m)) =
      (case io of
         WriteFails k \<Rightarrow> if length (the (tj (op_event last_op))) \<le> k
           then apply_event (op_event last_op) (run_op tj (last_op, io) m) else run_op tj (last_op, io) m
       | _ \<Rightarrow> run_op tj (last_op, io) m)"
  proof (cases io)
    case (WriteFails k)
    obtain m1 b where m1: "append_event tj (WriteFails k) (op_event last_op) m = (m1, b)" by force
    note torn = torn_open [OF assms(2,3) m m1]
    then have "run_op tj (last_op, io) m = m1" using m1 WriteFails by (simp add: run_op_apply)
    with torn(2) WriteFails show ?thesis by simp
  qed (use synced_open [OF synced_op [OF assms(2) m, of io]] in \<open>simp_all add: clean_io_def\<close>)
  with synced_open [OF m] show ?thesis unfolding m_def Let_def by blast
qed

text \<open>C39. Completing a compaction is not persisted: when file and memory agreed before
  and the file has not outgrown 16 MiB, which would rewrite it, reopening the MANIFEST after a completed compaction restores the tables that
  were active before it, so the removed inputs are back and the outputs are gone.\<close>

theorem complete_compaction_not_persisted:
  assumes "json_line_ok tj fj (EvCompactionEnd cid output_ids)" and "manifest_synced fj m"
    and "\<not> should_rewrite (fst (append_event tj WritesAll (EvCompactionEnd cid output_ids) m))"
  shows "\<exists>m'. complete_compaction tj (WritesAll, True) cid output_ids removed_ids added m = (m', True) \<and>
    mf_active (manifest_open fj (mf_file m')) = mf_active m \<and>
    mf_active m' = fold (\<lambda>i. filter (\<lambda>s. sst_id s \<noteq> i)) removed_ids (mf_active m) @ added"
proof -
  let ?act = "fold (\<lambda>i. filter (\<lambda>s. sst_id s \<noteq> i)) removed_ids (mf_active m) @ added"
  let ?ev = "EvCompactionEnd cid output_ids"
  let ?m1 = "m\<lparr>mf_active := ?act, mf_pending := filter (\<lambda>p. pcp_id p \<noteq> cid) (mf_pending m)\<rparr>"
  obtain m1 where m1: "append_event tj WritesAll ?ev m = (m1, True)"
    using synced_append(1) [OF assms(1,2)] by (metis (full_types) surj_pair)
  note s = synced_append [OF assms(1,2) m1]
  obtain m2 where m2: "append_event tj WritesAll ?ev ?m1 = (m2, True)" "mf_file m2 = mf_file m1" "mf_active m2 = ?act"
    using m1 by (auto simp: append_event_def manifest_contents_def split: option.splits)
  have "\<not> should_rewrite m2" using assms(3) m1 m2(2) by (simp add: should_rewrite_def)
  with m2(1) have "complete_compaction tj (WritesAll, True) cid output_ids removed_ids added m = (m2, True)"
    by (simp add: complete_compaction_def Let_def)
  moreover have "manifest_open fj (mf_file m2) = apply_event ?ev m1"
    using synced_open [OF s(2)] m2(2) by simp
  ultimately show ?thesis using m2(3) s(3) by simp
qed

text \<open>A torn last line hides everything written after it: the next event is appended to
  the same line, and if that line does not parse, recovery ends there and ignores all
  later events.\<close>

lemma manifest_torn_line_hides_later_events:
  assumes "whole_lines f" and "newline \<notin> set torn" and "newline \<notin> set line" and "torn \<noteq> []"
    and "trim (torn @ line) \<noteq> []" and "fj (trim (torn @ line)) = None"
    and "list_all (\<lambda>l. trim l = [] \<or> fj (trim l) \<noteq> None) (split_lines f)"
  shows "mf_active (manifest_open fj (Some (f @ torn @ line @ [newline] @ later))) =
    mf_active (manifest_open fj (Some f))"
proof -
  have "split_lines (f @ (torn @ line) @ newline # later) = split_lines f @ (torn @ line) # split_lines later"
    using split_lines_append [OF assms(1)] split_lines_line [of "torn @ line" later] assms(2,3) by simp
  moreover have "recover_lines fj (split_lines f @ (torn @ line) # split_lines later) m = recover_lines fj (split_lines f) m" for m
    using recover_lines_append [of "split_lines f" fj] assms(5-7) by (simp add: list_all_iff)
  moreover have "mf_active (recover_lines fj ls \<lparr>mf_file = g, mf_active = [], mf_pending = []\<rparr>) =
      mf_active (recover_lines fj ls \<lparr>mf_file = h, mf_active = [], mf_pending = []\<rparr>)" for ls g h
    using recover_lines_file [of fj ls g "\<lparr>mf_file = h, mf_active = [], mf_pending = []\<rparr>"] by simp
  ultimately show ?thesis
    by (simp add: manifest_open_def manifest_recover_def manifest_contents_def)
qed

text \<open>A codec for three events, enough to instantiate the hypotheses.\<close>

definition sample_to_json :: to_json where
  "sample_to_json ev =
     (if ev = EvAdd (sample_sst 1 0 [1] [3]) then Some ''a''
      else if ev = EvRemove 1 0 then Some ''r''
      else if ev = EvCompactionEnd 7 [2] then Some ''e'' else None)"

definition sample_from_json :: from_json where
  "sample_from_json l =
     (if l = ''a'' then Some (EvAdd (sample_sst 1 0 [1] [3]))
      else if l = ''r'' then Some (EvRemove 1 0)
      else if l = ''e'' then Some (EvCompactionEnd 7 [2]) else None)"

lemmas sample_json = sample_to_json_def sample_from_json_def json_line_ok_def json_prefix_ok_def clean_io_def
  trim_def is_space_def newline_def

theorem manifest_reopen_restores_witness:
  "let m = fold (run_op sample_to_json) [(OpAdd (sample_sst 1 0 [1] [3]), WritesAll)] (manifest_open sample_from_json None);
       m' = run_op sample_to_json (OpRemove 1 0, WriteFails 1) m
   in mf_active m' = [sample_sst 1 0 [1] [3]] \<and> manifest_open sample_from_json (mf_file m) = m \<and>
      mf_active (manifest_open sample_from_json (mf_file m')) = []"
  using manifest_reopen_restores [of sample_to_json sample_from_json
      "[(OpAdd (sample_sst 1 0 [1] [3]), WritesAll)]" "OpRemove 1 0" "WriteFails 1"]
  by (simp add: Let_def sample_json add_sst_def remove_sst_def append_event_def manifest_open_def sample_sst_def)

theorem complete_compaction_not_persisted_witness:
  "let m = fst (add_sst sample_to_json WritesAll (sample_sst 1 0 [1] [3]) (manifest_open sample_from_json None))
   in \<exists>m'. complete_compaction sample_to_json (WritesAll, True) 7 [2] [1] [sample_sst 2 1 [1] [3]] m = (m', True) \<and>
        mf_active (manifest_open sample_from_json (mf_file m')) = [sample_sst 1 0 [1] [3]] \<and>
        mf_active m' = [sample_sst 2 1 [1] [3]]"
proof -
  let ?s = "sample_sst 1 0 [1] [3]"
  let ?start = "\<lparr>mf_file = None, mf_active = [], mf_pending = []\<rparr>"
  let ?m = "fst (add_sst sample_to_json WritesAll ?s ?start)"
  have m: "?m = \<lparr>mf_file = Some (''a'' @ [newline]), mf_active = [?s], mf_pending = []\<rparr>"
    by (simp add: add_sst_def append_event_def sample_json manifest_contents_def)
  have "manifest_synced sample_from_json ?m"
    using synced_op [of sample_to_json sample_from_json "OpAdd ?s" ?start WritesAll] synced_new
    by (simp add: sample_json)
  moreover have "json_line_ok sample_to_json sample_from_json (EvCompactionEnd 7 [2])"
    by (simp add: sample_json)
  moreover have "\<not> should_rewrite (fst (append_event sample_to_json WritesAll (EvCompactionEnd 7 [2]) ?m))"
    unfolding m by (simp add: should_rewrite_def append_event_def manifest_contents_def sample_json)
  moreover have act: "mf_active ?m = [?s]" unfolding m by simp
  moreover have "fold (\<lambda>i. filter (\<lambda>s. sst_id s \<noteq> i)) [1] [?s] = []" by (simp add: sample_sst_def)
  moreover have "manifest_open sample_from_json None = ?start" by (simp add: manifest_open_def)
  ultimately show ?thesis
    using complete_compaction_not_persisted [of sample_to_json sample_from_json 7 "[2]" ?m "[1]" "[sample_sst 2 1 [1] [3]]"]
    unfolding Let_def by simp
qed

end
