(* ===== verification/Compaction.thy ===== *)
theory Compaction
  imports Manifest
begin

text \<open>
  Leveled compaction of one partition (\<open>storage-node/src/lsm/compaction.rs\<close>): choice of
  inputs, the metadata merge with its TTL filter and splitting, and the update of
  MANIFEST and levels. Random identifiers and the clock are arguments. A panic (an
  index out of range, a division by zero) is \<open>None\<close>.
\<close>

section \<open>State\<close>

record ttl_config =
  ttl_column :: string
  ttl_seconds :: u64

record compaction_job =
  job_id :: uuid
  job_input_level :: u32
  job_output_level :: u32
  job_inputs :: "sst_ref list"

record partition_compactor =
  pc_partition_dir :: string
  pc_levels :: partition_levels
  pc_manifest :: manifest
  pc_config :: compaction_config
  pc_ttl :: "ttl_config option"

record compaction_result =
  cr_compaction_id :: uuid
  cr_removed_ids :: "uuid list"
  cr_output_ids :: "uuid list"

fun levels_add_all :: "sst_ref list \<Rightarrow> partition_levels \<Rightarrow> partition_levels option" where
  "levels_add_all [] p = Some p"
| "levels_add_all (s # ssts) p =
     (case levels_add s p of None \<Rightarrow> None | Some p' \<Rightarrow> levels_add_all ssts p')"

definition compactor_new ::
  "from_json \<Rightarrow> string \<Rightarrow> string option \<Rightarrow> compaction_config \<Rightarrow> ttl_config option \<Rightarrow> partition_compactor option" where
  "compactor_new fj dir manifest_file cfg ttl =
     (let m = manifest_open fj manifest_file
      in case levels_add_all (mf_active m) (levels_new cfg) of
           None \<Rightarrow> None
         | Some p \<Rightarrow> Some \<lparr>pc_partition_dir = dir, pc_levels = p, pc_manifest = m, pc_config = cfg, pc_ttl = ttl\<rparr>)"

definition register_flush ::
  "to_json \<Rightarrow> append_io \<Rightarrow> sst_ref \<Rightarrow> partition_compactor \<Rightarrow> (partition_compactor \<times> bool) option" where
  "register_flush tj io s pc =
     (case add_sst tj io s (pc_manifest pc) of
        (m, False) \<Rightarrow> Some (pc\<lparr>pc_manifest := m\<rparr>, False)
      | (m, True) \<Rightarrow>
          (case levels_add s (pc_levels pc) of
             None \<Rightarrow> None
           | Some p \<Rightarrow> Some (pc\<lparr>pc_manifest := m, pc_levels := p\<rparr>, True)))"

section \<open>Choosing inputs\<close>

definition pick_l0_compaction :: "uuid \<Rightarrow> partition_compactor \<Rightarrow> compaction_job option" where
  "pick_l0_compaction new_id pc =
     (let l0 = pl_levels (pc_levels pc) ! 0
      in if length l0 < l0_file_compaction_trigger (pc_config pc) then None
         else Some \<lparr>job_id = new_id, job_input_level = 0, job_output_level = 1, job_inputs = l0\<rparr>)"

definition pick_ln_compaction :: "uuid \<Rightarrow> nat \<Rightarrow> partition_compactor \<Rightarrow> compaction_job option" where
  "pick_ln_compaction new_id lvl pc =
     (let levels = pl_levels (pc_levels pc)
      in if length levels \<le> lvl then None
         else (case min_by_key sst_sequence_num (levels ! lvl) of
                 None \<Rightarrow> None
               | Some input \<Rightarrow>
                   (let next_lvl = lvl + 1;
                        overlapping = (if next_lvl < length levels
                                       then filter (overlaps_with input) (levels ! next_lvl) else [])
                    in Some \<lparr>job_id = new_id, job_input_level = of_nat lvl,
                             job_output_level = of_nat next_lvl, job_inputs = input # overlapping\<rparr>)))"

definition pick_compaction :: "uuid \<Rightarrow> partition_compactor \<Rightarrow> compaction_job option" where
  "pick_compaction new_id pc =
     (case highest_priority_level (pc_levels pc) of
        None \<Rightarrow> None
      | Some lvl \<Rightarrow> if lvl = 0 then pick_l0_compaction new_id pc else pick_ln_compaction new_id lvl pc)"

section \<open>Merging\<close>

definition ttl_keeps :: "ttl_config option \<Rightarrow> u64 \<Rightarrow> sst_ref \<Rightarrow> bool" where
  "ttl_keeps ttl now_secs s =
     (case ttl of
        None \<Rightarrow> True
      | Some t \<Rightarrow>
          if 8 \<le> length (sst_min_sort_key s)
          then now_secs < from_be (take 8 (sst_min_sort_key s)) + ttl_seconds t
          else True)"

definition compacted_path :: "string \<Rightarrow> u32 \<Rightarrow> u64 \<Rightarrow> nat \<Rightarrow> string" where
  "compacted_path dir lvl sq idx =
     dir @ ''/lsm/L'' @ show_nat (unat lvl) @ ''/compacted-'' @ show_pad10 (unat sq) @ ''-'' @
     show_nat idx @ ''.col''"

definition merge_sort_inputs ::
  "u64 \<Rightarrow> (nat \<Rightarrow> uuid) \<Rightarrow> partition_compactor \<Rightarrow> compaction_job \<Rightarrow> sst_ref list option" where
  "merge_sort_inputs now_secs new_id pc job =
     (if job_inputs job = [] then Some []
      else
        (let valid_inputs = filter (ttl_keeps (pc_ttl pc) now_secs) (job_inputs job)
         in if valid_inputs = [] then Some []
            else
              (let max_seq = the (iter_max (map sst_sequence_num valid_inputs));
                   max_gen = the (iter_max (map sst_generation valid_inputs));
                   min_key = the (iter_min (map sst_min_sort_key valid_inputs));
                   max_key = the (iter_max (map sst_max_sort_key valid_inputs));
                   total_rows = sum_list (map sst_row_count valid_inputs);
                   total_size = sum_list (map sst_size_bytes valid_inputs);
                   compacted_from = map sst_id (job_inputs job);
                   target = target_file_size_bytes (pc_config pc)
               in if target = 0 then None
                  else
                    (let split_count = unat (max ((total_size + target - 1) div target) 1)
                     in Some (map (\<lambda>split_idx.
                          \<lparr>sst_id = new_id split_idx, sst_sequence_num = max_seq,
                           sst_generation = max_gen + 1, sst_compacted_from = compacted_from,
                           sst_level = job_output_level job,
                           sst_path = compacted_path (pc_partition_dir pc) (job_output_level job) max_seq split_idx,
                           sst_size_bytes = total_size div of_nat split_count,
                           sst_row_count = total_rows div of_nat split_count,
                           sst_min_sort_key = min_key, sst_max_sort_key = max_key\<rparr>)
                        [0..<split_count])))))"

section \<open>Running a job\<close>

definition run_compaction ::
  "to_json \<Rightarrow> append_io \<Rightarrow> append_io \<times> bool \<Rightarrow> u64 \<Rightarrow> (nat \<Rightarrow> uuid) \<Rightarrow> compaction_job \<Rightarrow> partition_compactor \<Rightarrow>
   (partition_compactor \<times> compaction_result option) option" where
  "run_compaction tj io_begin io_end now_secs new_id job pc =
     (let input_ids = map sst_id (job_inputs job)
      in case begin_compaction tj io_begin (job_id job) input_ids (job_output_level job) (pc_manifest pc) of
           (m1, False) \<Rightarrow> Some (pc\<lparr>pc_manifest := m1\<rparr>, None)
         | (m1, True) \<Rightarrow>
             (case merge_sort_inputs now_secs new_id pc job of
                None \<Rightarrow> None
              | Some output_ssts \<Rightarrow>
                  (let output_ids = map sst_id output_ssts
                   in case complete_compaction tj io_end (job_id job) output_ids input_ids output_ssts m1 of
                        (m2, False) \<Rightarrow> Some (pc\<lparr>pc_manifest := m2\<rparr>, None)
                      | (m2, True) \<Rightarrow>
                          (case levels_add_all output_ssts (fold levels_remove input_ids (pc_levels pc)) of
                             None \<Rightarrow> None
                           | Some p \<Rightarrow>
                               Some (pc\<lparr>pc_manifest := m2, pc_levels := p\<rparr>,
                                     Some \<lparr>cr_compaction_id = job_id job, cr_removed_ids = input_ids,
                                           cr_output_ids = output_ids\<rparr>)))))"

text \<open>One turn of the background worker on a partition.\<close>

definition worker_turn ::
  "to_json \<Rightarrow> append_io \<Rightarrow> append_io \<times> bool \<Rightarrow> u64 \<Rightarrow> uuid \<Rightarrow> (nat \<Rightarrow> uuid) \<Rightarrow> partition_compactor \<Rightarrow> partition_compactor option" where
  "worker_turn tj io_begin io_end now_secs cid new_id pc =
     (case pick_compaction cid pc of
        None \<Rightarrow> Some pc
      | Some job \<Rightarrow> map_option fst (run_compaction tj io_begin io_end now_secs new_id job pc))"

section \<open>Levels under removal and addition\<close>

lemma fold_levels_remove:
  "pl_levels (fold levels_remove ids p) = map (filter (\<lambda>s. sst_id s \<notin> set ids)) (pl_levels p)"
  by (induction ids arbitrary: p)
    (auto simp: levels_remove_def comp_def conj_commute intro!: map_idI [symmetric] map_cong filter_cong)

lemma levels_add_Some:
  assumes "levels_add s p = Some p'"
  shows "unat (sst_level s) < length (pl_levels p)"
    "\<exists>level. pl_levels p' = (pl_levels p)[unat (sst_level s) := level] \<and>
       mset level = add_mset s (mset (pl_levels p ! unat (sst_level s)))"
  using assms by (auto simp: levels_add_def Let_def split: if_splits)

lemma levels_add_mset:
  assumes "levels_add s p = Some p'"
  shows "mset (read_snapshot p') = add_mset s (mset (read_snapshot p))"
proof -
  from levels_add_Some [OF assms] obtain level where l: "unat (sst_level s) < length (pl_levels p)"
      "pl_levels p' = (pl_levels p)[unat (sst_level s) := level]"
      "mset level = add_mset s (mset (pl_levels p ! unat (sst_level s)))" by blast
  have "mset (concat (xs[i := y])) + mset (xs ! i) = mset (concat xs) + mset y" if "i < length xs" for xs :: "sst_ref list list" and i y
    using that by (induction xs arbitrary: i) (auto simp: nth_Cons ac_simps split: nat.splits)
  from this [OF l(1), of level] l(2,3) show ?thesis by (simp add: read_snapshot_def)
qed

lemma levels_add_all_mset:
  "levels_add_all ssts p = Some p' \<Longrightarrow> mset (read_snapshot p') = mset (read_snapshot p) + mset ssts"
proof (induction ssts arbitrary: p)
  case Nil
  then show ?case by simp
next
  case (Cons s ssts)
  then show ?case by (auto simp: levels_add_mset split: option.splits)
qed

lemma disjoint_level_filter: "disjoint_level xs \<Longrightarrow> disjoint_level (filter P xs)"
  unfolding disjoint_level_def by (rule sorted_wrt_filter)

lemma non_overlapping_remove: "non_overlapping p \<Longrightarrow> non_overlapping (fold levels_remove ids p)"
  unfolding non_overlapping_def fold_levels_remove
  by (auto simp: list_all_iff drop_map intro: disjoint_level_filter)

lemma verify_iff: "verify_non_overlapping p = Inr () \<longleftrightarrow> non_overlapping p"
  using first_violation_None [of 1 "drop 1 (pl_levels p)"]
  by (auto simp: verify_non_overlapping_def non_overlapping_def split: option.splits)

lemma non_overlapping_nth:
  "non_overlapping p \<longleftrightarrow> (\<forall>i. 1 \<le> i \<and> i < length (pl_levels p) \<longrightarrow> disjoint_level (pl_levels p ! i))"
  unfolding non_overlapping_def by (rule list_all_drop1)

lemma non_overlapping_add:
  assumes "non_overlapping p" "levels_add s p = Some p'"
    and "\<forall>t \<in> set (pl_levels p ! unat (sst_level s)). \<not> overlaps_with s t"
  shows "non_overlapping p'"
proof -
  from levels_add_Some [OF assms(2)] obtain level where l: "unat (sst_level s) < length (pl_levels p)"
      "pl_levels p' = (pl_levels p)[unat (sst_level s) := level]"
      "mset level = mset (s # pl_levels p ! unat (sst_level s))" by auto
  have "disjoint_level level" if "1 \<le> unat (sst_level s)"
    using assms(1,3) l(1) that unfolding disjoint_level_mset [OF l(3)] non_overlapping_nth
    by (simp add: disjoint_level_def)
  with assms(1) l(1) show ?thesis
    unfolding non_overlapping_nth l(2) by (auto simp: nth_list_update)
qed

section \<open>The merged range\<close>

lemma merge_single:
  assumes "merge_sort_inputs now new_id pc job = Some outs" "out \<in> set outs"
  shows "sst_level out = job_output_level job"
    "\<exists>s \<in> set (job_inputs job). sst_min_sort_key out = sst_min_sort_key s"
    "\<exists>s \<in> set (job_inputs job). sst_max_sort_key out = sst_max_sort_key s"
    "\<forall>s \<in> set (job_inputs job). ttl_keeps (pc_ttl pc) now s \<longrightarrow>
       sst_min_sort_key out \<le> sst_min_sort_key s \<and> sst_max_sort_key s \<le> sst_max_sort_key out"
proof -
  let ?v = "filter (ttl_keeps (pc_ttl pc) now) (job_inputs job)"
  have v: "?v \<noteq> []" and out: "sst_level out = job_output_level job"
      "sst_min_sort_key out = the (iter_min (map sst_min_sort_key ?v))"
      "sst_max_sort_key out = the (iter_max (map sst_max_sort_key ?v))"
    using assms by (auto simp: merge_sort_inputs_def Let_def split: if_splits)
  obtain lo hi where lo: "iter_min (map sst_min_sort_key ?v) = Some lo"
      and hi: "iter_max (map sst_max_sort_key ?v) = Some hi"
    using v by (metis iter_max_None iter_min_None map_is_Nil_conv not_None_eq)
  from iter_min_Some [OF lo] iter_max_Some [OF hi] out lo hi
  show "sst_level out = job_output_level job"
    "\<exists>s \<in> set (job_inputs job). sst_min_sort_key out = sst_min_sort_key s"
    "\<exists>s \<in> set (job_inputs job). sst_max_sort_key out = sst_max_sort_key s"
    "\<forall>s \<in> set (job_inputs job). ttl_keeps (pc_ttl pc) now s \<longrightarrow>
       sst_min_sort_key out \<le> sst_min_sort_key s \<and> sst_max_sort_key s \<le> sst_max_sort_key out"
    by auto
qed

text \<open>A table that overlaps neither the chosen input nor any table the input overlaps
  does not overlap their common range.\<close>

lemma hull_disjoint:
  assumes r: "sst_min_sort_key r \<le> sst_max_sort_key r" "\<not> overlaps_with input r"
    and sel: "\<forall>s \<in> S. overlaps_with input s \<and> \<not> overlaps_with s r"
    and lo: "\<exists>s \<in> insert input S. sst_min_sort_key out = sst_min_sort_key s"
    and hi: "\<exists>s \<in> insert input S. sst_max_sort_key out = sst_max_sort_key s"
  shows "\<not> overlaps_with out r"
proof (cases "sst_max_sort_key r < sst_min_sort_key input")
  case True
  have "sst_max_sort_key r < sst_min_sort_key s" if "s \<in> insert input S" for s
    using that True sel r(1) by (fastforce simp: overlaps_with_def)
  with lo show ?thesis by (auto simp: overlaps_with_def not_le)
next
  case False
  with r(2) have right: "sst_max_sort_key input < sst_min_sort_key r" by (auto simp: overlaps_with_def)
  have "sst_max_sort_key s < sst_min_sort_key r" if "s \<in> insert input S" for s
    using that right sel r(1) by (fastforce simp: overlaps_with_def)
  with hi show ?thesis by (auto simp: overlaps_with_def not_le)
qed

lemma run_compaction_parts:
  assumes "run_compaction tj io_begin io_end now new_id job pc = Some (pc', Some res)"
  obtains outs m1 m2 where "merge_sort_inputs now new_id pc job = Some outs"
    "begin_compaction tj io_begin (job_id job) (map sst_id (job_inputs job)) (job_output_level job) (pc_manifest pc) = (m1, True)"
    "complete_compaction tj io_end (job_id job) (map sst_id outs) (map sst_id (job_inputs job)) outs m1 = (m2, True)"
    "levels_add_all outs (fold levels_remove (map sst_id (job_inputs job)) (pc_levels pc)) = Some (pc_levels pc')"
    "pc_manifest pc' = m2" "cr_output_ids res = map sst_id outs"
  using assms by (auto simp: run_compaction_def Let_def split: prod.splits bool.splits option.splits)

lemma pick_ln_parts:
  assumes "pick_ln_compaction cid lvl pc = Some job" "lvl + 1 < length (pl_levels (pc_levels pc))"
  obtains input where "input \<in> set (pl_levels (pc_levels pc) ! lvl)"
    "job_inputs job = input # filter (overlaps_with input) (pl_levels (pc_levels pc) ! (lvl + 1))"
    "job_output_level job = of_nat (lvl + 1)"
  using assms min_by_key_Some [of sst_sequence_num "pl_levels (pc_levels pc) ! lvl"]
  by (auto simp: pick_ln_compaction_def Let_def split: if_splits option.splits)

lemma kept_not_overlapping:
  assumes "disjoint_level xs" "r \<in> set xs" "s \<in> set xs" "r \<noteq> s"
  shows "\<not> overlaps_with s r"
  using assms overlaps_sym
  by (induction xs) (auto simp: disjoint_level_def)

lemma complete_compaction_active:
  "complete_compaction tj io_end cid outs ids added m = (m', True) \<Longrightarrow>
   mf_active m' = fold (\<lambda>i. filter (\<lambda>s. sst_id s \<noteq> i)) ids (mf_active m) @ added"
  by (auto simp: complete_compaction_def append_event_def atomic_rewrite_def Let_def
      split: if_splits option.splits append_io.splits prod.splits bool.splits)

lemma those_total: "\<forall>x \<in> set xs. f x \<noteq> None \<Longrightarrow> \<exists>ys. those (map f xs) = Some ys"
  by (induction xs) auto

lemma begin_compaction_total:
  "\<forall>ev. tj ev \<noteq> None \<Longrightarrow> \<exists>m'. begin_compaction tj WritesAll cid ids lvl m = (m', True)"
  by (auto simp: begin_compaction_def append_event_def split: option.splits)

lemma complete_compaction_total:
  "\<forall>ev. tj ev \<noteq> None \<Longrightarrow> \<exists>m'. complete_compaction tj (WritesAll, True) cid outs ids added m = (m', True)"
  using those_total [of "fold (\<lambda>i. filter (\<lambda>s. sst_id s \<noteq> i)) ids (mf_active m) @ added" "\<lambda>s. tj (EvAdd s)"]
  by (auto simp: complete_compaction_def append_event_def atomic_rewrite_def Let_def split: option.splits)

lemma run_compaction_total:
  assumes "\<forall>ev. tj ev \<noteq> None" "merge_sort_inputs now new_id pc job = Some outs"
    and "levels_add_all outs (fold levels_remove (map sst_id (job_inputs job)) (pc_levels pc)) = Some p"
  obtains pc' res where "run_compaction tj WritesAll (WritesAll, True) now new_id job pc = Some (pc', Some res)"
    "pc_levels pc' = p" "cr_output_ids res = map sst_id outs"
proof -
  let ?ids = "map sst_id (job_inputs job)"
  obtain m1 where m1: "begin_compaction tj WritesAll (job_id job) ?ids (job_output_level job) (pc_manifest pc) = (m1, True)"
    using begin_compaction_total [OF assms(1)] by blast
  obtain m2 where "complete_compaction tj (WritesAll, True) (job_id job) (map sst_id outs) ?ids outs m1 = (m2, True)"
    using complete_compaction_total [OF assms(1)] by blast
  with m1 assms(2,3) show thesis by (intro that) (auto simp: run_compaction_def Let_def)
qed

lemma begin_compaction_active:
  "begin_compaction tj io cid ids lvl m = (m', ok) \<Longrightarrow> mf_active m' = mf_active m"
  by (auto simp: begin_compaction_def append_event_def split: if_splits option.splits append_io.splits prod.splits bool.splits)

lemma fold_filter_ids:
  "fold (\<lambda>i. filter (\<lambda>s. sst_id s \<noteq> i)) ids xs = filter (\<lambda>s. sst_id s \<notin> set ids) xs"
  by (induction ids arbitrary: xs) (auto intro: filter_cong)

section \<open>Properties\<close>

text \<open>C9. A compaction from a level above L0 into the next one keeps the levels free of
  overlaps, TTL expiry included, as long as it writes at most one table.\<close>

theorem ln_compaction_keeps_levels_disjoint:
  assumes "verify_non_overlapping (pc_levels pc) = Inr ()"
    and "list_all (\<lambda>s. sst_min_sort_key s \<le> sst_max_sort_key s) (read_snapshot (pc_levels pc))"
    and "lvl + 1 < length (pl_levels (pc_levels pc))" and "length (pl_levels (pc_levels pc)) \<le> 2 ^ 32"
    and "pick_ln_compaction cid lvl pc = Some job"
    and "run_compaction tj io_begin io_end now new_id job pc = Some (pc', Some res)"
    and "length (cr_output_ids res) \<le> 1"
  shows "verify_non_overlapping (pc_levels pc') = Inr ()"
proof -
  let ?ls = "pl_levels (pc_levels pc)" and ?ids = "map sst_id (job_inputs job)"
  let ?p = "fold levels_remove ?ids (pc_levels pc)"
  obtain input where input: "job_inputs job = input # filter (overlaps_with input) (?ls ! (lvl + 1))"
      "job_output_level job = of_nat (lvl + 1)"
    using pick_ln_parts [OF assms(5,3)] by blast
  obtain outs where outs: "merge_sort_inputs now new_id pc job = Some outs"
      "levels_add_all outs ?p = Some (pc_levels pc')" "length outs \<le> 1"
    using run_compaction_parts [OF assms(6)] assms(7) by (metis length_map)
  have disj: "non_overlapping (pc_levels pc)" using assms(1) by (simp add: verify_iff)
  then have rest: "non_overlapping ?p" by (rule non_overlapping_remove)
  have lvl: "unat (of_nat (lvl + 1) :: u32) = lvl + 1"
    using assms(3,4) by (intro unat_u32_of_nat) linarith
  have kept: "\<not> overlaps_with out r"
    if out: "out \<in> set outs" and r: "r \<in> set (pl_levels ?p ! unat (sst_level out))" for out r
  proof (rule hull_disjoint [where S = "set (filter (overlaps_with input) (?ls ! (lvl + 1)))"])
    note m = merge_single [OF outs(1) out]
    have r': "r \<in> set (?ls ! (lvl + 1))" "sst_id r \<notin> set ?ids"
      using r assms(3) m(1) input(2) lvl by (simp_all add: fold_levels_remove)
    then have "r \<notin> set (job_inputs job)" by auto
    then show ov: "\<not> overlaps_with input r" using r'(1) input(1) by auto
    have "?ls ! (lvl + 1) \<in> set ?ls" using assms(3) by simp
    with r'(1) have "r \<in> set (read_snapshot (pc_levels pc))" by (auto simp: read_snapshot_def)
    with assms(2) show "sst_min_sort_key r \<le> sst_max_sort_key r" by (simp add: list_all_iff)
    have "disjoint_level (?ls ! (lvl + 1))" using disj assms(3) by (simp add: non_overlapping_nth)
    with kept_not_overlapping r'(1) ov
    show "\<forall>s \<in> set (filter (overlaps_with input) (?ls ! (lvl + 1))). overlaps_with input s \<and> \<not> overlaps_with s r"
      by fastforce
  qed (use merge_single(2,3) [OF outs(1) out] input(1) in auto)
  show ?thesis
  proof (cases outs)
    case Nil
    with outs(2) rest show ?thesis by (simp add: verify_iff)
  next
    case (Cons out more)
    with outs(2,3) have "levels_add out ?p = Some (pc_levels pc')" by (auto split: option.splits)
    from non_overlapping_add [OF rest this] kept Cons show ?thesis by (simp add: verify_iff)
  qed
qed

text \<open>C15. The level structure and the manifest's list of active tables in memory stay together: if
  they hold the same tables before, they hold the same tables after a completed compaction. The
  MANIFEST file itself does not list the outputs until it is rewritten.\<close>

theorem run_compaction_levels_match_active:
  assumes "mset (read_snapshot (pc_levels pc)) = mset (mf_active (pc_manifest pc))"
    and "run_compaction tj io_begin io_end now new_id job pc = Some (pc', Some res)"
  shows "mset (read_snapshot (pc_levels pc')) = mset (mf_active (pc_manifest pc'))"
proof -
  let ?ids = "map sst_id (job_inputs job)"
  obtain outs m1 m2 where p: "begin_compaction tj io_begin (job_id job) ?ids (job_output_level job) (pc_manifest pc) = (m1, True)"
    "complete_compaction tj io_end (job_id job) (map sst_id outs) ?ids outs m1 = (m2, True)"
    "levels_add_all outs (fold levels_remove ?ids (pc_levels pc)) = Some (pc_levels pc')"
    "pc_manifest pc' = m2"
    using run_compaction_parts [OF assms(2)] by metis
  have "mset (read_snapshot (fold levels_remove ?ids (pc_levels pc))) =
      filter_mset (\<lambda>s. sst_id s \<notin> set ?ids) (mset (read_snapshot (pc_levels pc)))"
    by (simp add: read_snapshot_def fold_levels_remove filter_concat flip: mset_filter)
  with levels_add_all_mset [OF p(3)] complete_compaction_active [OF p(2)] begin_compaction_active [OF p(1)]
    assms(1) p(4) show ?thesis
    by (simp add: fold_filter_ids)
qed

text \<open>Splitting breaks the levels: as soon as a compaction writes two tables, all of them
  carry the same key range, so any two overlap.\<close>

lemma split_outputs_overlap:
  assumes "merge_sort_inputs now new_id pc job = Some outs"
    and "list_all (\<lambda>s. sst_min_sort_key s \<le> sst_max_sort_key s) (job_inputs job)"
    and "i < length outs" and "j < length outs"
  shows "overlaps_with (outs ! i) (outs ! j)"
proof -
  obtain s where s: "s \<in> set (job_inputs job)" "ttl_keeps (pc_ttl pc) now s"
    using assms(1,3) by (auto simp: merge_sort_inputs_def Let_def filter_empty_conv split: if_splits)
  have "sst_min_sort_key s \<le> sst_max_sort_key s" using s(1) assms(2) by (simp add: list_all_iff)
  with s merge_single(4) [OF assms(1), of "outs ! i"] merge_single(4) [OF assms(1), of "outs ! j"] assms(3,4)
  have "sst_min_sort_key (outs ! i) \<le> sst_max_sort_key (outs ! i)"
      "sst_min_sort_key (outs ! i) = sst_min_sort_key (outs ! j)"
      "sst_max_sort_key (outs ! i) = sst_max_sort_key (outs ! j)"
    using assms(1) by (fastforce, auto simp: merge_sort_inputs_def Let_def split: if_splits)
  then show ?thesis by (simp add: overlaps_with_def)
qed

text \<open>The last level cannot be compacted: a job picked on it targets a level that does not
  exist, and running it panics after the compaction was recorded in the MANIFEST.\<close>

lemma last_level_compaction_panics:
  assumes "lvl + 1 = length (pl_levels (pc_levels pc))" and "length (pl_levels (pc_levels pc)) < 2 ^ 32"
    and "pick_ln_compaction cid lvl pc = Some job"
    and "merge_sort_inputs now new_id pc job = Some outs" and "outs \<noteq> []"
    and "\<forall>ev. tj ev \<noteq> None"
  shows "run_compaction tj WritesAll (WritesAll, True) now new_id job pc = None"
proof -
  obtain out more where o: "outs = out # more" using assms(5) by (cases outs) auto
  have "job_output_level job = of_nat (lvl + 1)"
    using assms(3) by (auto simp: pick_ln_compaction_def Let_def split: if_splits option.splits)
  with merge_single(1) [OF assms(4), of out] o have "sst_level out = of_nat (lvl + 1)" by simp
  moreover have "unat (of_nat (lvl + 1) :: u32) = lvl + 1" using assms(1,2) by (intro unat_u32_of_nat) simp
  ultimately have "levels_add out p = None" if "length (pl_levels p) = lvl + 1" for p
    using that by (simp add: levels_add_def)
  moreover have "length (pl_levels (fold levels_remove ids (pc_levels pc))) = lvl + 1" for ids
    using assms(1) by (simp add: fold_levels_remove)
  ultimately have add: "levels_add_all outs (fold levels_remove ids (pc_levels pc)) = None" for ids
    by (simp add: o)
  let ?ids = "map sst_id (job_inputs job)"
  obtain m1 where m1: "begin_compaction tj WritesAll (job_id job) ?ids (job_output_level job) (pc_manifest pc) = (m1, True)"
    using begin_compaction_total [OF assms(6)] by blast
  obtain m2 where "complete_compaction tj (WritesAll, True) (job_id job) (map sst_id outs) ?ids outs m1 = (m2, True)"
    using complete_compaction_total [OF assms(6)] by blast
  with m1 assms(4) add show ?thesis by (simp add: run_compaction_def Let_def)
qed

text \<open>Four L0 tables next to an L1 table within their key range.\<close>

definition overlap_example :: partition_compactor where
  "overlap_example =
     \<lparr>pc_partition_dir = ''p'',
      pc_levels = \<lparr>pl_levels = [[sample_sst 1 0 [1] [5], sample_sst 2 0 [2] [6], sample_sst 3 0 [3] [7],
          sample_sst 4 0 [4] [8]], [sample_sst 9 1 [5] [6]], [], [], [], [], []],
        pl_config = compaction_config_default\<rparr>,
      pc_manifest = \<lparr>mf_file = None, mf_active = [], mf_pending = []\<rparr>,
      pc_config = compaction_config_default, pc_ttl = None\<rparr>"

lemma overlap_example_pick:
  "pick_compaction 77 overlap_example =
     Some \<lparr>job_id = 77, job_input_level = 0, job_output_level = 1,
           job_inputs = [sample_sst 1 0 [1] [5], sample_sst 2 0 [2] [6], sample_sst 3 0 [3] [7], sample_sst 4 0 [4] [8]]\<rparr>"
proof -
  have "target_level_size_bytes compaction_config_default (Suc 0) = 268435456"
    by (simp add: target_level_size_bytes_def compaction_config_default_def saturating_mul_def saturating_pow_def)
  then have "highest_priority_level (pc_levels overlap_example) = Some 0"
    by (simp add: highest_priority_level_def overlap_example_def upt_rec max_by_def compaction_score_def
        l0_count_def f64_div_def f64_cmp_or_equal_def f64_partial_cmp_def f64_ge_def level_size_bytes_def
        sample_sst_def) (simp add: compaction_config_default_def)
  then show ?thesis
    by (simp add: pick_compaction_def pick_l0_compaction_def overlap_example_def compaction_config_default_def)
qed

lemma overlap_example_merge:
  "\<exists>out. merge_sort_inputs 0 (\<lambda>i. of_nat (100 + i)) overlap_example
     \<lparr>job_id = 77, job_input_level = 0, job_output_level = 1,
      job_inputs = [sample_sst 1 0 [1] [5], sample_sst 2 0 [2] [6], sample_sst 3 0 [3] [7], sample_sst 4 0 [4] [8]]\<rparr> =
     Some [out] \<and> sst_level out = 1 \<and> sst_min_sort_key out = [1] \<and> sst_max_sort_key out = [8]"
  by (simp add: merge_sort_inputs_def ttl_keeps_def overlap_example_def sample_sst_def iter_max_def
      iter_min_def compaction_config_default_def Let_def)

text \<open>Compacting L0 ignores what is already in L1: from levels without overlaps, merging
  four L0 tables next to an L1 table in their range leaves L1 with overlapping tables.\<close>

lemma l0_compaction_breaks_disjointness:
  "verify_non_overlapping (pc_levels overlap_example) = Inr () \<and>
   (\<exists>pc' v. worker_turn (\<lambda>_. Some ''x'') WritesAll (WritesAll, True) 0 77 (\<lambda>i. of_nat (100 + i)) overlap_example = Some pc' \<and>
      verify_non_overlapping (pc_levels pc') = Inl v)"
proof
  let ?tj = "\<lambda>_. Some ''x''" and ?new = "\<lambda>i. of_nat (100 + i)" and ?pc = overlap_example
  let ?job = "\<lparr>job_id = 77, job_input_level = 0, job_output_level = 1,
      job_inputs = [sample_sst 1 0 [1] [5], sample_sst 2 0 [2] [6], sample_sst 3 0 [3] [7], sample_sst 4 0 [4] [8]]\<rparr>"
  let ?ids = "map sst_id (job_inputs ?job)" and ?f = "sample_sst 9 1 [5] [6]"
  show "verify_non_overlapping (pc_levels ?pc) = Inr ()"
    by (simp add: verify_non_overlapping_def overlap_example_def)
  obtain out where out: "merge_sort_inputs 0 ?new ?pc ?job = Some [out]" "sst_level out = 1"
      "sst_min_sort_key out = [1]" "sst_max_sort_key out = [8]"
    using overlap_example_merge by blast
  have l: "pl_levels (fold levels_remove ?ids (pc_levels ?pc)) = [[], [?f], [], [], [], [], []]"
    by (simp add: levels_remove_def overlap_example_def sample_sst_def)
  then obtain p where p: "levels_add out (fold levels_remove ?ids (pc_levels ?pc)) = Some p"
    using out(2) by (simp add: levels_add_def)
  from levels_add_Some(2) [OF p] obtain level where level: "pl_levels p ! 1 = level" "mset level = mset [out, ?f]"
      "length (pl_levels p) = 7"
    unfolding l using out(2) by auto
  have "\<not> disjoint_level level"
    unfolding disjoint_level_mset [OF level(2)] using out(3,4)
    by (simp add: disjoint_level_def overlaps_with_def sample_sst_def)
  then have "\<not> non_overlapping p" using level(1,3) by (auto simp: non_overlapping_nth)
  then have "verify_non_overlapping p \<noteq> Inr ()" by (simp add: verify_iff)
  then obtain v where v: "verify_non_overlapping p = Inl v" by (cases "verify_non_overlapping p") auto
  obtain pc' res where "run_compaction ?tj WritesAll (WritesAll, True) 0 ?new ?job ?pc = Some (pc', Some res)" "pc_levels pc' = p"
  proof (rule run_compaction_total [OF _ out(1)])
    show "\<forall>ev :: manifest_event. ?tj ev \<noteq> None" by simp
    show "levels_add_all [out] (fold levels_remove ?ids (pc_levels ?pc)) = Some p"
      by (simp only: levels_add_all.simps p option.case)
  qed
  then have "worker_turn ?tj WritesAll (WritesAll, True) 0 77 ?new ?pc = Some pc'"
    unfolding worker_turn_def overlap_example_pick by simp
  with v \<open>pc_levels pc' = p\<close>
  show "\<exists>pc' v. worker_turn ?tj WritesAll (WritesAll, True) 0 77 ?new ?pc = Some pc' \<and> verify_non_overlapping (pc_levels pc') = Inl v"
    by auto
qed

section \<open>Witnesses\<close>

text \<open>An L1 table over one of two L2 tables; \<open>target\<close> is the output file size.\<close>

definition ln_example :: "u64 \<Rightarrow> nat \<Rightarrow> partition_compactor" where
  "ln_example target n =
     \<lparr>pc_partition_dir = ''p'',
      pc_levels = \<lparr>pl_levels = take n [[], [sample_sst 1 1 [1] [5]], [sample_sst 2 2 [4] [9], sample_sst 3 2 [12] [13]]],
        pl_config = compaction_config_default\<rparr>,
      pc_manifest = \<lparr>mf_file = None, mf_active = concat (take n [[], [sample_sst 1 1 [1] [5]], [sample_sst 2 2 [4] [9], sample_sst 3 2 [12] [13]]]), mf_pending = []\<rparr>,
      pc_config = compaction_config_default\<lparr>target_file_size_bytes := target\<rparr>, pc_ttl = None\<rparr>"

definition ln_example_job :: compaction_job where
  "ln_example_job = \<lparr>job_id = 77, job_input_level = 1, job_output_level = 2,
     job_inputs = [sample_sst 1 1 [1] [5], sample_sst 2 2 [4] [9]]\<rparr>"

lemma ln_example_pick: "pick_ln_compaction 77 1 (ln_example target 3) = Some ln_example_job"
  by (simp add: pick_ln_compaction_def ln_example_def min_by_key_def sample_sst_def overlaps_with_def
      ln_example_job_def)

lemma ln_example_merge:
  "\<exists>out. merge_sort_inputs 0 (\<lambda>i. 100) (ln_example 1000 3) ln_example_job = Some [out] \<and> sst_level out = 2"
  by (simp add: merge_sort_inputs_def ttl_keeps_def ln_example_def ln_example_job_def sample_sst_def
      iter_max_def iter_min_def compaction_config_default_def Let_def)

lemma ln_example_run:
  obtains pc' res where
    "run_compaction (\<lambda>_. Some ''x'') WritesAll (WritesAll, True) 0 (\<lambda>i. 100) ln_example_job (ln_example 1000 3) = Some (pc', Some res)"
    "length (cr_output_ids res) \<le> 1"
proof -
  obtain out where out: "merge_sort_inputs 0 (\<lambda>i. 100) (ln_example 1000 3) ln_example_job = Some [out]" "sst_level out = 2"
    using ln_example_merge by blast
  have "length (pl_levels (fold levels_remove (map sst_id (job_inputs ln_example_job)) (pc_levels (ln_example 1000 3)))) = 3"
    by (simp add: fold_levels_remove ln_example_def del: fold_simps)
  then obtain p where "levels_add_all [out] (fold levels_remove (map sst_id (job_inputs ln_example_job)) (pc_levels (ln_example 1000 3))) = Some p"
    using out(2) by (simp add: levels_add_def)
  with run_compaction_total [of "\<lambda>_. Some ''x''", OF _ out(1) this] show thesis by (metis One_nat_def le_refl length_Cons length_map list.size(3) option.distinct(1) that)
qed

theorem ln_compaction_keeps_levels_disjoint_witness:
  "\<exists>pc' res. run_compaction (\<lambda>_. Some ''x'') WritesAll (WritesAll, True) 0 (\<lambda>i. 100) ln_example_job (ln_example 1000 3) = Some (pc', Some res) \<and>
     verify_non_overlapping (pc_levels pc') = Inr ()"
proof -
  obtain pc' res where r: "run_compaction (\<lambda>_. Some ''x'') WritesAll (WritesAll, True) 0 (\<lambda>i. 100) ln_example_job (ln_example 1000 3) = Some (pc', Some res)"
      "length (cr_output_ids res) \<le> 1" by (rule ln_example_run)
  have "verify_non_overlapping (pc_levels pc') = Inr ()"
    by (rule ln_compaction_keeps_levels_disjoint [OF _ _ _ _ ln_example_pick r(1) r(2)])
      (simp_all add: ln_example_def verify_non_overlapping_def overlaps_with_def sample_sst_def read_snapshot_def)
  with r(1) show ?thesis by blast
qed

theorem run_compaction_levels_match_active_witness:
  "\<exists>pc' res. run_compaction (\<lambda>_. Some ''x'') WritesAll (WritesAll, True) 0 (\<lambda>i. 100) ln_example_job (ln_example 1000 3) = Some (pc', Some res) \<and>
     mset (read_snapshot (pc_levels pc')) = mset (mf_active (pc_manifest pc'))"
proof -
  obtain pc' res where r: "run_compaction (\<lambda>_. Some ''x'') WritesAll (WritesAll, True) 0 (\<lambda>i. 100) ln_example_job (ln_example 1000 3) = Some (pc', Some res)"
    by (rule ln_example_run)
  have "mset (read_snapshot (pc_levels pc')) = mset (mf_active (pc_manifest pc'))"
    by (rule run_compaction_levels_match_active [OF _ r]) (simp add: ln_example_def read_snapshot_def)
  with r show ?thesis by blast
qed

end
