(* ===== verification/BlockCache.thy ===== *)
theory BlockCache
  imports Prelude
begin

text \<open>
  The block cache (\<open>storage-node/src/block_cache.rs\<close>): three LRU pools, each a hash map
  whose nodes carry the links of a doubly linked list. The linked structure is refined
  by a plain list of entries in recency order; the refinement covers every operation
  and the eviction loop. A panic (indexing a missing key) is \<open>None\<close>.
\<close>

section \<open>Data\<close>

datatype block_type = Data | Filter | Index

record block_key =
  bk_partition :: string
  bk_column :: string
  bk_segment :: u64
  bk_block_type :: block_type

record node =
  nd_value :: bytes
  nd_resist :: byte
  nd_prev :: "block_key option"
  nd_next :: "block_key option"

record lru_pool =
  lp_map :: "block_key \<rightharpoonup> node"
  lp_head :: "block_key option"
  lp_tail :: "block_key option"
  lp_used_bytes :: nat
  lp_max_bytes :: nat
  lp_block_type :: block_type

definition key_data :: "string \<Rightarrow> string \<Rightarrow> u64 \<Rightarrow> block_key" where
  "key_data p c s = \<lparr>bk_partition = p, bk_column = c, bk_segment = s, bk_block_type = Data\<rparr>"

definition key_filter :: "string \<Rightarrow> string \<Rightarrow> u64 \<Rightarrow> block_key" where
  "key_filter p c s = \<lparr>bk_partition = p, bk_column = c, bk_segment = s, bk_block_type = Filter\<rparr>"

definition key_index :: "string \<Rightarrow> string \<Rightarrow> u64 \<Rightarrow> block_key" where
  "key_index p c s = \<lparr>bk_partition = p, bk_column = c, bk_segment = s, bk_block_type = Index\<rparr>"

section \<open>Pool operations\<close>

definition pool_new :: "nat \<Rightarrow> block_type \<Rightarrow> lru_pool" where
  "pool_new max_bytes bt =
     \<lparr>lp_map = Map.empty, lp_head = None, lp_tail = None, lp_used_bytes = 0, lp_max_bytes = max_bytes,
      lp_block_type = bt\<rparr>"

text \<open>\<open>if let Some(n) = map.get_mut(k)\<close> followed by a field assignment.\<close>

definition set_next :: "block_key \<Rightarrow> block_key option \<Rightarrow> (block_key \<rightharpoonup> node) \<Rightarrow> (block_key \<rightharpoonup> node)" where
  "set_next k nx m = (case m k of None \<Rightarrow> m | Some n \<Rightarrow> m(k \<mapsto> n\<lparr>nd_next := nx\<rparr>))"

definition set_prev :: "block_key \<Rightarrow> block_key option \<Rightarrow> (block_key \<rightharpoonup> node) \<Rightarrow> (block_key \<rightharpoonup> node)" where
  "set_prev k pv m = (case m k of None \<Rightarrow> m | Some n \<Rightarrow> m(k \<mapsto> n\<lparr>nd_prev := pv\<rparr>))"

definition move_to_head :: "block_key \<Rightarrow> lru_pool \<Rightarrow> lru_pool option" where
  "move_to_head key p =
     (if lp_head p = Some key then Some p
      else (case lp_map p key of
              None \<Rightarrow> None
            | Some n \<Rightarrow>
                (let prv = nd_prev n; nxt = nd_next n;
                     m1 = (case prv of None \<Rightarrow> lp_map p | Some q \<Rightarrow> set_next q nxt (lp_map p));
                     m2 = (case nxt of None \<Rightarrow> m1 | Some q \<Rightarrow> set_prev q prv m1);
                     tl1 = (case nxt of None \<Rightarrow> prv | Some _ \<Rightarrow> lp_tail p);
                     old_head = lp_head p;
                     m3 = (case old_head of None \<Rightarrow> m2 | Some h \<Rightarrow> set_prev h (Some key) m2)
                 in case m3 key of
                      None \<Rightarrow> None
                    | Some n3 \<Rightarrow>
                        Some (p\<lparr>lp_map := m3(key \<mapsto> n3\<lparr>nd_prev := None, nd_next := old_head\<rparr>),
                                lp_head := Some key, lp_tail := tl1\<rparr>))))"

definition pool_get :: "block_key \<Rightarrow> lru_pool \<Rightarrow> (lru_pool \<times> bytes option) option" where
  "pool_get key p =
     (if lp_map p key \<noteq> None
      then (case move_to_head key p of
              None \<Rightarrow> None
            | Some p' \<Rightarrow> Some (p', map_option nd_value (lp_map p' key)))
      else Some (p, None))"

definition try_evict_tail :: "lru_pool \<Rightarrow> lru_pool option" where
  "try_evict_tail p =
     (case lp_tail p of
        None \<Rightarrow> Some p
      | Some tail_key \<Rightarrow>
          (let resisting = (if lp_block_type p = Filter
                            then (case lp_map p tail_key of None \<Rightarrow> None
                                  | Some n \<Rightarrow> if 0 < nd_resist n then Some n else None)
                            else None)
           in case resisting of
                Some n \<Rightarrow>
                  move_to_head tail_key (p\<lparr>lp_map := (lp_map p)(tail_key \<mapsto> n\<lparr>nd_resist := nd_resist n - 1\<rparr>)\<rparr>)
              | None \<Rightarrow>
                  (case lp_map p tail_key of
                     None \<Rightarrow> Some p
                   | Some n \<Rightarrow>
                       (let m = (lp_map p)(tail_key := None);
                            p' = p\<lparr>lp_map := m, lp_used_bytes := lp_used_bytes p - length (nd_value n),
                                   lp_tail := nd_prev n\<rparr>
                        in case nd_prev n of
                             Some t \<Rightarrow> Some (p'\<lparr>lp_map := set_next t None m\<rparr>)
                           | None \<Rightarrow> Some (p'\<lparr>lp_head := None\<rparr>)))))"

text \<open>The eviction loop; that it ends is a theorem.\<close>

partial_function (option) evict_loop :: "nat \<Rightarrow> lru_pool \<Rightarrow> lru_pool option" where
  "evict_loop sz p =
     (if lp_max_bytes p < lp_used_bytes p + sz \<and> lp_tail p \<noteq> None
      then (case try_evict_tail p of None \<Rightarrow> None | Some p' \<Rightarrow> evict_loop sz p')
      else Some p)"

definition pool_insert :: "block_key \<Rightarrow> bytes \<Rightarrow> lru_pool \<Rightarrow> lru_pool option" where
  "pool_insert key value p =
     (let sz = length value
      in case lp_map p key of
           Some n \<Rightarrow>
             (let old_size = length (nd_value n);
                  p' = p\<lparr>lp_used_bytes := lp_used_bytes p - old_size + sz,
                         lp_map := (lp_map p)(key \<mapsto> n\<lparr>nd_value := value\<rparr>)\<rparr>
              in move_to_head key p')
         | None \<Rightarrow>
             (case evict_loop sz p of
                None \<Rightarrow> None
              | Some p \<Rightarrow>
                  (let resist = (if lp_block_type p = Filter then 3 else 0);
                       n = \<lparr>nd_value = value, nd_resist = resist, nd_prev = None, nd_next = lp_head p\<rparr>;
                       m = (case lp_head p of None \<Rightarrow> lp_map p | Some h \<Rightarrow> set_prev h (Some key) (lp_map p));
                       tl1 = (case lp_head p of None \<Rightarrow> Some key | Some _ \<Rightarrow> lp_tail p)
                   in Some (p\<lparr>lp_tail := tl1, lp_head := Some key, lp_used_bytes := lp_used_bytes p + sz,
                             lp_map := m(key \<mapsto> n)\<rparr>))))"

section \<open>The cache of three pools\<close>

record block_cache =
  bc_data_pool :: lru_pool
  bc_filter_pool :: lru_pool
  bc_index_pool :: lru_pool
  bc_total_max :: nat

text \<open>\<open>n * p / 100\<close> and \<open>a - b\<close> in \<open>usize\<close>, which wrap around.\<close>

definition usize_percent :: "nat \<Rightarrow> nat \<Rightarrow> nat" where
  "usize_percent n p = n * p mod 2 ^ 64 div 100"

definition usize_minus :: "nat \<Rightarrow> nat \<Rightarrow> nat" where
  "usize_minus a b = (a + (2 ^ 64 - b)) mod 2 ^ 64"

definition cache_new :: "nat \<Rightarrow> block_cache" where
  "cache_new total_max_bytes =
     (let data_max = usize_percent total_max_bytes 70;
          filter_max = usize_percent total_max_bytes 20;
          index_max = usize_minus (usize_minus total_max_bytes data_max) filter_max
      in \<lparr>bc_data_pool = pool_new data_max Data, bc_filter_pool = pool_new filter_max Filter,
          bc_index_pool = pool_new index_max Index, bc_total_max = total_max_bytes\<rparr>)"

definition pool_for :: "block_type \<Rightarrow> block_cache \<Rightarrow> lru_pool" where
  "pool_for bt c = (case bt of Data \<Rightarrow> bc_data_pool c | Filter \<Rightarrow> bc_filter_pool c | Index \<Rightarrow> bc_index_pool c)"

definition set_pool :: "block_type \<Rightarrow> lru_pool \<Rightarrow> block_cache \<Rightarrow> block_cache" where
  "set_pool bt p c =
     (case bt of Data \<Rightarrow> c\<lparr>bc_data_pool := p\<rparr> | Filter \<Rightarrow> c\<lparr>bc_filter_pool := p\<rparr> | Index \<Rightarrow> c\<lparr>bc_index_pool := p\<rparr>)"

definition cache_get :: "block_key \<Rightarrow> block_cache \<Rightarrow> (block_cache \<times> bytes option) option" where
  "cache_get key c =
     (let bt = bk_block_type key
      in map_option (\<lambda>(p, v). (set_pool bt p c, v)) (pool_get key (pool_for bt c)))"

definition cache_insert :: "block_key \<Rightarrow> bytes \<Rightarrow> block_cache \<Rightarrow> block_cache option" where
  "cache_insert key value c =
     (let bt = bk_block_type key
      in map_option (\<lambda>p. set_pool bt p c) (pool_insert key value (pool_for bt c)))"

definition cache_used_bytes :: "block_cache \<Rightarrow> nat" where
  "cache_used_bytes c =
     lp_used_bytes (bc_data_pool c) + lp_used_bytes (bc_filter_pool c) + lp_used_bytes (bc_index_pool c)"

record pool_stats =
  ps_data_used :: nat
  ps_data_max :: nat
  ps_filter_used :: nat
  ps_filter_max :: nat
  ps_index_used :: nat
  ps_index_max :: nat

definition cache_pool_stats :: "block_cache \<Rightarrow> pool_stats" where
  "cache_pool_stats c =
     \<lparr>ps_data_used = lp_used_bytes (bc_data_pool c), ps_data_max = lp_max_bytes (bc_data_pool c),
      ps_filter_used = lp_used_bytes (bc_filter_pool c), ps_filter_max = lp_max_bytes (bc_filter_pool c),
      ps_index_used = lp_used_bytes (bc_index_pool c), ps_index_max = lp_max_bytes (bc_index_pool c)\<rparr>"

section \<open>The list specification\<close>

text \<open>Entries in recency order, most recent first.\<close>

type_synonym lru_entry = "block_key \<times> bytes \<times> byte"
type_synonym lru_list = "lru_entry list"

abbreviation keys :: "lru_list \<Rightarrow> block_key list" where
  "keys xs \<equiv> map fst xs"

definition entry_bytes :: "lru_list \<Rightarrow> nat" where
  "entry_bytes xs = sum_list (map (\<lambda>e. length (fst (snd e))) xs)"

definition spec_touch :: "lru_entry \<Rightarrow> lru_list \<Rightarrow> lru_list" where
  "spec_touch e xs = e # filter (\<lambda>x. fst x \<noteq> fst e) xs"

definition spec_get :: "block_key \<Rightarrow> lru_list \<Rightarrow> lru_list \<times> bytes option" where
  "spec_get k xs =
     (case map_of xs k of None \<Rightarrow> (xs, None) | Some (v, r) \<Rightarrow> (spec_touch (k, v, r) xs, Some v))"

definition spec_evict :: "block_type \<Rightarrow> lru_list \<Rightarrow> lru_list" where
  "spec_evict bt xs =
     (if xs = [] then []
      else (case last xs of
              (k, v, r) \<Rightarrow> if bt = Filter \<and> 0 < r then spec_touch (k, v, r - 1) xs else butlast xs))"

text \<open>Every eviction step removes an entry or uses up one unit of its resistance.\<close>

definition evict_measure :: "lru_list \<Rightarrow> nat" where
  "evict_measure xs = sum_list (map (\<lambda>e. Suc (unat (snd (snd e)))) xs)"

lemma spec_touch_perm:
  "distinct (keys xs) \<Longrightarrow> e \<in> set xs \<Longrightarrow> mset (spec_touch e xs) = mset xs"
proof (induction xs)
  case Nil
  then show ?case by simp
next
  case (Cons x xs)
  have "fst x \<notin> fst ` set xs" using Cons.prems(1) by simp
  then have "fst y \<noteq> fst x" if "y \<in> set xs" for y
    using that by (metis imageI)
  then have "filter (\<lambda>y. fst y \<noteq> fst x) xs = xs" by (simp add: filter_id_conv)
  moreover have "fst x \<noteq> fst e" if "x \<noteq> e"
  proof -
    have "e \<in> set xs" using Cons.prems(2) that by simp
    then have "fst e \<in> fst ` set xs" by (rule imageI)
    with \<open>fst x \<notin> fst ` set xs\<close> show ?thesis by metis
  qed
  ultimately show ?case using Cons by (cases "x = e") (auto simp: spec_touch_def)
qed

section \<open>Linked segments\<close>

text \<open>\<open>dll m pv xs nx\<close>: the nodes of \<open>xs\<close> are linked in order, the first one back to \<open>pv\<close> and
  the last one forward to \<open>nx\<close>.\<close>

definition first_key :: "lru_list \<Rightarrow> block_key option \<Rightarrow> block_key option" where
  "first_key xs nx = (case xs of [] \<Rightarrow> nx | e # _ \<Rightarrow> Some (fst e))"

definition last_key :: "lru_list \<Rightarrow> block_key option \<Rightarrow> block_key option" where
  "last_key xs pv = (if xs = [] then pv else Some (fst (last xs)))"

fun dll :: "(block_key \<rightharpoonup> node) \<Rightarrow> block_key option \<Rightarrow> lru_list \<Rightarrow> block_key option \<Rightarrow> bool" where
  "dll m pv [] nx \<longleftrightarrow> True"
| "dll m pv ((k, v, r) # xs) nx \<longleftrightarrow>
     m k = Some \<lparr>nd_value = v, nd_resist = r, nd_prev = pv, nd_next = first_key xs nx\<rparr> \<and>
     dll m (Some k) xs nx"

lemma first_key_simps [simp]: "first_key [] nx = nx" "first_key (e # xs) nx = Some (fst e)"
  by (simp_all add: first_key_def)

lemma first_key_append: "first_key (xs @ ys) nx = first_key xs (first_key ys nx)"
  by (cases xs) simp_all

lemma last_key_simps [simp]: "last_key [] pv = pv" "last_key (e # xs) pv = last_key xs (Some (fst e))"
  "last_key (xs @ [e]) pv = Some (fst e)"
  by (simp_all add: last_key_def)

lemma last_key_append: "last_key (xs @ ys) pv = last_key ys (last_key xs pv)"
  by (auto simp: last_key_def)

lemma dll_append:
  "dll m pv (xs @ ys) nx \<longleftrightarrow> dll m pv xs (first_key ys nx) \<and> dll m (last_key xs pv) ys nx"
  by (induction m pv xs nx rule: dll.induct) (auto simp: first_key_append)

lemma dll_frame: "k \<notin> set (keys xs) \<Longrightarrow> dll (m(k := x)) pv xs nx = dll m pv xs nx"
  by (induction m pv xs nx rule: dll.induct) auto

lemma dll_dom: "dll m pv xs nx \<Longrightarrow> set (keys xs) \<subseteq> dom m"
  by (induction m pv xs nx rule: dll.induct) auto

lemma set_next_frame: "k \<notin> set (keys xs) \<Longrightarrow> dll (set_next k y m) pv xs nx = dll m pv xs nx"
  by (simp add: set_next_def dll_frame split: option.split)

lemma set_prev_frame: "k \<notin> set (keys xs) \<Longrightarrow> dll (set_prev k y m) pv xs nx = dll m pv xs nx"
  by (simp add: set_prev_def dll_frame split: option.split)

lemma dom_set_next [simp]: "dom (set_next k y m) = dom m"
  by (auto simp: set_next_def split: option.splits)

lemma dom_set_prev [simp]: "dom (set_prev k y m) = dom m"
  by (auto simp: set_prev_def split: option.splits)

lemma set_next_other [simp]: "k' \<noteq> k \<Longrightarrow> set_next k y m k' = m k'"
  by (simp add: set_next_def split: option.split)

lemma set_prev_other [simp]: "k' \<noteq> k \<Longrightarrow> set_prev k y m k' = m k'"
  by (simp add: set_prev_def split: option.split)

lemma dll_set_next_last:
  assumes "dll m pv xs nx" "last_key xs None = Some k" "distinct (keys xs)"
  shows "dll (set_next k nx' m) pv xs nx'"
proof -
  from assms(2) obtain ys e where xs: "xs = ys @ [e]" "k = fst e"
    by (cases xs rule: rev_cases) (auto simp: last_key_def)
  obtain v r where e: "e = (k, v, r)" using xs(2) by (cases e) auto
  from assms(1) have m: "dll m pv ys (Some k)"
      "m k = Some \<lparr>nd_value = v, nd_resist = r, nd_prev = last_key ys pv, nd_next = nx\<rparr>"
    by (simp_all add: xs(1) e dll_append)
  have "k \<notin> set (keys ys)" using assms(3) by (simp add: xs(1) e)
  with m show ?thesis by (simp add: xs(1) e dll_append set_next_def dll_frame)
qed

lemma dll_set_prev_first:
  assumes "dll m pv xs nx" "first_key xs None = Some k" "distinct (keys xs)"
  shows "dll (set_prev k pv' m) pv' xs nx"
proof -
  from assms(2) obtain v r ys where xs: "xs = (k, v, r) # ys" by (cases xs) auto
  have "k \<notin> set (keys ys)" using assms(3) by (simp add: xs)
  with assms(1) show ?thesis by (simp add: xs set_prev_def dll_frame)
qed

section \<open>The representation of a pool\<close>

definition lru_rep :: "lru_pool \<Rightarrow> lru_list \<Rightarrow> bool" where
  "lru_rep p xs \<longleftrightarrow>
     dll (lp_map p) None xs None \<and> distinct (keys xs) \<and> dom (lp_map p) = set (keys xs) \<and>
     lp_head p = first_key xs None \<and> lp_tail p = last_key xs None \<and>
     lp_used_bytes p = entry_bytes xs"

lemma dll_map_of:
  "dll m pv xs nx \<Longrightarrow> map_of xs k = Some (v, r) \<Longrightarrow>
   \<exists>n. m k = Some n \<and> nd_value n = v \<and> nd_resist n = r"
  by (induction m pv xs nx rule: dll.induct) (auto split: if_splits)

lemma lru_rep_lookup:
  assumes "lru_rep p xs"
  shows "(lp_map p k = None) = (map_of xs k = None)"
    "map_of xs k = Some (v, r) \<Longrightarrow> \<exists>n. lp_map p k = Some n \<and> nd_value n = v \<and> nd_resist n = r"
proof -
  have "dom (lp_map p) = dom (map_of xs)" using assms by (simp add: lru_rep_def dom_map_of_conv_image_fst)
  then show "(lp_map p k = None) = (map_of xs k = None)" by (metis domIff)
  show "map_of xs k = Some (v, r) \<Longrightarrow> \<exists>n. lp_map p k = Some n \<and> nd_value n = v \<and> nd_resist n = r"
    using assms dll_map_of unfolding lru_rep_def by blast
qed

text \<open>The part of a pool that moving an entry does not touch.\<close>

definition same_limits :: "lru_pool \<Rightarrow> lru_pool \<Rightarrow> bool" where
  "same_limits p q \<longleftrightarrow> lp_max_bytes q = lp_max_bytes p \<and> lp_block_type q = lp_block_type p"

lemma move_to_head_rep:
  assumes rep: "lru_rep p (as @ e # bs)" and ne: "as \<noteq> []"
  shows "\<exists>p'. move_to_head (fst e) p = Some p' \<and> lru_rep p' (e # as @ bs) \<and> same_limits p p'"
proof -
  obtain k v r where e: "e = (k, v, r)" by (cases e)
  let ?m = "lp_map p"
  obtain h as' where as: "as = h # as'" using ne by (cases as) auto
  obtain q where q: "last_key as None = Some q" "q \<in> set (keys as)" using ne by (auto simp: last_key_def)
  from rep have dist: "distinct (keys as)" "distinct (keys bs)" "k \<notin> set (keys as)" "k \<notin> set (keys bs)"
      "set (keys as) \<inter> set (keys bs) = {}"
    by (auto simp: lru_rep_def e)
  from rep have "dll ?m None (as @ e # bs) None" by (simp add: lru_rep_def)
  then have seg: "dll ?m None as (Some k)" "dll ?m (Some k) bs None"
      and node: "?m k = Some \<lparr>nd_value = v, nd_resist = r, nd_prev = Some q, nd_next = first_key bs None\<rparr>"
    using q(1) by (simp_all add: e dll_append)
  from rep have head: "lp_head p = Some (fst h)" and tail: "lp_tail p = last_key bs (Some k)"
    by (simp_all add: lru_rep_def e as last_key_append)
  define m1 where "m1 = set_next q (first_key bs None) ?m"
  define m2 where "m2 = (case first_key bs None of None \<Rightarrow> m1 | Some n \<Rightarrow> set_prev n (Some q) m1)"
  define m3 where "m3 = set_prev (fst h) (Some k) m2"
  have qb: "q \<notin> set (keys bs)" "q \<noteq> k" using q(2) dist by auto
  have m1: "dll m1 None as (first_key bs None)" "dll m1 (Some k) bs None" "m1 k = ?m k"
    unfolding m1_def using dll_set_next_last [OF seg(1) q(1) dist(1)] seg(2) qb
    by (simp_all add: set_next_frame)
  have m2: "dll m2 None as (first_key bs None)" "dll m2 (Some q) bs None" "m2 k = ?m k"
  proof -
    have "fst b \<notin> set (keys as)" "fst b \<noteq> k" if "bs = b # bs'" for b bs' using dist that by auto
    then show "dll m2 None as (first_key bs None)" "dll m2 (Some q) bs None" "m2 k = ?m k"
      using m1 dll_set_prev_first [OF m1(2) _ dist(2)]
      by (cases bs; simp add: m2_def set_prev_frame)+
  qed
  have hb: "fst h \<notin> set (keys bs)" "fst h \<noteq> k" using dist as by auto
  have m3: "dll m3 (Some k) as (first_key bs None)" "dll m3 (Some q) bs None" "m3 k = ?m k"
    unfolding m3_def using dll_set_prev_first [OF m2(1), of "fst h" "Some k"] dist(1) as m2 hb
    by (simp_all add: set_prev_frame)
  let ?n = "\<lparr>nd_value = v, nd_resist = r, nd_prev = None, nd_next = Some (fst h)\<rparr>"
  let ?tl = "case first_key bs None of None \<Rightarrow> Some q | Some _ \<Rightarrow> lp_tail p"
  let ?p = "p\<lparr>lp_map := m3(k \<mapsto> ?n), lp_head := Some k, lp_tail := ?tl\<rparr>"
  have "move_to_head k p = Some ?p"
  proof -
    have "m3 k = Some \<lparr>nd_value = v, nd_resist = r, nd_prev = Some q, nd_next = first_key bs None\<rparr>"
      using m3(3) node by simp
    then show ?thesis
      using hb(2) unfolding move_to_head_def head node m3_def m2_def m1_def
      by (cases bs) (simp_all add: Let_def)
  qed
  moreover have "dll (m3(k \<mapsto> ?n)) None (e # as @ bs) None"
  proof -
    have "first_key (as @ bs) None = Some (fst h)" by (simp add: as)
    moreover have "dll (m3(k \<mapsto> ?n)) (Some k) (as @ bs) None"
    proof -
      have "last_key as (Some k) = Some q" using q(1) ne by (simp add: last_key_def)
      with m3 dist(3,4) show ?thesis by (simp add: dll_append dll_frame)
    qed
    ultimately show ?thesis by (simp add: e)
  qed
  moreover have "dom m3 = dom ?m"
    unfolding m3_def m2_def m1_def by (simp split: option.split)
  moreover have "?tl = last_key (e # as @ bs) None"
    using tail q(1) by (cases bs) (simp_all add: last_key_append e last_key_def ne)
  moreover have "entry_bytes (e # as @ bs) = entry_bytes (as @ e # bs)" by (simp add: entry_bytes_def)
  ultimately show ?thesis
    using rep by (auto simp: lru_rep_def e same_limits_def)
qed

lemma filter_other_keys:
  "distinct (keys (as @ (k, v, r) # bs)) \<Longrightarrow> filter (\<lambda>x. fst x \<noteq> k) (as @ (k, v, r) # bs) = as @ bs"
proof -
  assume "distinct (keys (as @ (k, v, r) # bs))"
  then have "k \<notin> fst ` set as" "k \<notin> fst ` set bs" by auto
  then have "filter (\<lambda>x. fst x \<noteq> k) as = as" "filter (\<lambda>x. fst x \<noteq> k) bs = bs"
    by (metis (mono_tags, lifting) filter_True image_eqI)+
  then show ?thesis by simp
qed

lemma map_of_split:
  assumes "map_of xs k = Some (v, r)"
  obtains as bs where "xs = as @ (k, v, r) # bs"
  using map_of_SomeD [OF assms] by (meson split_list)

lemma move_to_head_touch:
  assumes "lru_rep p xs" "map_of xs k = Some (v, r)"
  shows "\<exists>p'. move_to_head k p = Some p' \<and> lru_rep p' (spec_touch (k, v, r) xs) \<and> same_limits p p'"
proof -
  obtain as bs where xs: "xs = as @ (k, v, r) # bs" using map_of_split [OF assms(2)] .
  have "distinct (keys xs)" using assms(1) by (simp add: lru_rep_def)
  then have t: "spec_touch (k, v, r) xs = (k, v, r) # as @ bs"
    unfolding spec_touch_def xs using filter_other_keys [of as k v r bs] by simp
  show ?thesis
  proof (cases "as = []")
    case True
    then have "lp_head p = Some k" using assms(1) by (simp add: lru_rep_def xs)
    with assms(1) True show ?thesis unfolding t by (simp add: move_to_head_def xs same_limits_def)
  next
    case False
    with move_to_head_rep [of p as "(k, v, r)" bs] assms(1) show ?thesis unfolding t by (simp add: xs)
  qed
qed

lemma dll_update:
  assumes "dll m pv (as @ (k, v, r) # bs) nx" "distinct (keys (as @ (k, v, r) # bs))" "m k = Some n"
  shows "dll (m(k \<mapsto> n\<lparr>nd_value := v', nd_resist := r'\<rparr>)) pv (as @ (k, v', r') # bs) nx"
  using assms by (simp add: dll_append dll_frame)

lemma lru_rep_update:
  assumes "lru_rep p (as @ (k, v, r) # bs)" "lp_map p k = Some n"
  shows "lru_rep (p\<lparr>lp_map := (lp_map p)(k \<mapsto> n\<lparr>nd_value := v', nd_resist := r'\<rparr>),
      lp_used_bytes := lp_used_bytes p - length v + length v'\<rparr>) (as @ (k, v', r') # bs)"
proof -
  have "first_key (as @ (k, v', r') # bs) None = first_key (as @ (k, v, r) # bs) None"
    by (simp add: first_key_append)
  moreover have "last_key (as @ (k, v', r') # bs) None = last_key (as @ (k, v, r) # bs) None"
    by (simp add: last_key_append)
  ultimately show ?thesis
    using assms dll_update [of "lp_map p" None as k v r bs None n r' v']
    by (auto simp: lru_rep_def entry_bytes_def)
qed

lemma try_evict_tail_rep:
  assumes rep: "lru_rep p xs" and ne: "xs \<noteq> []"
  shows "\<exists>p'. try_evict_tail p = Some p' \<and> lru_rep p' (spec_evict (lp_block_type p) xs) \<and> same_limits p p'"
proof -
  obtain ys k v r where xs: "xs = ys @ [(k, v, r)]" using ne by (metis prod_cases3 rev_exhaust)
  have tail: "lp_tail p = Some k" using rep by (simp add: lru_rep_def xs)
  have "dll (lp_map p) None (ys @ [(k, v, r)]) None" using rep by (simp add: lru_rep_def xs)
  then have seg: "dll (lp_map p) None ys (Some k)"
      and node: "lp_map p k = Some \<lparr>nd_value = v, nd_resist = r, nd_prev = last_key ys None, nd_next = None\<rparr>"
    by (simp_all add: dll_append)
  have dist: "distinct (keys ys)" "k \<notin> set (keys ys)" using rep by (simp_all add: lru_rep_def xs)
  show ?thesis
  proof (cases "lp_block_type p = Filter \<and> 0 < r")
    case True
    let ?n = "\<lparr>nd_value = v, nd_resist = r, nd_prev = last_key ys None, nd_next = None\<rparr>"
    let ?p = "p\<lparr>lp_map := (lp_map p)(k \<mapsto> ?n\<lparr>nd_value := v, nd_resist := r - 1\<rparr>),
        lp_used_bytes := lp_used_bytes p - length v + length v\<rparr>"
    have used: "lp_used_bytes p - length v + length v = lp_used_bytes p"
      using rep by (simp add: lru_rep_def xs entry_bytes_def)
    have "lru_rep ?p (ys @ [(k, v, r - 1)])"
      using lru_rep_update [of p ys k v r "[]" ?n v "r - 1"] rep node by (simp add: xs)
    moreover have "map_of (ys @ [(k, v, r - 1)]) k = Some (v, r - 1)"
    proof -
      have "map_of ys k = None" using dist(2) by (simp add: map_of_eq_None_iff)
      then show ?thesis by (simp add: map_add_def)
    qed
    ultimately obtain p' where p': "move_to_head k ?p = Some p'"
        "lru_rep p' (spec_touch (k, v, r - 1) (ys @ [(k, v, r - 1)]))" "same_limits ?p p'"
      using move_to_head_touch by blast
    have "try_evict_tail p = move_to_head k ?p"
      using True tail node by (simp add: try_evict_tail_def used)
    moreover have "spec_touch (k, v, r - 1) (ys @ [(k, v, r - 1)]) = spec_evict (lp_block_type p) xs"
      using True by (simp add: spec_evict_def xs spec_touch_def)
    ultimately show ?thesis using p' by (simp add: same_limits_def)
  next
    case False
    let ?m = "(lp_map p)(k := None)"
    have m: "dll ?m None ys (Some k)" using seg dist(2) by (simp add: dll_frame)
    have d: "dom ?m = set (keys ys)" using rep dist(2) by (auto simp: lru_rep_def xs dom_fun_upd)
    have sp: "spec_evict (lp_block_type p) xs = ys" using False by (auto simp: spec_evict_def xs)
    have used: "lp_used_bytes p - length v = entry_bytes ys"
      using rep by (simp add: lru_rep_def xs entry_bytes_def)
    show ?thesis
    proof (cases "last_key ys None")
      case None
      then have ys: "ys = []" by (simp add: last_key_def split: if_splits)
      with d have "?m = Map.empty" by (simp only: list.map set_simps dom_eq_empty_conv)
      with False tail node used ys show ?thesis
        by (auto simp: try_evict_tail_def sp lru_rep_def same_limits_def)
    next
      case (Some t)
      have "dll (set_next t None ?m) None ys None" by (rule dll_set_next_last [OF m Some dist(1)])
      moreover have "lp_head p = first_key ys None"
        using rep Some by (cases ys) (simp_all add: lru_rep_def xs)
      ultimately show ?thesis
        using False tail node used d Some dist(1)
        by (auto simp: try_evict_tail_def sp lru_rep_def same_limits_def)
    qed
  qed
qed

section \<open>Termination of the eviction loop\<close>

lemma evict_measure_filter: "evict_measure (filter P xs) \<le> evict_measure xs"
  by (induction xs) (simp_all add: evict_measure_def)

lemma spec_evict_decreases: "xs \<noteq> [] \<Longrightarrow> evict_measure (spec_evict bt xs) < evict_measure xs"
proof -
  assume "xs \<noteq> []"
  then obtain ys k v r where xs: "xs = ys @ [(k, v, r)]" by (metis prod_cases3 rev_exhaust)
  have "unat (r - 1) < unat r" if "0 < r"
  proof -
    have "1 \<le> r" "0 < unat r" using that by (simp_all add: word_le_nat_alt word_less_nat_alt)
    then show ?thesis by (simp add: unat_sub)
  qed
  then show ?thesis
    using evict_measure_filter [of "\<lambda>x. fst x \<noteq> k" ys]
    by (auto simp: spec_evict_def xs spec_touch_def evict_measure_def)
qed

function spec_make_room :: "block_type \<Rightarrow> nat \<Rightarrow> nat \<Rightarrow> lru_list \<Rightarrow> lru_list" where
  "spec_make_room bt mx sz xs =
     (if mx < entry_bytes xs + sz \<and> xs \<noteq> [] then spec_make_room bt mx sz (spec_evict bt xs) else xs)"
  by pat_completeness auto

termination spec_make_room
  by (relation "measure (\<lambda>(_, _, _, xs). evict_measure xs)") (simp_all add: spec_evict_decreases)

declare spec_make_room.simps [simp del]

lemma evict_loop_rep:
  "lru_rep p xs \<Longrightarrow>
   \<exists>p'. evict_loop sz p = Some p' \<and>
     lru_rep p' (spec_make_room (lp_block_type p) (lp_max_bytes p) sz xs) \<and> same_limits p p'"
proof (induction "evict_measure xs" arbitrary: p xs rule: less_induct)
  case less
  let ?more = "lp_max_bytes p < entry_bytes xs + sz \<and> xs \<noteq> []"
  have cond: "lp_max_bytes p < lp_used_bytes p + sz \<and> lp_tail p \<noteq> None \<longleftrightarrow> ?more"
    using less.prems by (auto simp: lru_rep_def last_key_def)
  show ?case
  proof (cases ?more)
    case True
    obtain p1 where p1: "try_evict_tail p = Some p1" "lru_rep p1 (spec_evict (lp_block_type p) xs)" "same_limits p p1"
      using try_evict_tail_rep [OF less.prems] True by blast
    from less.hyps [OF spec_evict_decreases p1(2)] True
    obtain p2 where p2: "evict_loop sz p1 = Some p2"
        "lru_rep p2 (spec_make_room (lp_block_type p1) (lp_max_bytes p1) sz (spec_evict (lp_block_type p) xs))"
        "same_limits p1 p2" by blast
    have "evict_loop sz p = Some p2"
      using cond True p1(1) p2(1) by (subst evict_loop.simps) simp
    moreover have "spec_make_room (lp_block_type p) (lp_max_bytes p) sz xs =
        spec_make_room (lp_block_type p1) (lp_max_bytes p1) sz (spec_evict (lp_block_type p) xs)"
      using True p1(3) by (subst spec_make_room.simps) (simp add: same_limits_def)
    ultimately show ?thesis using p1(3) p2(2,3) by (simp add: same_limits_def)
  next
    case False
    then have "evict_loop sz p = Some p"
      by (subst evict_loop.simps) (simp only: cond if_False)
    moreover have "spec_make_room (lp_block_type p) (lp_max_bytes p) sz xs = xs"
      by (subst spec_make_room.simps) (simp only: False if_False)
    ultimately show ?thesis using less.prems by (simp add: same_limits_def)
  qed
qed

section \<open>Get and insert\<close>

definition spec_insert :: "block_type \<Rightarrow> nat \<Rightarrow> block_key \<Rightarrow> bytes \<Rightarrow> lru_list \<Rightarrow> lru_list" where
  "spec_insert bt mx k v xs =
     (case map_of xs k of
        Some (_, r) \<Rightarrow> spec_touch (k, v, r) xs
      | None \<Rightarrow> (k, v, if bt = Filter then 3 else 0) # spec_make_room bt mx (length v) xs)"

lemma pool_get_rep:
  assumes "lru_rep p xs"
  shows "\<exists>p'. pool_get k p = Some (p', snd (spec_get k xs)) \<and> lru_rep p' (fst (spec_get k xs)) \<and> same_limits p p'"
proof (cases "map_of xs k")
  case None
  then show ?thesis
    using lru_rep_lookup(1) [OF assms, of k] assms by (simp add: pool_get_def spec_get_def same_limits_def)
next
  case (Some vr)
  obtain v r where vr: "vr = (v, r)" by force
  obtain p' where p': "move_to_head k p = Some p'" "lru_rep p' (spec_touch (k, v, r) xs)" "same_limits p p'"
    using move_to_head_touch [OF assms] Some vr by blast
  have "map_of (spec_touch (k, v, r) xs) k = Some (v, r)" by (simp add: spec_touch_def)
  from lru_rep_lookup(2) [OF p'(2) this] lru_rep_lookup(1) [OF assms, of k] p' Some vr
  show ?thesis by (auto simp: pool_get_def spec_get_def)
qed

lemma spec_evict_keys: "set (keys (spec_evict bt xs)) \<subseteq> set (keys xs)"
proof (cases "xs = []")
  case False
  then obtain ys k v r where "xs = ys @ [(k, v, r)]" by (metis prod_cases3 rev_exhaust)
  then show ?thesis by (auto simp: spec_evict_def spec_touch_def)
qed (simp add: spec_evict_def)

lemma spec_make_room_keys: "set (keys (spec_make_room bt mx sz xs)) \<subseteq> set (keys xs)"
proof (induction bt mx sz xs rule: spec_make_room.induct)
  case (1 bt mx sz xs)
  show ?case
  proof (cases "mx < entry_bytes xs + sz \<and> xs \<noteq> []")
    case True
    from 1 [OF True] have "set (keys (spec_make_room bt mx sz (spec_evict bt xs))) \<subseteq> set (keys (spec_evict bt xs))" .
    also have "\<dots> \<subseteq> set (keys xs)" by (rule spec_evict_keys)
    finally show ?thesis using True by (subst spec_make_room.simps) simp
  next
    case False
    then show ?thesis by (subst spec_make_room.simps) auto
  qed
qed

lemma spec_touch_same:
  "map_of xs k = Some (v, r) \<Longrightarrow> spec_touch (k, v', r) xs = (k, v', r) # filter (\<lambda>x. fst x \<noteq> k) xs"
  by (simp add: spec_touch_def)

lemma lru_rep_push:
  assumes rep: "lru_rep p xs" and new: "k \<notin> set (keys xs)"
  shows "lru_rep (p\<lparr>lp_tail := (case lp_head p of None \<Rightarrow> Some k | Some _ \<Rightarrow> lp_tail p), lp_head := Some k,
      lp_used_bytes := lp_used_bytes p + length v,
      lp_map := (case lp_head p of None \<Rightarrow> lp_map p | Some h \<Rightarrow> set_prev h (Some k) (lp_map p))
        (k \<mapsto> \<lparr>nd_value = v, nd_resist = r, nd_prev = None, nd_next = lp_head p\<rparr>)\<rparr>) ((k, v, r) # xs)"
proof (cases xs)
  case Nil
  with rep show ?thesis by (simp add: lru_rep_def entry_bytes_def)
next
  case (Cons e ys)
  have seg: "dll (lp_map p) None xs None" "distinct (keys xs)" and head: "lp_head p = Some (fst e)"
    using rep Cons by (simp_all add: lru_rep_def)
  have "dll (set_prev (fst e) (Some k) (lp_map p)) (Some k) xs None"
    by (rule dll_set_prev_first [OF seg(1) _ seg(2)]) (simp add: Cons)
  then have "dll ((set_prev (fst e) (Some k) (lp_map p))(k \<mapsto> x)) (Some k) xs None" for x
    unfolding dll_frame [OF new] .
  moreover have "last_key ((k, v, r) # xs) None = last_key xs None" by (simp add: Cons)
  moreover have "first_key xs None = Some (fst e)" by (simp add: Cons)
  ultimately show ?thesis
    using rep new head by (auto simp: lru_rep_def entry_bytes_def)
qed

lemma pool_insert_rep:
  assumes "lru_rep p xs"
  shows "\<exists>p'. pool_insert k v p = Some p' \<and>
    lru_rep p' (spec_insert (lp_block_type p) (lp_max_bytes p) k v xs) \<and> same_limits p p'"
proof (cases "map_of xs k")
  case None
  obtain p1 where p1: "evict_loop (length v) p = Some p1"
      "lru_rep p1 (spec_make_room (lp_block_type p) (lp_max_bytes p) (length v) xs)" "same_limits p p1"
    using evict_loop_rep [OF assms] by blast
  have "k \<notin> set (keys (spec_make_room (lp_block_type p) (lp_max_bytes p) (length v) xs))"
    using None spec_make_room_keys [of "lp_block_type p" "lp_max_bytes p" "length v" xs]
    by (auto simp: map_of_eq_None_iff)
  from lru_rep_push [OF p1(2) this, of v "if lp_block_type p = Filter then 3 else 0"]
  show ?thesis
    using None lru_rep_lookup(1) [OF assms, of k] p1(1,3)
    by (simp add: pool_insert_def spec_insert_def Let_def same_limits_def)
next
  case (Some vr)
  obtain w r where vr: "vr = (w, r)" by force
  obtain n where n: "lp_map p k = Some n" "nd_value n = w" "nd_resist n = r"
    using lru_rep_lookup(2) [OF assms] Some vr by blast
  have "map_of xs k = Some (w, r)" using Some vr by simp
  then obtain as bs where xs: "xs = as @ (k, w, r) # bs" by (rule map_of_split)
  let ?p = "p\<lparr>lp_map := (lp_map p)(k \<mapsto> n\<lparr>nd_value := v, nd_resist := r\<rparr>),
      lp_used_bytes := lp_used_bytes p - length w + length v\<rparr>"
  have rep: "lru_rep ?p (as @ (k, v, r) # bs)"
    using lru_rep_update [of p as k w r bs n v r] assms n(1) by (simp add: xs)
  have dist: "distinct (keys xs)" using assms by (simp add: lru_rep_def)
  then have "map_of as k = None" by (simp add: xs map_of_eq_None_iff)
  then have "map_of (as @ (k, v, r) # bs) k = Some (v, r)" by (simp add: map_add_def)
  from move_to_head_touch [OF rep this] obtain p' where p': "move_to_head k ?p = Some p'"
      "lru_rep p' (spec_touch (k, v, r) (as @ (k, v, r) # bs))" "same_limits ?p p'" by blast
  have "?p = p\<lparr>lp_used_bytes := lp_used_bytes p - length w + length v, lp_map := (lp_map p)(k \<mapsto> n\<lparr>nd_value := v\<rparr>)\<rparr>"
    using n(3) by (cases n) simp
  then have "pool_insert k v p = Some p'"
    using n p'(1) by (simp add: pool_insert_def Let_def)
  moreover have "spec_touch (k, v, r) (as @ (k, v, r) # bs) = spec_insert (lp_block_type p) (lp_max_bytes p) k v xs"
    using Some vr by (simp add: spec_insert_def spec_touch_def xs)
  ultimately show ?thesis using p'(2,3) by (simp add: same_limits_def)
qed

lemma pool_new_rep: "lru_rep (pool_new mx bt) []"
  by (simp add: lru_rep_def pool_new_def entry_bytes_def)


section \<open>The cache as a whole\<close>

datatype cache_op = CGet block_key | CInsert block_key bytes

definition cache_step :: "cache_op \<Rightarrow> block_cache \<Rightarrow> (block_cache \<times> bytes option) option" where
  "cache_step op c =
     (case op of
        CGet k \<Rightarrow> cache_get k c
      | CInsert k v \<Rightarrow> map_option (\<lambda>c'. (c', None)) (cache_insert k v c))"

text \<open>The specification: one list of entries per block type and the byte limits of the pools.\<close>

definition pool_limit :: "nat \<Rightarrow> block_type \<Rightarrow> nat" where
  "pool_limit n bt =
     (case bt of Data \<Rightarrow> usize_percent n 70 | Filter \<Rightarrow> usize_percent n 20
      | Index \<Rightarrow> usize_minus (usize_minus n (usize_percent n 70)) (usize_percent n 20))"

definition lru_step :: "nat \<Rightarrow> cache_op \<Rightarrow> (block_type \<Rightarrow> lru_list) \<Rightarrow> (block_type \<Rightarrow> lru_list) \<times> bytes option" where
  "lru_step n op a =
     (case op of
        CGet k \<Rightarrow> (let bt = bk_block_type k; res = spec_get k (a bt) in (a(bt := fst res), snd res))
      | CInsert k v \<Rightarrow> (let bt = bk_block_type k in (a(bt := spec_insert bt (pool_limit n bt) k v (a bt)), None)))"

definition cache_rep :: "nat \<Rightarrow> block_cache \<Rightarrow> (block_type \<Rightarrow> lru_list) \<Rightarrow> bool" where
  "cache_rep n c a \<longleftrightarrow>
     (\<forall>bt. lru_rep (pool_for bt c) (a bt) \<and> lp_block_type (pool_for bt c) = bt \<and>
           lp_max_bytes (pool_for bt c) = pool_limit n bt)"

lemma pool_for_set_pool [simp]: "pool_for bt' (set_pool bt p c) = (if bt' = bt then p else pool_for bt' c)"
  by (cases bt; cases bt') (simp_all add: pool_for_def set_pool_def)

lemma cache_rep_new: "cache_rep n (cache_new n) (\<lambda>_. [])"
  unfolding cache_rep_def
  by (intro allI, rename_tac bt, case_tac bt)
     (simp_all add: pool_for_def cache_new_def pool_limit_def Let_def pool_new_rep, simp_all add: pool_new_def)

lemma cache_rep_set_pool:
  assumes "cache_rep n c a" "lru_rep p xs" "same_limits (pool_for bt c) p"
  shows "cache_rep n (set_pool bt p c) (a(bt := xs))"
  using assms by (auto simp: cache_rep_def same_limits_def)

lemma cache_step_sim:
  assumes rep: "cache_rep n c a"
  shows "\<exists>c'. cache_step op c = Some (c', snd (lru_step n op a)) \<and> cache_rep n c' (fst (lru_step n op a))"
proof (cases op)
  case (CGet k)
  let ?bt = "bk_block_type k"
  have "lru_rep (pool_for ?bt c) (a ?bt)" using rep by (simp add: cache_rep_def)
  from pool_get_rep [OF this, of k] obtain p' where
    "pool_get k (pool_for ?bt c) = Some (p', snd (spec_get k (a ?bt)))"
    "lru_rep p' (fst (spec_get k (a ?bt)))" "same_limits (pool_for ?bt c) p'" by blast
  with cache_rep_set_pool [OF rep this(2,3)] show ?thesis
    by (simp add: CGet cache_step_def cache_get_def lru_step_def Let_def)
next
  case (CInsert k v)
  let ?bt = "bk_block_type k"
  have r: "lru_rep (pool_for ?bt c) (a ?bt)" "lp_block_type (pool_for ?bt c) = ?bt"
      "lp_max_bytes (pool_for ?bt c) = pool_limit n ?bt"
    using rep by (simp_all add: cache_rep_def)
  from pool_insert_rep [OF r(1), of k v] r(2,3) obtain p' where
    "pool_insert k v (pool_for ?bt c) = Some p'"
    "lru_rep p' (spec_insert ?bt (pool_limit n ?bt) k v (a ?bt))" "same_limits (pool_for ?bt c) p'" by auto
  with cache_rep_set_pool [OF rep this(2,3)] show ?thesis
    by (simp add: CInsert cache_step_def cache_insert_def lru_step_def Let_def)
qed

interpretation cache_sim: simulation cache_step "lru_step n" "cache_rep n" for n
  by unfold_locales (rule cache_step_sim)

lemma spec_make_room_fits:
  "sz \<le> mx \<Longrightarrow> entry_bytes (spec_make_room bt mx sz xs) + sz \<le> mx"
proof (induction bt mx sz xs rule: spec_make_room.induct)
  case (1 bt mx sz xs)
  show ?case
  proof (cases "mx < entry_bytes xs + sz \<and> xs \<noteq> []")
    case True
    from 1(1) [OF True 1(2)] True show ?thesis by (subst spec_make_room.simps) simp
  next
    case False
    with 1(2) have "entry_bytes xs + sz \<le> mx" by (auto simp: entry_bytes_def)
    then show ?thesis by (subst spec_make_room.simps) simp
  qed
qed

text \<open>C8. Refinement of the block cache: every sequence of lookups and inserts on a fresh cache runs
  to its end (no indexing panic, and the eviction loop terminates on every insert) and returns
  exactly what three independent least-recently-used lists return, whose filter list gives every
  block three more rounds before it is evicted.\<close>

theorem block_cache_refines_lru:
  "map_option snd (run_ops cache_step ops (cache_new total_max_bytes)) =
   Some (snd (run_spec (lru_step total_max_bytes) ops (\<lambda>_. [])))"
  by (rule cache_sim.run_answers [OF cache_rep_new])

text \<open>C20. Memory bound of the block cache: after any sequence of operations, the insert of a block
  that is not cached and fits into its pool evicts until the pool is within its limit again, counts
  exactly the bytes it holds, and the block is found afterwards.\<close>

theorem block_cache_insert_within_limit:
  assumes run: "run_ops cache_step ops (cache_new total_max_bytes) = Some (c, rs)"
    and absent: "lp_map (pool_for (bk_block_type k) c) k = None"
    and fits: "length v \<le> lp_max_bytes (pool_for (bk_block_type k) c)"
  shows "\<exists>c'. cache_insert k v c = Some c' \<and>
    lp_used_bytes (pool_for (bk_block_type k) c') \<le> lp_max_bytes (pool_for (bk_block_type k) c') \<and>
    map_option snd (cache_get k c') = Some (Some v)"
proof -
  let ?n = total_max_bytes and ?bt = "bk_block_type k"
  let ?a = "fst (run_spec (lru_step ?n) ops (\<lambda>_. []))"
  let ?a' = "fst (lru_step ?n (CInsert k v) ?a)"
  have rep: "cache_rep ?n c ?a" by (rule cache_sim.run_related [OF cache_rep_new run])
  from cache_step_sim [OF this, of "CInsert k v"] obtain c' where
    c': "cache_insert k v c = Some c'" "cache_rep ?n c' ?a'"
    by (auto simp: cache_step_def lru_step_def Let_def)
  have mx: "lp_max_bytes (pool_for ?bt c) = pool_limit ?n ?bt" "lru_rep (pool_for ?bt c) (?a ?bt)"
    using rep by (simp_all add: cache_rep_def)
  have "map_of (?a ?bt) k = None" using lru_rep_lookup(1) [OF mx(2), of k] absent by simp
  then have a': "?a' ?bt = (k, v, if ?bt = Filter then 3 else 0) #
      spec_make_room ?bt (pool_limit ?n ?bt) (length v) (?a ?bt)"
    by (simp add: lru_step_def spec_insert_def Let_def)
  have "lp_used_bytes (pool_for ?bt c') = entry_bytes (?a' ?bt)"
      "lp_max_bytes (pool_for ?bt c') = pool_limit ?n ?bt"
    using c'(2) by (simp_all add: cache_rep_def lru_rep_def)
  moreover have "entry_bytes (?a' ?bt) \<le> pool_limit ?n ?bt"
    using spec_make_room_fits [of "length v" "pool_limit ?n ?bt" ?bt "?a ?bt"] fits mx(1)
    by (simp add: a' entry_bytes_def)
  moreover have "map_option snd (cache_get k c') = Some (Some v)"
    using cache_step_sim [OF c'(2), of "CGet k"] a'
    by (auto simp: cache_step_def lru_step_def spec_get_def Let_def)
  ultimately show ?thesis using c'(1) by simp
qed

theorem block_cache_insert_within_limit_witness:
  "\<exists>c'. cache_insert (key_data ''p'' ''c'' 1) [1, 2, 3] (cache_new 10) = Some c' \<and>
    lp_used_bytes (bc_data_pool c') \<le> lp_max_bytes (bc_data_pool c') \<and>
    map_option snd (cache_get (key_data ''p'' ''c'' 1) c') = Some (Some [1, 2, 3])"
  using block_cache_insert_within_limit [of "[]" 10 "cache_new 10" "[]" "key_data ''p'' ''c'' 1" "[1, 2, 3]"]
  by (simp add: key_data_def pool_for_def cache_new_def usize_percent_def usize_minus_def pool_new_def Let_def)

text \<open>Replacing the block of a cached key skips the eviction loop: the pool stays over its limit.\<close>

lemma block_cache_update_over_limit:
  "let k = key_data ''p'' ''c'' 1
   in \<exists>c rs. run_ops cache_step [CInsert k [1], CInsert k (replicate 9 0)] (cache_new 10) = Some (c, rs) \<and>
        lp_max_bytes (bc_data_pool c) = 7 \<and> lp_used_bytes (bc_data_pool c) = 9"
  by (simp add: key_data_def cache_step_def cache_insert_def pool_insert_def evict_loop.simps pool_for_def
      set_pool_def cache_new_def usize_percent_def usize_minus_def pool_new_def move_to_head_def Let_def)

end
