(* ===== verification/Transactions.thy ===== *)
theory Transactions
  imports Prelude
begin

text \<open>
  Two-phase commit: the participant table of a storage node
  (\<open>storage-node/src/transaction.rs\<close>, \<open>SnTransactionManager\<close>) and the coordinator table of a
  query node (\<open>query-node/src/transaction.rs\<close>, \<open>TransactionManager\<close>). Both keep a hash map under a
  lock, so an operation is one step. An \<open>Instant\<close> is a natural number of nanoseconds and the
  current time is an argument; transaction ids of the coordinator (random UUIDs) are an
  argument of \<open>begin\<close>; the iteration order of the hash map is an argument where it is observable.
\<close>

section \<open>The storage-node participant\<close>

datatype sn_tx_state = SActive | SPrepared | SCommitted | SRolledBack

record sn_transaction =
  stx_id :: u64
  stx_state :: sn_tx_state
  stx_tablet_ids :: "string list"
  stx_prepare_lsn :: "u64 option"
  stx_started_at :: nat

definition sn_transaction_new :: "nat \<Rightarrow> u64 \<Rightarrow> sn_transaction" where
  "sn_transaction_new now tx_id =
     \<lparr>stx_id = tx_id, stx_state = SActive, stx_tablet_ids = [], stx_prepare_lsn = None, stx_started_at = now\<rparr>"

record sn_manager =
  sn_txns :: "u64 \<rightharpoonup> sn_transaction"
  sn_timeout :: nat

definition sn_with_timeout :: "nat \<Rightarrow> sn_manager" where
  "sn_with_timeout timeout = \<lparr>sn_txns = Map.empty, sn_timeout = timeout\<rparr>"

definition sn_new :: sn_manager where
  "sn_new = sn_with_timeout (120 * 1000000000)"

datatype sn_error =
    SnNotFound u64
  | SnAlreadyInState u64 sn_tx_state
  | SnTimedOutDuringPrepare u64
  | SnCannotCommit u64 sn_tx_state
  | SnCannotRollback u64

definition sn_put :: "u64 \<Rightarrow> sn_transaction \<Rightarrow> sn_manager \<Rightarrow> sn_manager" where
  "sn_put tx_id t m = m\<lparr>sn_txns := (sn_txns m)(tx_id \<mapsto> t)\<rparr>"

definition sn_register :: "nat \<Rightarrow> u64 \<Rightarrow> sn_manager \<Rightarrow> sn_manager" where
  "sn_register now tx_id m =
     (case sn_txns m tx_id of None \<Rightarrow> sn_put tx_id (sn_transaction_new now tx_id) m | Some _ \<Rightarrow> m)"

definition sn_add_tablet :: "u64 \<Rightarrow> string \<Rightarrow> sn_manager \<Rightarrow> sn_manager \<times> (sn_error + unit)" where
  "sn_add_tablet tx_id tablet_id m =
     (case sn_txns m tx_id of
        None \<Rightarrow> (m, Inl (SnNotFound tx_id))
      | Some t \<Rightarrow>
          (if tablet_id \<in> set (stx_tablet_ids t) then m
           else sn_put tx_id (t\<lparr>stx_tablet_ids := stx_tablet_ids t @ [tablet_id]\<rparr>) m, Inr ()))"

definition sn_prepare :: "nat \<Rightarrow> u64 \<Rightarrow> u64 \<Rightarrow> sn_manager \<Rightarrow> sn_manager \<times> (sn_error + unit)" where
  "sn_prepare now tx_id lsn m =
     (case sn_txns m tx_id of
        None \<Rightarrow> (m, Inl (SnNotFound tx_id))
      | Some t \<Rightarrow>
          if stx_state t \<noteq> SActive then (m, Inl (SnAlreadyInState tx_id (stx_state t)))
          else if sn_timeout m < now - stx_started_at t
          then (sn_put tx_id (t\<lparr>stx_state := SRolledBack\<rparr>) m, Inl (SnTimedOutDuringPrepare tx_id))
          else (sn_put tx_id (t\<lparr>stx_state := SPrepared, stx_prepare_lsn := Some lsn\<rparr>) m, Inr ()))"

definition sn_commit :: "u64 \<Rightarrow> sn_manager \<Rightarrow> sn_manager \<times> (sn_error + string list)" where
  "sn_commit tx_id m =
     (case sn_txns m tx_id of
        None \<Rightarrow> (m, Inl (SnNotFound tx_id))
      | Some t \<Rightarrow>
          (case stx_state t of
             SPrepared \<Rightarrow> (sn_put tx_id (t\<lparr>stx_state := SCommitted\<rparr>) m, Inr (stx_tablet_ids t))
           | SCommitted \<Rightarrow> (m, Inr (stx_tablet_ids t))
           | _ \<Rightarrow> (m, Inl (SnCannotCommit tx_id (stx_state t)))))"

definition sn_rollback :: "u64 \<Rightarrow> sn_manager \<Rightarrow> sn_manager \<times> (sn_error + string list)" where
  "sn_rollback tx_id m =
     (case sn_txns m tx_id of
        None \<Rightarrow> (m, Inl (SnNotFound tx_id))
      | Some t \<Rightarrow>
          if stx_state t = SCommitted then (m, Inl (SnCannotRollback tx_id))
          else (sn_put tx_id (t\<lparr>stx_state := SRolledBack\<rparr>) m, Inr (stx_tablet_ids t)))"

definition sn_open :: "sn_transaction \<Rightarrow> bool" where
  "sn_open t \<longleftrightarrow> stx_state t = SActive \<or> stx_state t = SPrepared"

definition sn_expired :: "nat \<Rightarrow> sn_manager \<Rightarrow> sn_transaction \<Rightarrow> bool" where
  "sn_expired now m t \<longleftrightarrow> sn_open t \<and> sn_timeout m < now - stx_started_at t"

text \<open>\<open>order\<close> is the order in which the hash map yields its keys; it only orders the answer.\<close>

definition sn_cleanup_timed_out :: "u64 list \<Rightarrow> nat \<Rightarrow> sn_manager \<Rightarrow> sn_manager \<times> u64 list" where
  "sn_cleanup_timed_out order now m =
     (let aborted = filter (\<lambda>k. case sn_txns m k of None \<Rightarrow> False | Some t \<Rightarrow> sn_expired now m t) order;
          marked = (\<lambda>k. map_option (\<lambda>t. if sn_expired now m t then t\<lparr>stx_state := SRolledBack\<rparr> else t) (sn_txns m k));
          retained = (\<lambda>k. case marked k of None \<Rightarrow> None | Some t \<Rightarrow> if sn_open t then Some t else None)
      in (m\<lparr>sn_txns := retained\<rparr>, aborted))"

definition sn_get_state :: "u64 \<Rightarrow> sn_manager \<Rightarrow> sn_tx_state option" where
  "sn_get_state tx_id m = map_option stx_state (sn_txns m tx_id)"

definition sn_active_count :: "u64 list \<Rightarrow> sn_manager \<Rightarrow> nat" where
  "sn_active_count order m =
     length (filter (\<lambda>k. case sn_txns m k of None \<Rightarrow> False | Some t \<Rightarrow> sn_open t) order)"

section \<open>The query-node coordinator\<close>

datatype tx_state = TActive | TPrepared | TCommitted | TRolledBack | TAborted

record tx_participant =
  tp_node_id :: string
  tp_endpoint :: string
  tp_prepared :: bool

record transaction =
  tx_id_of :: string
  tx_state_of :: tx_state
  tx_participants :: "tx_participant list"
  tx_started_at :: nat
  tx_cube_name :: string

definition transaction_new :: "string \<Rightarrow> nat \<Rightarrow> string \<Rightarrow> transaction" where
  "transaction_new uuid now cube_name =
     \<lparr>tx_id_of = uuid, tx_state_of = TActive, tx_participants = [], tx_started_at = now, tx_cube_name = cube_name\<rparr>"

definition is_timed_out :: "nat \<Rightarrow> nat \<Rightarrow> transaction \<Rightarrow> bool" where
  "is_timed_out now timeout t \<longleftrightarrow> timeout < now - tx_started_at t"

record tx_manager =
  tm_txns :: "string \<rightharpoonup> transaction"
  tm_timeout :: nat

definition tm_with_timeout :: "nat \<Rightarrow> tx_manager" where
  "tm_with_timeout timeout = \<lparr>tm_txns = Map.empty, tm_timeout = timeout\<rparr>"

definition tm_new :: tx_manager where
  "tm_new = tm_with_timeout (60 * 1000000000)"

datatype tx_error =
    TxNotFound string
  | TxNotActive string
  | TxCannotCommit string tx_state
  | TxTimedOut string

definition tm_put :: "string \<Rightarrow> transaction \<Rightarrow> tx_manager \<Rightarrow> tx_manager" where
  "tm_put tx_id t m = m\<lparr>tm_txns := (tm_txns m)(tx_id \<mapsto> t)\<rparr>"

definition tm_begin :: "string \<Rightarrow> nat \<Rightarrow> string \<Rightarrow> tx_manager \<Rightarrow> tx_manager \<times> (tx_error + string)" where
  "tm_begin uuid now cube_name m = (tm_put uuid (transaction_new uuid now cube_name) m, Inr uuid)"

definition tm_register_participant ::
  "string \<Rightarrow> string \<Rightarrow> string \<Rightarrow> tx_manager \<Rightarrow> tx_manager \<times> (tx_error + unit)" where
  "tm_register_participant tx_id node_id endpoint m =
     (case tm_txns m tx_id of
        None \<Rightarrow> (m, Inl (TxNotFound tx_id))
      | Some t \<Rightarrow>
          if tx_state_of t \<noteq> TActive then (m, Inl (TxNotActive tx_id))
          else (tm_put tx_id
                  (t\<lparr>tx_participants := tx_participants t @
                       [\<lparr>tp_node_id = node_id, tp_endpoint = endpoint, tp_prepared = False\<rparr>]\<rparr>) m, Inr ()))"

fun ack_first :: "string \<Rightarrow> tx_participant list \<Rightarrow> tx_participant list" where
  "ack_first node_id [] = []"
| "ack_first node_id (p # ps) =
     (if tp_node_id p = node_id then p\<lparr>tp_prepared := True\<rparr> # ps else p # ack_first node_id ps)"

definition tm_receive_prepare_ack :: "string \<Rightarrow> string \<Rightarrow> tx_manager \<Rightarrow> tx_manager \<times> (tx_error + bool)" where
  "tm_receive_prepare_ack tx_id node_id m =
     (case tm_txns m tx_id of
        None \<Rightarrow> (m, Inl (TxNotFound tx_id))
      | Some t \<Rightarrow>
          (let ps = ack_first node_id (tx_participants t);
               all_prepared = list_all tp_prepared ps;
               st = (if all_prepared \<and> tx_state_of t = TActive then TPrepared else tx_state_of t)
           in (tm_put tx_id (t\<lparr>tx_participants := ps, tx_state_of := st\<rparr>) m, Inr all_prepared)))"

definition tm_prepare_commit :: "nat \<Rightarrow> string \<Rightarrow> tx_manager \<Rightarrow> tx_manager \<times> (tx_error + tx_participant list)" where
  "tm_prepare_commit now tx_id m =
     (case tm_txns m tx_id of
        None \<Rightarrow> (m, Inl (TxNotFound tx_id))
      | Some t \<Rightarrow>
          if tx_state_of t \<noteq> TActive \<and> tx_state_of t \<noteq> TPrepared
          then (m, Inl (TxCannotCommit tx_id (tx_state_of t)))
          else if is_timed_out now (tm_timeout m) t
          then (tm_put tx_id (t\<lparr>tx_state_of := TAborted\<rparr>) m, Inl (TxTimedOut tx_id))
          else (m, Inr (tx_participants t)))"

definition tm_mark_committed :: "string \<Rightarrow> tx_manager \<Rightarrow> tx_manager \<times> (tx_error + unit)" where
  "tm_mark_committed tx_id m =
     (case tm_txns m tx_id of
        None \<Rightarrow> (m, Inl (TxNotFound tx_id))
      | Some t \<Rightarrow> (tm_put tx_id (t\<lparr>tx_state_of := TCommitted\<rparr>) m, Inr ()))"

definition tm_rollback :: "string \<Rightarrow> tx_manager \<Rightarrow> tx_manager \<times> (tx_error + tx_participant list)" where
  "tm_rollback tx_id m =
     (case tm_txns m tx_id of
        None \<Rightarrow> (m, Inl (TxNotFound tx_id))
      | Some t \<Rightarrow> (tm_put tx_id (t\<lparr>tx_state_of := TRolledBack\<rparr>) m, Inr (tx_participants t)))"

definition tm_get_state :: "string \<Rightarrow> tx_manager \<Rightarrow> tx_state option" where
  "tm_get_state tx_id m = map_option tx_state_of (tm_txns m tx_id)"

definition tm_open :: "transaction \<Rightarrow> bool" where
  "tm_open t \<longleftrightarrow> tx_state_of t = TActive \<or> tx_state_of t = TPrepared"

definition tm_expired :: "nat \<Rightarrow> tx_manager \<Rightarrow> transaction \<Rightarrow> bool" where
  "tm_expired now m t \<longleftrightarrow> tm_open t \<and> is_timed_out now (tm_timeout m) t"

definition tm_cleanup_timed_out :: "string list \<Rightarrow> nat \<Rightarrow> tx_manager \<Rightarrow> tx_manager \<times> nat" where
  "tm_cleanup_timed_out order now m =
     (let aborted = length (filter (\<lambda>k. case tm_txns m k of None \<Rightarrow> False | Some t \<Rightarrow> tm_expired now m t) order);
          marked = (\<lambda>k. map_option (\<lambda>t. if tm_expired now m t then t\<lparr>tx_state_of := TAborted\<rparr> else t) (tm_txns m k));
          retained = (\<lambda>k. case marked k of None \<Rightarrow> None | Some t \<Rightarrow> if tm_open t then Some t else None)
      in (m\<lparr>tm_txns := retained\<rparr>, aborted))"

definition tm_active_count :: "string list \<Rightarrow> tx_manager \<Rightarrow> nat" where
  "tm_active_count order m =
     length (filter (\<lambda>k. case tm_txns m k of None \<Rightarrow> False | Some t \<Rightarrow> tm_open t) order)"


section \<open>Operations and answers of the participant\<close>

datatype sn_op =
    SnRegister nat u64
  | SnAddTablet u64 string
  | SnPrepare nat u64 u64
  | SnCommit u64
  | SnRollback u64
  | SnCleanup "u64 list" nat

datatype sn_answer = SnDone | SnTablets "string list" | SnAborted "u64 list" | SnErr sn_error

definition sn_step :: "sn_op \<Rightarrow> sn_manager \<Rightarrow> sn_manager \<times> sn_answer" where
  "sn_step op m =
     (case op of
        SnRegister now k \<Rightarrow> (sn_register now k m, SnDone)
      | SnAddTablet k tb \<Rightarrow> map_prod id (case_sum SnErr (\<lambda>_. SnDone)) (sn_add_tablet k tb m)
      | SnPrepare now k lsn \<Rightarrow> map_prod id (case_sum SnErr (\<lambda>_. SnDone)) (sn_prepare now k lsn m)
      | SnCommit k \<Rightarrow> map_prod id (case_sum SnErr SnTablets) (sn_commit k m)
      | SnRollback k \<Rightarrow> map_prod id (case_sum SnErr SnTablets) (sn_rollback k m)
      | SnCleanup order now \<Rightarrow> map_prod id SnAborted (sn_cleanup_timed_out order now m))"

text \<open>What a history says about one transaction.\<close>

type_synonym sn_history = "(sn_op \<times> sn_answer) list"

fun sn_registers :: "u64 \<Rightarrow> sn_op \<Rightarrow> bool" where
  "sn_registers k (SnRegister _ k') \<longleftrightarrow> k' = k"
| "sn_registers k _ \<longleftrightarrow> False"

fun sn_prepare_acked :: "u64 \<Rightarrow> sn_op \<times> sn_answer \<Rightarrow> bool" where
  "sn_prepare_acked k (SnPrepare _ k' _, r) \<longleftrightarrow> k' = k \<and> r = SnDone"
| "sn_prepare_acked k _ \<longleftrightarrow> False"

fun sn_commit_acked :: "u64 \<Rightarrow> sn_op \<times> sn_answer \<Rightarrow> bool" where
  "sn_commit_acked k (SnCommit k', SnTablets _) \<longleftrightarrow> k' = k"
| "sn_commit_acked k _ \<longleftrightarrow> False"

fun sn_abort_acked :: "u64 \<Rightarrow> sn_op \<times> sn_answer \<Rightarrow> bool" where
  "sn_abort_acked k (SnPrepare _ k' _, r) \<longleftrightarrow> k' = k \<and> r = SnErr (SnTimedOutDuringPrepare k)"
| "sn_abort_acked k (SnRollback k', SnTablets _) \<longleftrightarrow> k' = k"
| "sn_abort_acked k (SnCleanup _ _, SnAborted ks) \<longleftrightarrow> k \<in> set ks"
| "sn_abort_acked k _ \<longleftrightarrow> False"

text \<open>The outcome of a transaction that is registered at most once is recorded in its state for as
  long as the entry lives.\<close>

definition sn_outcome_ok :: "nat \<Rightarrow> bool \<Rightarrow> bool \<Rightarrow> bool \<Rightarrow> sn_tx_state option \<Rightarrow> bool" where
  "sn_outcome_ok registered prepared committed aborted st \<longleftrightarrow>
     (registered \<le> 1 \<longrightarrow>
       \<not> (committed \<and> aborted) \<and> (committed \<longrightarrow> prepared) \<and>
       (registered = 0 \<longrightarrow> st = None \<and> \<not> committed \<and> \<not> aborted) \<and>
       (st = Some SActive \<longrightarrow> \<not> committed \<and> \<not> aborted) \<and>
       (st = Some SPrepared \<longrightarrow> prepared \<and> \<not> committed \<and> \<not> aborted) \<and>
       (st = Some SCommitted \<longrightarrow> prepared \<and> \<not> aborted) \<and>
       (st = Some SRolledBack \<longrightarrow> \<not> committed))"

definition sn_outcome :: "u64 \<Rightarrow> sn_manager \<Rightarrow> sn_history \<Rightarrow> bool" where
  "sn_outcome k m h \<longleftrightarrow>
     sn_outcome_ok (length (filter (\<lambda>x. sn_registers k (fst x)) h)) (list_ex (sn_prepare_acked k) h)
       (list_ex (sn_commit_acked k) h) (list_ex (sn_abort_acked k) h) (sn_get_state k m)"

lemma sn_txns_put [simp]: "sn_txns (sn_put k t m) k' = (if k' = k then Some t else sn_txns m k')"
  by (simp add: sn_put_def)

lemma sn_cleanup_txns:
  "sn_txns (fst (sn_cleanup_timed_out order now m)) k =
     (case sn_txns m k of None \<Rightarrow> None | Some t \<Rightarrow> if sn_open t \<and> \<not> sn_expired now m t then Some t else None)"
  by (simp add: sn_cleanup_timed_out_def Let_def sn_open_def split: option.split)

lemma sn_cleanup_aborted:
  "k \<in> set (snd (sn_cleanup_timed_out order now m)) \<Longrightarrow> \<exists>t. sn_txns m k = Some t \<and> sn_expired now m t"
  by (auto simp: sn_cleanup_timed_out_def Let_def split: option.splits)

lemma sn_outcome_quiet:
  assumes "sn_outcome k m h" "sn_get_state k m' = sn_get_state k m"
    and "\<not> sn_registers k op" "\<not> sn_prepare_acked k (op, r)" "\<not> sn_commit_acked k (op, r)" "\<not> sn_abort_acked k (op, r)"
  shows "sn_outcome k m' (h @ [(op, r)])"
  using assms by (simp add: sn_outcome_def)

lemma sn_outcome_prepare:
  assumes I: "sn_outcome k m h" and s: "sn_step (SnPrepare now k lsn) m = (m', r)"
  shows "sn_outcome k m' (h @ [(SnPrepare now k lsn, r)])"
proof (cases "sn_get_state k m = Some SActive")
  case True
  then obtain t where "sn_txns m k = Some t" "stx_state t = SActive" by (auto simp: sn_get_state_def)
  with I s show ?thesis
    by (cases "sn_timeout m < now - stx_started_at t")
       (auto simp: sn_outcome_def sn_outcome_ok_def sn_step_def sn_prepare_def sn_get_state_def)
next
  case False
  with s have "m' = m" "\<exists>e. r = SnErr e \<and> e \<noteq> SnTimedOutDuringPrepare k"
    by (auto simp: sn_step_def sn_prepare_def sn_get_state_def split: option.splits if_splits)
  with I show ?thesis by (auto intro: sn_outcome_quiet)
qed

lemma sn_outcome_commit:
  assumes I: "sn_outcome k m h" and s: "sn_step (SnCommit k) m = (m', r)"
  shows "sn_outcome k m' (h @ [(SnCommit k, r)])"
proof (cases "sn_txns m k")
  case None
  with I s show ?thesis by (auto simp: sn_step_def sn_commit_def intro: sn_outcome_quiet)
next
  case (Some t)
  with I s show ?thesis
    by (cases "stx_state t")
       (auto simp: sn_outcome_def sn_outcome_ok_def sn_step_def sn_commit_def sn_get_state_def)
qed

lemma sn_outcome_rollback:
  assumes I: "sn_outcome k m h" and s: "sn_step (SnRollback k) m = (m', r)"
  shows "sn_outcome k m' (h @ [(SnRollback k, r)])"
proof (cases "sn_txns m k")
  case None
  with I s show ?thesis by (auto simp: sn_step_def sn_rollback_def intro: sn_outcome_quiet)
next
  case (Some t)
  with I s show ?thesis
    by (cases "stx_state t")
       (auto simp: sn_outcome_def sn_outcome_ok_def sn_step_def sn_rollback_def sn_get_state_def)
qed

lemma sn_outcome_cleanup:
  assumes I: "sn_outcome k m h" and s: "sn_step (SnCleanup order now) m = (m', r)"
  shows "sn_outcome k m' (h @ [(SnCleanup order now, r)])"
proof -
  let ?c = "sn_cleanup_timed_out order now m"
  have m': "m' = fst ?c" and r: "r = SnAborted (snd ?c)" using s by (cases ?c, simp add: sn_step_def)+
  show ?thesis
  proof (cases "k \<in> set (snd ?c)")
    case True
    from sn_cleanup_aborted [OF this] have "sn_get_state k m' = None" "sn_get_state k m \<in> {Some SActive, Some SPrepared}"
      by (auto simp: m' sn_get_state_def sn_cleanup_txns sn_open_def sn_expired_def)
    with I True r show ?thesis by (auto simp: sn_outcome_def sn_outcome_ok_def)
  next
    case False
    have "sn_get_state k m' = None \<or> sn_get_state k m' = sn_get_state k m"
      by (auto simp: m' sn_get_state_def sn_cleanup_txns split: option.split)
    with I False r show ?thesis by (auto simp: sn_outcome_def sn_outcome_ok_def)
  qed
qed

lemma sn_step_frame:
  assumes "sn_step op m = (m', r)"
    and "case op of SnRegister _ k' \<Rightarrow> k' \<noteq> k | SnPrepare _ k' _ \<Rightarrow> k' \<noteq> k | SnCommit k' \<Rightarrow> k' \<noteq> k
      | SnRollback k' \<Rightarrow> k' \<noteq> k | SnCleanup _ _ \<Rightarrow> False | SnAddTablet _ _ \<Rightarrow> True"
  shows "sn_get_state k m' = sn_get_state k m"
proof (cases op)
  case (SnCommit k')
  with assms show ?thesis
    by (auto simp: sn_step_def sn_get_state_def sn_commit_def split: option.splits sn_tx_state.splits)
qed (use assms in \<open>auto simp: sn_step_def sn_get_state_def sn_register_def sn_add_tablet_def sn_prepare_def
       sn_rollback_def split: option.splits if_splits\<close>)

lemma sn_outcome_step:
  assumes I: "sn_outcome k m h" and s: "sn_step op m = (m', r)"
  shows "sn_outcome k m' (h @ [(op, r)])"
proof (cases op)
  case (SnRegister now k')
  show ?thesis
  proof (cases "k' = k \<and> sn_txns m k = None")
    case True
    with SnRegister I s show ?thesis
      by (auto simp: sn_outcome_def sn_outcome_ok_def sn_step_def sn_register_def sn_transaction_new_def sn_get_state_def)
  next
    case False
    with SnRegister s have "sn_get_state k m' = sn_get_state k m"
      by (auto simp: sn_step_def sn_register_def sn_get_state_def split: option.splits)
    with SnRegister I show ?thesis by (auto simp: sn_outcome_def sn_outcome_ok_def)
  qed
next
  case (SnAddTablet k' tb)
  then show ?thesis using sn_outcome_quiet [OF I sn_step_frame [OF s]] by simp
next
  case (SnPrepare now k' lsn)
  then show ?thesis using sn_outcome_quiet [OF I sn_step_frame [OF s]] sn_outcome_prepare [OF I] s
    by (cases "k' = k") simp_all
next
  case (SnCommit k')
  then show ?thesis using sn_outcome_quiet [OF I sn_step_frame [OF s]] sn_outcome_commit [OF I] s
    by (cases "k' = k"; cases r) simp_all
next
  case (SnRollback k')
  then show ?thesis using sn_outcome_quiet [OF I sn_step_frame [OF s]] sn_outcome_rollback [OF I] s
    by (cases "k' = k"; cases r) simp_all
next
  case (SnCleanup order now)
  then show ?thesis using sn_outcome_cleanup [OF I] s by simp
qed

interpretation sn_outcomes: history_invariant sn_step "sn_outcome k" for k
  by unfold_locales (rule sn_outcome_step)

text \<open>Operations that do not end a prepared transaction started at \<open>started\<close>.\<close>

fun sn_keeps_prepared :: "u64 \<Rightarrow> nat \<Rightarrow> nat \<Rightarrow> sn_op \<Rightarrow> bool" where
  "sn_keeps_prepared k started timeout (SnCommit k') \<longleftrightarrow> k' \<noteq> k"
| "sn_keeps_prepared k started timeout (SnRollback k') \<longleftrightarrow> k' \<noteq> k"
| "sn_keeps_prepared k started timeout (SnCleanup _ now) \<longleftrightarrow> now - started \<le> timeout"
| "sn_keeps_prepared k started timeout _ \<longleftrightarrow> True"

lemma sn_step_prepared:
  assumes "sn_txns m k = Some t" "stx_state t = SPrepared"
    and "sn_keeps_prepared k (stx_started_at t) (sn_timeout m) op"
    and "sn_step op m = (m', r)"
  shows "\<exists>t'. sn_txns m' k = Some t' \<and> stx_state t' = SPrepared \<and> stx_started_at t' = stx_started_at t \<and>
    set (stx_tablet_ids t) \<subseteq> set (stx_tablet_ids t') \<and> sn_timeout m' = sn_timeout m"
proof (cases op)
  case (SnCleanup order now)
  let ?c = "sn_cleanup_timed_out order now m"
  have "sn_timeout (fst ?c) = sn_timeout m" by (simp add: sn_cleanup_timed_out_def Let_def)
  moreover have "m' = fst ?c" using SnCleanup assms(4) by (cases ?c, simp add: sn_step_def)
  ultimately show ?thesis
    using SnCleanup assms sn_cleanup_txns [of order now m k] by (auto simp: sn_open_def sn_expired_def)
qed (use assms in \<open>auto simp: sn_step_def sn_register_def sn_add_tablet_def sn_prepare_def sn_commit_def
       sn_rollback_def sn_put_def split: option.splits if_splits sn_tx_state.splits\<close>)

text \<open>C5. Atomicity of a two-phase-commit participant: over any sequence of operations of any
  transactions on a storage node, timeouts and cleanups included, a transaction that is registered
  at most once never has both a commit that was answered and a rollback, prepare timeout or
  cleanup that aborted it; and a commit is answered only after a prepare of that transaction was.\<close>

theorem sn_commit_atomic:
  assumes "run_spec sn_step ops (sn_with_timeout timeout) = (m, rs)"
    and "length (filter (sn_registers tx_id) ops) \<le> 1"
  shows "\<not> (list_ex (sn_commit_acked tx_id) (zip ops rs) \<and> list_ex (sn_abort_acked tx_id) (zip ops rs)) \<and>
    (list_ex (sn_commit_acked tx_id) (zip ops rs) \<longrightarrow> list_ex (sn_prepare_acked tx_id) (zip ops rs))"
proof -
  have "sn_outcome tx_id m (zip ops rs)"
    by (rule sn_outcomes.run_inv [OF _ assms(1)])
       (simp add: sn_outcome_def sn_outcome_ok_def sn_get_state_def sn_with_timeout_def)
  moreover have "length (filter (\<lambda>x. sn_registers tx_id (fst x)) (zip ops rs)) = length (filter (sn_registers tx_id) ops)"
    using run_spec_length [OF assms(1)] by (rule length_filter_zip_fst)
  ultimately show ?thesis using assms(2) by (simp add: sn_outcome_def sn_outcome_ok_def)
qed

theorem sn_commit_atomic_witness:
  "let ops = [SnRegister 0 7, SnAddTablet 7 ''t1'', SnPrepare 5 7 42, SnCommit 7, SnRollback 7, SnCleanup [7] 999];
       rs = snd (run_spec sn_step ops (sn_with_timeout 100))
   in list_ex (sn_commit_acked 7) (zip ops rs) \<and> list_ex (sn_prepare_acked 7) (zip ops rs) \<and>
      \<not> list_ex (sn_abort_acked 7) (zip ops rs)"
proof -
  let ?ops = "[SnRegister 0 7, SnAddTablet 7 ''t1'', SnPrepare 5 7 42, SnCommit 7, SnRollback 7, SnCleanup [7] 999]"
  let ?rs = "snd (run_spec sn_step ?ops (sn_with_timeout 100))"
  have "list_ex (sn_commit_acked 7) (zip ?ops ?rs)"
    by (simp add: sn_step_def sn_register_def sn_with_timeout_def sn_add_tablet_def sn_put_def sn_prepare_def
        sn_commit_def sn_rollback_def sn_cleanup_timed_out_def sn_transaction_new_def         sn_expired_def sn_open_def Let_def)
  moreover have "length (filter (sn_registers 7) ?ops) \<le> 1" by simp
  ultimately show ?thesis
    using sn_commit_atomic [of ?ops 100 _ ?rs 7, OF prod.collapse [symmetric]] unfolding Let_def by blast
qed

text \<open>C21. A prepared participant can always be committed: once a transaction is prepared, no
  sequence of operations of other transactions, and no registration, tablet, repeated prepare or
  cleanup within the timeout, takes it out of the prepared state; the commit that follows succeeds
  and returns at least the tablets it had.\<close>

theorem sn_prepared_stays_committable:
  assumes "sn_txns m tx_id = Some t" "stx_state t = SPrepared"
    and "list_all (sn_keeps_prepared tx_id (stx_started_at t) (sn_timeout m)) ops"
  shows "\<exists>tablets. snd (sn_commit tx_id (fst (run_spec sn_step ops m))) = Inr tablets \<and>
    set (stx_tablet_ids t) \<subseteq> set tablets"
  using assms
proof (induction ops arbitrary: m t)
  case Nil
  then show ?case by (simp add: sn_commit_def)
next
  case (Cons op ops)
  have st: "stx_state t = SPrepared" "sn_txns m tx_id = Some t" using Cons.prems by simp_all
  have op: "sn_keeps_prepared tx_id (stx_started_at t) (sn_timeout m) op"
    using Cons.prems(3) by simp
  obtain m' r where s: "sn_step op m = (m', r)" by force
  obtain t' where t': "sn_txns m' tx_id = Some t'" "stx_state t' = SPrepared" "stx_started_at t' = stx_started_at t"
      "set (stx_tablet_ids t) \<subseteq> set (stx_tablet_ids t')" "sn_timeout m' = sn_timeout m"
    using sn_step_prepared [OF st(2,1) op s] by blast
  have "\<exists>tablets. snd (sn_commit tx_id (fst (run_spec sn_step ops m'))) = Inr tablets \<and>
      set (stx_tablet_ids t') \<subseteq> set tablets"
    by (rule Cons.IH [OF t'(1,2)]) (use Cons.prems(3) t'(3,5) in \<open>simp\<close>)
  with s t'(4) show ?case by (auto split: prod.splits)
qed

theorem sn_prepared_stays_committable_witness:
  "\<exists>tablets. snd (sn_commit 7 (fst (run_spec sn_step
     [SnRegister 3 8, SnPrepare 9 7 50, SnAddTablet 7 ''t2'', SnRollback 8, SnCleanup [7, 8] 90]
     \<lparr>sn_txns = [7 \<mapsto> \<lparr>stx_id = 7, stx_state = SPrepared, stx_tablet_ids = [''t1''], stx_prepare_lsn = Some 42,
        stx_started_at = 0\<rparr>], sn_timeout = 100\<rparr>))) = Inr tablets \<and> ''t1'' \<in> set tablets"
  using sn_prepared_stays_committable [of
      "\<lparr>sn_txns = [7 \<mapsto> \<lparr>stx_id = 7, stx_state = SPrepared, stx_tablet_ids = [''t1''], stx_prepare_lsn = Some 42,
        stx_started_at = 0\<rparr>], sn_timeout = 100\<rparr>" 7
      "\<lparr>stx_id = 7, stx_state = SPrepared, stx_tablet_ids = [''t1''], stx_prepare_lsn = Some 42, stx_started_at = 0\<rparr>"
      "[SnRegister 3 8, SnPrepare 9 7 50, SnAddTablet 7 ''t2'', SnRollback 8, SnCleanup [7, 8] 90]"]
  by (simp del: run_spec.simps)


section \<open>Operations and answers of the coordinator\<close>

datatype tm_op =
    TmBegin string nat string
  | TmParticipant string string string
  | TmAck string string
  | TmPrepareCommit nat string
  | TmMarkCommitted string
  | TmRollback string
  | TmCleanup "string list" nat

datatype tm_answer = TmDone | TmId string | TmAll bool | TmParticipants "tx_participant list" | TmCount nat | TmErr tx_error

definition tm_step :: "tm_op \<Rightarrow> tx_manager \<Rightarrow> tx_manager \<times> tm_answer" where
  "tm_step op m =
     (case op of
        TmBegin uuid now cube \<Rightarrow> map_prod id (case_sum TmErr TmId) (tm_begin uuid now cube m)
      | TmParticipant k n ep \<Rightarrow> map_prod id (case_sum TmErr (\<lambda>_. TmDone)) (tm_register_participant k n ep m)
      | TmAck k n \<Rightarrow> map_prod id (case_sum TmErr TmAll) (tm_receive_prepare_ack k n m)
      | TmPrepareCommit now k \<Rightarrow> map_prod id (case_sum TmErr TmParticipants) (tm_prepare_commit now k m)
      | TmMarkCommitted k \<Rightarrow> map_prod id (case_sum TmErr (\<lambda>_. TmDone)) (tm_mark_committed k m)
      | TmRollback k \<Rightarrow> map_prod id (case_sum TmErr TmParticipants) (tm_rollback k m)
      | TmCleanup order now \<Rightarrow> map_prod id TmCount (tm_cleanup_timed_out order now m))"

lemma tm_txns_put [simp]: "tm_txns (tm_put k t m) k' = (if k' = k then Some t else tm_txns m k')"
  by (simp add: tm_put_def)

lemma tm_cleanup_txns:
  "tm_txns (fst (tm_cleanup_timed_out order now m)) k = Some t \<Longrightarrow> tm_txns m k = Some t"
  by (auto simp: tm_cleanup_timed_out_def Let_def tm_open_def split: option.splits if_splits)

lemma ack_first_mem:
  "p \<in> set (ack_first n ps) \<Longrightarrow> p \<in> set ps \<or> (\<exists>q \<in> set ps. tp_node_id q = n \<and> p = q\<lparr>tp_prepared := True\<rparr>)"
  by (induction ps) (auto split: if_splits)

lemma ack_first_all: "list_all tp_prepared ps \<Longrightarrow> list_all tp_prepared (ack_first n ps)"
  by (induction ps) auto

text \<open>Every participant that is marked as prepared has acknowledged, and the transaction is
  \<open>Prepared\<close> only when all of them have.\<close>

definition acked_in :: "string \<Rightarrow> (tm_op \<times> tm_answer) list \<Rightarrow> tx_participant \<Rightarrow> bool" where
  "acked_in k h p \<longleftrightarrow> TmAck k (tp_node_id p) \<in> set (map fst h)"

definition tx_acks_ok :: "string \<Rightarrow> (tm_op \<times> tm_answer) list \<Rightarrow> transaction \<Rightarrow> bool" where
  "tx_acks_ok k h t \<longleftrightarrow>
     (\<forall>p \<in> set (tx_participants t). tp_prepared p \<longrightarrow> acked_in k h p) \<and>
     (tx_state_of t = TPrepared \<longrightarrow> list_all tp_prepared (tx_participants t))"

definition tm_acks_ok :: "tx_manager \<Rightarrow> (tm_op \<times> tm_answer) list \<Rightarrow> bool" where
  "tm_acks_ok m h \<longleftrightarrow> (\<forall>k t. tm_txns m k = Some t \<longrightarrow> tx_acks_ok k h t)"

lemma tx_acks_ok_later: "tx_acks_ok k h t \<Longrightarrow> tx_acks_ok k (h @ h') t"
  by (auto simp: tx_acks_ok_def acked_in_def)

lemma tx_acks_ok_closed:
  "tx_acks_ok k h t \<Longrightarrow> st \<noteq> TPrepared \<Longrightarrow> tx_acks_ok k h (t\<lparr>tx_state_of := st\<rparr>)"
  by (simp add: tx_acks_ok_def)

lemma tx_acks_ok_ack:
  assumes "tx_acks_ok k h t"
  shows "tx_acks_ok k (h @ [(TmAck k n, r)])
    (t\<lparr>tx_participants := ack_first n (tx_participants t),
       tx_state_of := (if list_all tp_prepared (ack_first n (tx_participants t)) \<and> tx_state_of t = TActive
         then TPrepared else tx_state_of t)\<rparr>)"
proof -
  have "acked_in k (h @ [(TmAck k n, r)]) p" if "p \<in> set (ack_first n (tx_participants t))" "tp_prepared p" for p
    using ack_first_mem [OF that(1)] that(2) assms by (auto simp: tx_acks_ok_def acked_in_def)
  moreover have "list_all tp_prepared (ack_first n (tx_participants t))" if "tx_state_of t = TPrepared"
    using assms that by (simp add: tx_acks_ok_def ack_first_all)
  ultimately show ?thesis by (auto simp: tx_acks_ok_def)
qed

lemma tm_acks_ok_put:
  assumes "tm_acks_ok m h" "tx_acks_ok k (h @ h') t"
  shows "tm_acks_ok (tm_put k t m) (h @ h')"
  using assms by (auto simp: tm_acks_ok_def intro: tx_acks_ok_later)

lemma tm_acks_ok_same: "tm_acks_ok m h \<Longrightarrow> tm_acks_ok m (h @ h')"
  by (auto simp: tm_acks_ok_def intro: tx_acks_ok_later)

lemma tm_acks_ok_entry: "tm_acks_ok m h \<Longrightarrow> tm_txns m k = Some t \<Longrightarrow> tx_acks_ok k h t"
  by (simp add: tm_acks_ok_def)

lemma tm_acks_ok_step:
  assumes I: "tm_acks_ok m h" and s: "tm_step op m = (m', r)"
  shows "tm_acks_ok m' (h @ [(op, r)])"
proof (cases op)
  case (TmBegin uuid now cube)
  have "tx_acks_ok uuid (h @ [(op, r)]) (transaction_new uuid now cube)"
    by (simp add: tx_acks_ok_def transaction_new_def)
  with TmBegin s tm_acks_ok_put [OF I] show ?thesis by (auto simp: tm_step_def tm_begin_def)
next
  case (TmParticipant k n ep)
  show ?thesis
  proof (cases "tm_txns m k")
    case None
    with TmParticipant s I show ?thesis
      by (auto simp: tm_step_def tm_register_participant_def intro: tm_acks_ok_same)
  next
    case (Some t)
    have ok: "tx_acks_ok k h t" by (rule tm_acks_ok_entry [OF I Some])
    then have "tx_acks_ok k (h @ [(op, r)]) (t\<lparr>tx_participants := tx_participants t @
        [\<lparr>tp_node_id = n, tp_endpoint = ep, tp_prepared = False\<rparr>]\<rparr>)" if "tx_state_of t = TActive"
      using that by (auto simp: tx_acks_ok_def acked_in_def)
    with TmParticipant Some s tm_acks_ok_put [OF I] tm_acks_ok_same [OF I] show ?thesis
      by (auto simp: tm_step_def tm_register_participant_def split: if_splits)
  qed
next
  case (TmAck k n)
  show ?thesis
  proof (cases "tm_txns m k")
    case None
    with TmAck s I show ?thesis
      by (auto simp: tm_step_def tm_receive_prepare_ack_def intro: tm_acks_ok_same)
  next
    case (Some t)
    from tm_acks_ok_put [OF I tx_acks_ok_ack [OF tm_acks_ok_entry [OF I Some], of n r]] TmAck Some s
    show ?thesis by (auto simp: tm_step_def tm_receive_prepare_ack_def Let_def)
  qed
next
  case (TmCleanup order now)
  have "m' = fst (tm_cleanup_timed_out order now m)"
    using TmCleanup s by (cases "tm_cleanup_timed_out order now m", simp add: tm_step_def)
  with tm_cleanup_txns [of order now m] tm_acks_ok_same [OF I] show ?thesis
    by (auto simp: tm_acks_ok_def)
qed (use s tm_acks_ok_same [OF I] tm_acks_ok_put [OF I] tx_acks_ok_later [OF tx_acks_ok_closed [OF tm_acks_ok_entry [OF I]]]
     in \<open>auto simp: tm_step_def tm_prepare_commit_def tm_mark_committed_def tm_rollback_def
       split: option.splits if_splits\<close>)

interpretation tm_acks: history_invariant tm_step tm_acks_ok
  by unfold_locales (rule tm_acks_ok_step)

text \<open>C22. The coordinator reports a transaction as prepared only after every participant that is
  registered for it has acknowledged its prepare, over any interleaving of the operations of all
  transactions.\<close>

theorem tm_prepared_all_acked:
  assumes "run_spec tm_step ops (tm_with_timeout timeout) = (m, rs)"
    and "tm_txns m tx_id = Some t" "tx_state_of t = TPrepared"
  shows "list_all (\<lambda>p. TmAck tx_id (tp_node_id p) \<in> set ops) (tx_participants t)"
proof -
  have "tm_acks_ok m (zip ops rs)"
    by (rule tm_acks.run_inv [OF _ assms(1)]) (simp add: tm_acks_ok_def tm_with_timeout_def)
  from tm_acks_ok_entry [OF this assms(2)] assms(3)
  show ?thesis using run_spec_length [OF assms(1)]
    by (auto simp: tx_acks_ok_def acked_in_def list_all_iff)
qed

theorem tm_prepared_all_acked_witness:
  "let ops = [TmBegin ''x'' 0 ''c'', TmParticipant ''x'' ''n1'' ''e1'', TmParticipant ''x'' ''n2'' ''e2'',
              TmAck ''x'' ''n2'', TmAck ''x'' ''n1'']
   in \<exists>t. tm_txns (fst (run_spec tm_step ops (tm_with_timeout 60))) ''x'' = Some t \<and>
        list_all (\<lambda>p. TmAck ''x'' (tp_node_id p) \<in> set ops) (tx_participants t)"
proof -
  let ?ops = "[TmBegin ''x'' 0 ''c'', TmParticipant ''x'' ''n1'' ''e1'', TmParticipant ''x'' ''n2'' ''e2'',
              TmAck ''x'' ''n2'', TmAck ''x'' ''n1'']"
  obtain t where "tm_txns (fst (run_spec tm_step ?ops (tm_with_timeout 60))) ''x'' = Some t" "tx_state_of t = TPrepared"
    by (simp add: tm_step_def tm_begin_def tm_with_timeout_def tm_put_def tm_register_participant_def
        tm_receive_prepare_ack_def transaction_new_def Let_def)
  then show ?thesis
    using tm_prepared_all_acked [of ?ops 60 _ _ "''x''" t, OF prod.collapse [symmetric]] unfolding Let_def by blast
qed

text \<open>The coordinator does not protect a decision once taken: a rollback and a commit of the
  same transaction are both answered with success, and participants are handed out for commit
  although one of them has not acknowledged its prepare.\<close>

lemma tm_decision_not_stable:
  "map_prod tm_txns id (run_spec tm_step
     [TmBegin x now c, TmParticipant x n ep, TmPrepareCommit now x, TmRollback x, TmMarkCommitted x] (tm_with_timeout timeout)) =
   ([x \<mapsto> \<lparr>tx_id_of = x, tx_state_of = TCommitted,
       tx_participants = [\<lparr>tp_node_id = n, tp_endpoint = ep, tp_prepared = False\<rparr>], tx_started_at = now,
       tx_cube_name = c\<rparr>],
    [TmId x, TmDone, TmParticipants [\<lparr>tp_node_id = n, tp_endpoint = ep, tp_prepared = False\<rparr>],
     TmParticipants [\<lparr>tp_node_id = n, tp_endpoint = ep, tp_prepared = False\<rparr>], TmDone])"
  by (simp add: tm_step_def tm_begin_def tm_with_timeout_def tm_put_def tm_register_participant_def
      tm_prepare_commit_def tm_rollback_def tm_mark_committed_def transaction_new_def is_timed_out_def)

end
