(* ===== verification/StreamLoad.thy ===== *)
theory StreamLoad
  imports Transactions
begin

text \<open>
  The HTTP stream-load endpoint (\<open>query-node/src/ingestion/spark.rs\<close>), a client of the
  coordinator table: its handlers open, feed, commit and abort a transaction and count the
  rows received per transaction. Requests are handled one after the other; the error text of
  a response is the error value it prints.
\<close>

record stream_load_state =
  sl_tx_mgr :: tx_manager
  sl_pending :: "string \<rightharpoonup> u64"

definition stream_load_state_new :: "tx_manager \<Rightarrow> stream_load_state" where
  "stream_load_state_new tx_mgr = \<lparr>sl_tx_mgr = tx_mgr, sl_pending = Map.empty\<rparr>"

datatype sl_message = MsgTx tx_error | MsgNotFound | MsgAborted

record begin_tx_response =
  btr_tx_id :: string
  btr_success :: bool
  btr_message :: "sl_message option"

record commit_tx_response =
  ctr_tx_id :: string
  ctr_success :: bool
  ctr_rows_loaded :: u64
  ctr_message :: "sl_message option"

record stream_load_response =
  slr_tx_id :: string
  slr_success :: bool
  slr_rows :: u64
  slr_message :: "sl_message option"

definition estimate_rows :: "bytes \<Rightarrow> u64" where
  "estimate_rows body = of_nat (length (filter (\<lambda>b. b = 10) body))"

definition begin_tx :: "string \<Rightarrow> nat \<Rightarrow> string \<Rightarrow> stream_load_state \<Rightarrow> stream_load_state \<times> begin_tx_response" where
  "begin_tx uuid now cube s =
     (case tm_begin uuid now cube (sl_tx_mgr s) of
        (m, Inr tx_id) \<Rightarrow>
          (s\<lparr>sl_tx_mgr := m, sl_pending := (sl_pending s)(tx_id \<mapsto> 0)\<rparr>,
           \<lparr>btr_tx_id = tx_id, btr_success = True, btr_message = None\<rparr>)
      | (m, Inl e) \<Rightarrow>
          (s\<lparr>sl_tx_mgr := m\<rparr>, \<lparr>btr_tx_id = [], btr_success = False, btr_message = Some (MsgTx e)\<rparr>))"

definition stream_load :: "string \<Rightarrow> bytes \<Rightarrow> stream_load_state \<Rightarrow> stream_load_state \<times> stream_load_response" where
  "stream_load tx_id body s =
     (case tm_get_state tx_id (sl_tx_mgr s) of
        None \<Rightarrow> (s, \<lparr>slr_tx_id = tx_id, slr_success = False, slr_rows = 0, slr_message = Some MsgNotFound\<rparr>)
      | Some _ \<Rightarrow>
          (let rows_estimate = estimate_rows body;
               old = (case sl_pending s tx_id of None \<Rightarrow> 0 | Some n \<Rightarrow> n)
           in (s\<lparr>sl_pending := (sl_pending s)(tx_id \<mapsto> old + rows_estimate)\<rparr>,
               \<lparr>slr_tx_id = tx_id, slr_success = True, slr_rows = rows_estimate, slr_message = None\<rparr>)))"

definition commit_tx :: "string \<Rightarrow> stream_load_state \<Rightarrow> stream_load_state \<times> commit_tx_response" where
  "commit_tx tx_id s =
     (let rows_loaded = (case sl_pending s tx_id of None \<Rightarrow> 0 | Some n \<Rightarrow> n);
          s' = s\<lparr>sl_pending := (sl_pending s)(tx_id := None)\<rparr>
      in case tm_mark_committed tx_id (sl_tx_mgr s') of
           (m, Inr _) \<Rightarrow>
             (s'\<lparr>sl_tx_mgr := m\<rparr>,
              \<lparr>ctr_tx_id = tx_id, ctr_success = True, ctr_rows_loaded = rows_loaded, ctr_message = None\<rparr>)
         | (m, Inl e) \<Rightarrow>
             (s'\<lparr>sl_tx_mgr := fst (tm_rollback tx_id m)\<rparr>,
              \<lparr>ctr_tx_id = tx_id, ctr_success = False, ctr_rows_loaded = 0, ctr_message = Some (MsgTx e)\<rparr>))"

definition abort_tx :: "string \<Rightarrow> stream_load_state \<Rightarrow> stream_load_state \<times> commit_tx_response" where
  "abort_tx tx_id s =
     (s\<lparr>sl_pending := (sl_pending s)(tx_id := None), sl_tx_mgr := fst (tm_rollback tx_id (sl_tx_mgr s))\<rparr>,
      \<lparr>ctr_tx_id = tx_id, ctr_success = True, ctr_rows_loaded = 0, ctr_message = Some MsgAborted\<rparr>)"

section \<open>Sequences of requests\<close>

datatype sl_op = SlBegin string nat string | SlLoad string bytes | SlCommit string | SlAbort string

datatype sl_answer = SlBegun begin_tx_response | SlLoaded stream_load_response | SlEnded commit_tx_response

definition sl_step :: "sl_op \<Rightarrow> stream_load_state \<Rightarrow> stream_load_state \<times> sl_answer" where
  "sl_step op s =
     (case op of
        SlBegin uuid now cube \<Rightarrow> map_prod id SlBegun (begin_tx uuid now cube s)
      | SlLoad k body \<Rightarrow> map_prod id SlLoaded (stream_load k body s)
      | SlCommit k \<Rightarrow> map_prod id SlEnded (commit_tx k s)
      | SlAbort k \<Rightarrow> map_prod id SlEnded (abort_tx k s))"

fun sl_keeps_open :: "string \<Rightarrow> sl_op \<Rightarrow> bool" where
  "sl_keeps_open x (SlBegin uuid _ _) \<longleftrightarrow> uuid \<noteq> x"
| "sl_keeps_open x (SlLoad _ _) \<longleftrightarrow> True"
| "sl_keeps_open x (SlCommit k) \<longleftrightarrow> k \<noteq> x"
| "sl_keeps_open x (SlAbort k) \<longleftrightarrow> k \<noteq> x"

fun lines_for :: "string \<Rightarrow> sl_op list \<Rightarrow> nat" where
  "lines_for x [] = 0"
| "lines_for x (SlLoad k body # ops) = (if k = x then length (filter (\<lambda>b. b = 10) body) else 0) + lines_for x ops"
| "lines_for x (_ # ops) = lines_for x ops"

lemma sl_step_open:
  assumes "sl_pending s x = Some n" "tm_txns (sl_tx_mgr s) x \<noteq> None" "sl_keeps_open x op" "sl_step op s = (s', r)"
  shows "sl_pending s' x = Some (n + of_nat (lines_for x [op])) \<and> tm_txns (sl_tx_mgr s') x \<noteq> None"
proof (cases op)
  case (SlCommit k)
  then show ?thesis using assms
    by (auto simp: sl_step_def commit_tx_def tm_mark_committed_def tm_rollback_def Let_def split: option.splits)
qed (use assms in \<open>auto simp: sl_step_def begin_tx_def tm_begin_def stream_load_def abort_tx_def tm_rollback_def
       tm_get_state_def estimate_rows_def Let_def split: option.splits\<close>)

lemma sl_run_open:
  assumes "sl_pending s x = Some n" "tm_txns (sl_tx_mgr s) x \<noteq> None" "list_all (sl_keeps_open x) ops"
  shows "sl_pending (fst (run_spec sl_step ops s)) x = Some (n + of_nat (lines_for x ops)) \<and>
    tm_txns (sl_tx_mgr (fst (run_spec sl_step ops s))) x \<noteq> None"
  using assms
proof (induction ops arbitrary: s n)
  case (Cons op ops)
  obtain s' r where s: "sl_step op s = (s', r)" by force
  have "sl_pending s' x = Some (n + of_nat (lines_for x [op]))" "tm_txns (sl_tx_mgr s') x \<noteq> None"
    using sl_step_open [OF Cons.prems(1,2) _ s] Cons.prems(3) by simp_all
  from Cons.IH [OF this] Cons.prems(3) s show ?case
    by (cases op) (auto simp: add.assoc split: prod.split)
qed simp

text \<open>A stream load counts every row once: between the begin of a transaction and its commit,
  whatever other transactions do in between, the commit succeeds and reports exactly the number of
  lines of all the bodies that were loaded under that transaction.\<close>

lemma stream_load_counts_rows:
  assumes "list_all (sl_keeps_open x) ops"
  shows "snd (commit_tx x (fst (run_spec sl_step ops (fst (begin_tx x now cube s))))) =
    \<lparr>ctr_tx_id = x, ctr_success = True, ctr_rows_loaded = of_nat (lines_for x ops), ctr_message = None\<rparr>"
proof -
  let ?s = "fst (begin_tx x now cube s)"
  have "sl_pending ?s x = Some 0" "tm_txns (sl_tx_mgr ?s) x \<noteq> None"
    by (simp_all add: begin_tx_def tm_begin_def)
  from sl_run_open [OF this assms] show ?thesis
    by (auto simp: commit_tx_def tm_mark_committed_def Let_def)
qed

text \<open>The handlers look only at whether the transaction is known: an aborted one still takes data
  and is committed with success.\<close>

lemma stream_load_after_abort:
  "snd (run_spec sl_step [SlBegin x now cube, SlAbort x, SlLoad x [10], SlCommit x] (stream_load_state_new (tm_with_timeout d))) =
   [SlBegun \<lparr>btr_tx_id = x, btr_success = True, btr_message = None\<rparr>,
    SlEnded \<lparr>ctr_tx_id = x, ctr_success = True, ctr_rows_loaded = 0, ctr_message = Some MsgAborted\<rparr>,
    SlLoaded \<lparr>slr_tx_id = x, slr_success = True, slr_rows = 1, slr_message = None\<rparr>,
    SlEnded \<lparr>ctr_tx_id = x, ctr_success = True, ctr_rows_loaded = 1, ctr_message = None\<rparr>]"
  by (simp add: sl_step_def begin_tx_def abort_tx_def stream_load_def commit_tx_def tm_begin_def tm_rollback_def
      tm_get_state_def tm_mark_committed_def stream_load_state_new_def estimate_rows_def Let_def)

end
