(* ===== verification/Wal.thy ===== *)
theory Wal
  imports Prelude
begin

text \<open>
  The write-ahead log (\<open>storage-node/src/lsm/wal.rs\<close>): the record format, the group
  commit buffer, segment files with rotation through a buffered writer, replay and
  truncation. A directory is the map from segment sequence numbers to file contents;
  files with other names are ignored by the code and are not represented. The disk is
  an argument: how many bytes of a write reach a file, and whether a segment can be
  opened or removed. The checksum \<open>crc32fast\<close> is an argument.
\<close>

section \<open>Records\<close>

record wal_entry =
  we_tx_id :: u64
  we_payload :: bytes

definition wal_checksum :: "(bytes \<Rightarrow> u32) \<Rightarrow> u64 \<Rightarrow> bytes \<Rightarrow> u32" where
  "wal_checksum crc32 tx payload = crc32 (to_le 8 tx @ payload)"

text \<open>The four writes of one record, in the order of the code.\<close>

definition record_parts :: "(bytes \<Rightarrow> u32) \<Rightarrow> wal_entry \<Rightarrow> bytes list" where
  "record_parts crc32 e =
     [to_le 4 (wal_checksum crc32 (we_tx_id e) (we_payload e)), to_le 8 (we_tx_id e),
      to_le 4 (of_nat (length (we_payload e)) :: u32), we_payload e]"

definition wal_record :: "(bytes \<Rightarrow> u32) \<Rightarrow> wal_entry \<Rightarrow> bytes" where
  "wal_record crc32 e = concat (record_parts crc32 e)"

definition wal_fits :: "wal_entry \<Rightarrow> bool" where
  "wal_fits e \<longleftrightarrow> fits_u32 (we_payload e)"

definition wal_read_record :: "(bytes \<Rightarrow> u32) \<Rightarrow> wal_entry parser" where
  "wal_read_record crc32 bs =
     (case take_bytes 16 bs of
        None \<Rightarrow> None
      | Some (hdr, rest) \<Rightarrow>
          (let stored_crc = from_le (take 4 hdr);
               tx = from_le (take 8 (drop 4 hdr));
               len = unat (from_le (take 4 (drop 12 hdr)) :: u32)
           in case take_bytes len rest of
                None \<Rightarrow> None
              | Some (data, rest') \<Rightarrow>
                  if wal_checksum crc32 tx data \<noteq> stored_crc then None
                  else Some (\<lparr>we_tx_id = tx, we_payload = data\<rparr>, rest')))"

definition replay_segment :: "(bytes \<Rightarrow> u32) \<Rightarrow> bytes \<Rightarrow> wal_entry list" where
  "replay_segment crc32 bs = parse_while (wal_read_record crc32) bs"

lemma wal_record_header:
  "wal_record crc32 e @ rest =
     (to_le 4 (wal_checksum crc32 (we_tx_id e) (we_payload e)) @ to_le 8 (we_tx_id e) @
      to_le 4 (of_nat (length (we_payload e)) :: u32)) @ we_payload e @ rest"
  by (simp add: wal_record_def record_parts_def)

lemma wal_read_record_enc:
  assumes "wal_fits e"
  shows "wal_read_record crc32 (wal_record crc32 e @ rest) = Some (e, rest)"
proof -
  let ?h = "to_le 4 (wal_checksum crc32 (we_tx_id e) (we_payload e)) @ to_le 8 (we_tx_id e) @
      to_le 4 (of_nat (length (we_payload e)) :: u32)"
  have h: "take_bytes 16 (?h @ we_payload e @ rest) = Some (?h, we_payload e @ rest)"
    by (rule take_bytes_append) simp
  have "unat (of_nat (length (we_payload e)) :: u32) = length (we_payload e)"
    using assms unfolding wal_fits_def by (rule fits_u32_unat)
  then show ?thesis
    unfolding wal_record_header wal_read_record_def h
    by (simp add: Let_def le_u32 le_u64 take_bytes_append)
qed

lemma split3: "xs = take a xs @ take b (drop a xs) @ drop (a + b) xs"
  by (metis add.commute append_take_drop_id drop_drop)

lemma wal_read_record_sound:
  assumes "wal_read_record crc32 bs = Some (e, rest)"
  shows "wal_fits e \<and> bs = wal_record crc32 e @ rest"
proof -
  let ?h = "take 16 bs"
  let ?c = "from_le (take 4 ?h) :: u32" and ?t = "from_le (take 8 (drop 4 ?h)) :: u64"
    and ?n = "from_le (take 4 (drop 12 ?h)) :: u32"
  have len: "16 \<le> length bs" "unat ?n \<le> length (drop 16 bs)"
    and e: "e = \<lparr>we_tx_id = ?t, we_payload = take (unat ?n) (drop 16 bs)\<rparr>"
    and rest: "rest = drop (unat ?n) (drop 16 bs)"
    and crc: "wal_checksum crc32 ?t (take (unat ?n) (drop 16 bs)) = ?c"
    using assms by (auto simp: wal_read_record_def take_bytes_def Let_def split: if_splits option.splits)
  have n: "length (we_payload e) = unat ?n" using len(2) e by simp
  moreover have "unat ?n < 2 ^ 32" using unsigned_less [of ?n] by simp
  ultimately have fits: "wal_fits e" by (simp only: wal_fits_def fits_u32_def)
  have w: "to_le 4 ?c = take 4 ?h" "to_le 8 ?t = take 8 (drop 4 ?h)" "to_le 4 ?n = take 4 (drop 12 ?h)"
    using len(1) by (auto intro!: to_le_from_le)
  have "?h = take 4 ?h @ take 8 (drop 4 ?h) @ drop (4 + 8) ?h" by (rule split3)
  then have split: "?h = take 4 ?h @ take 8 (drop 4 ?h) @ take 4 (drop 12 ?h)"
    using len(1) by simp
  have "wal_record crc32 e @ rest = (to_le 4 ?c @ to_le 8 ?t @ to_le 4 ?n) @ we_payload e @ rest"
    unfolding wal_record_header n using e crc by simp
  also have "\<dots> = ?h @ we_payload e @ rest" unfolding w split [symmetric] ..
  also have "we_payload e @ rest = drop 16 bs"
    unfolding rest by (simp only: e wal_entry.simps append_take_drop_id)
  finally show ?thesis using fits by simp
qed

interpretation wal_rec: record_codec "wal_record crc32" "wal_read_record crc32" wal_fits for crc32
proof
  show "wal_record crc32 e \<noteq> []" for e
    using wal_record_header [of crc32 e "[]"] length_to_le [of 8 "we_tx_id e"] by (metis append_is_Nil_conv append_Nil2 length_0_conv zero_neq_numeral)
qed (rule wal_read_record_enc wal_read_record_sound, assumption)+

section \<open>Group commit buffer\<close>

text \<open>A pending write carries the identity of the waiter it will notify.\<close>

record group_commit_buffer =
  gcb_pending :: "(wal_entry \<times> nat) list"
  gcb_total_bytes :: nat
  gcb_max_bytes :: nat

definition group_new :: "nat \<Rightarrow> group_commit_buffer" where
  "group_new max_bytes = \<lparr>gcb_pending = [], gcb_total_bytes = 0, gcb_max_bytes = max_bytes\<rparr>"

definition group_push :: "wal_entry \<Rightarrow> nat \<Rightarrow> group_commit_buffer \<Rightarrow> group_commit_buffer" where
  "group_push e notify b =
     b\<lparr>gcb_total_bytes := gcb_total_bytes b + (16 + length (we_payload e)),
       gcb_pending := gcb_pending b @ [(e, notify)]\<rparr>"

definition group_should_flush :: "group_commit_buffer \<Rightarrow> bool" where
  "group_should_flush b \<longleftrightarrow> gcb_max_bytes b \<le> gcb_total_bytes b"

definition group_take_all :: "group_commit_buffer \<Rightarrow> (wal_entry \<times> nat) list \<times> group_commit_buffer" where
  "group_take_all b = (gcb_pending b, b\<lparr>gcb_total_bytes := 0, gcb_pending := []\<rparr>)"

definition group_is_empty :: "group_commit_buffer \<Rightarrow> bool" where
  "group_is_empty b \<longleftrightarrow> gcb_pending b = []"

section \<open>The log\<close>

record disk =
  disk_write :: "bytes \<Rightarrow> bytes \<Rightarrow> nat"
  disk_open :: "u64 \<Rightarrow> bool"
  disk_remove :: "u64 \<Rightarrow> bool"

text \<open>On a healthy disk every write is complete.\<close>

definition healthy :: "disk \<Rightarrow> bool" where
  "healthy d \<longleftrightarrow> (\<forall>f data. length data \<le> disk_write d f data) \<and> (\<forall>s. disk_open d s \<and> disk_remove d s)"

type_synonym segments = "u64 \<rightharpoonup> bytes"

record wal =
  wal_dir :: segments
  wal_seg_seq :: u64
  wal_seg_size :: u64
  wal_seg_writer :: bytes
  wal_max_segment_bytes :: u64
  wal_group_buf :: group_commit_buffer
  wal_flush_trigger :: bool

definition all_seqs :: "segments \<Rightarrow> u64 list" where
  "all_seqs dir = sorted_list_of_set (dom dir)"

definition latest_seq :: "segments \<Rightarrow> u64" where
  "latest_seq dir = (case all_seqs dir of [] \<Rightarrow> 0 | _ # _ \<Rightarrow> last (all_seqs dir))"

definition seg_file :: "wal \<Rightarrow> bytes" where
  "seg_file w = (case wal_dir w (wal_seg_seq w) of None \<Rightarrow> [] | Some f \<Rightarrow> f)"

definition open_segment :: "disk \<Rightarrow> u64 \<Rightarrow> wal \<Rightarrow> wal \<times> bool" where
  "open_segment d seq w =
     (if \<not> disk_open d seq then (w, False)
      else (let f = (case wal_dir w seq of None \<Rightarrow> [] | Some f \<Rightarrow> f)
            in (w\<lparr>wal_dir := (wal_dir w)(seq \<mapsto> f), wal_seg_seq := seq,
                  wal_seg_size := of_nat (length f), wal_seg_writer := []\<rparr>, True)))"

definition wal_open :: "disk \<Rightarrow> segments \<Rightarrow> wal option" where
  "wal_open d dir =
     (let w = \<lparr>wal_dir = dir, wal_seg_seq = 0, wal_seg_size = 0, wal_seg_writer = [],
               wal_max_segment_bytes = 64 * 1024 * 1024,
               wal_group_buf = group_new (4 * 1024 * 1024), wal_flush_trigger = False\<rparr>
      in case open_segment d (latest_seq dir) w of
           (w', True) \<Rightarrow> Some w' | (_, False) \<Rightarrow> None)"

text \<open>The standard library's \<open>BufWriter\<close> over an appending file, with the capacity the
  code gives it: \<open>raw_write\<close> hands bytes to the file, \<open>writer_flush\<close> is \<open>flush\<close> and
  \<open>writer_write\<close> is \<open>write_all\<close>.\<close>

definition raw_write :: "disk \<Rightarrow> bytes \<Rightarrow> wal \<Rightarrow> wal \<times> nat" where
  "raw_write d data w =
     (let n = min (length data) (disk_write d (seg_file w) data)
      in (w\<lparr>wal_dir := (wal_dir w)(wal_seg_seq w \<mapsto> seg_file w @ take n data)\<rparr>, n))"

definition writer_flush :: "disk \<Rightarrow> wal \<Rightarrow> wal \<times> bool" where
  "writer_flush d w =
     (let buf = wal_seg_writer w; (w', n) = raw_write d buf w
      in (w'\<lparr>wal_seg_writer := drop n buf\<rparr>, n = length buf))"

definition writer_write :: "disk \<Rightarrow> bytes \<Rightarrow> wal \<Rightarrow> wal \<times> bool" where
  "writer_write d data w =
     (let cap = 256 * 1024; spare = cap - length (wal_seg_writer w)
      in if length data < spare then (w\<lparr>wal_seg_writer := wal_seg_writer w @ data\<rparr>, True)
         else (case (if spare < length data then writer_flush d w else (w, True)) of
                 (w', False) \<Rightarrow> (w', False)
               | (w', True) \<Rightarrow>
                   if cap \<le> length data
                   then (let (w'', n) = raw_write d data w' in (w'', n = length data))
                   else (w'\<lparr>wal_seg_writer := wal_seg_writer w' @ data\<rparr>, True)))"

fun writer_write_all :: "disk \<Rightarrow> bytes list \<Rightarrow> wal \<Rightarrow> wal \<times> bool" where
  "writer_write_all d [] w = (w, True)"
| "writer_write_all d (data # rest) w =
     (case writer_write d data w of
        (w', False) \<Rightarrow> (w', False)
      | (w', True) \<Rightarrow> writer_write_all d rest w')"

definition rotate :: "disk \<Rightarrow> wal \<Rightarrow> wal \<times> bool" where
  "rotate d w =
     (case writer_flush d w of
        (w', False) \<Rightarrow> (w', False)
      | (w', True) \<Rightarrow> open_segment d (wal_seg_seq w' + 1) w')"

definition flush_one :: "disk \<Rightarrow> (bytes \<Rightarrow> u32) \<Rightarrow> wal_entry \<Rightarrow> wal \<Rightarrow> wal \<times> bool" where
  "flush_one d crc32 e w =
     (let record_len = of_nat (16 + length (we_payload e)) :: u64
      in case (if wal_max_segment_bytes w < wal_seg_size w + record_len then rotate d w else (w, True)) of
           (w', False) \<Rightarrow> (w', False)
         | (w', True) \<Rightarrow>
             (case writer_write_all d (record_parts crc32 e) w' of
                (w'', False) \<Rightarrow> (w'', False)
              | (w'', True) \<Rightarrow> (w''\<lparr>wal_seg_size := wal_seg_size w'' + record_len\<rparr>, True)))"

fun flush_batch :: "disk \<Rightarrow> (bytes \<Rightarrow> u32) \<Rightarrow> wal_entry list \<Rightarrow> wal \<Rightarrow> wal \<times> bool" where
  "flush_batch d crc32 [] w = writer_flush d w"
| "flush_batch d crc32 (e # batch) w =
     (case flush_one d crc32 e w of
        (w', False) \<Rightarrow> (w', False)
      | (w', True) \<Rightarrow> flush_batch d crc32 batch w')"

definition append_enqueue :: "wal_entry \<Rightarrow> nat \<Rightarrow> wal \<Rightarrow> wal" where
  "append_enqueue e notify w =
     (let buf = group_push e notify (wal_group_buf w)
      in w\<lparr>wal_group_buf := buf,
           wal_flush_trigger := (wal_flush_trigger w \<or> group_should_flush buf)\<rparr>)"

text \<open>One iteration of the background flusher: the waiters it notifies are returned. The
  result of the batch write is only logged.\<close>

definition flusher_tick :: "disk \<Rightarrow> (bytes \<Rightarrow> u32) \<Rightarrow> wal \<Rightarrow> wal \<times> nat list" where
  "flusher_tick d crc32 w =
     (let w = w\<lparr>wal_flush_trigger := False\<rparr>
      in if group_is_empty (wal_group_buf w) then (w, [])
         else (let (pending, buf) = group_take_all (wal_group_buf w);
                   (w', _) = flush_batch d crc32 (map fst pending) (w\<lparr>wal_group_buf := buf\<rparr>)
               in (w', map snd pending)))"

definition flush_group_buf :: "disk \<Rightarrow> (bytes \<Rightarrow> u32) \<Rightarrow> wal \<Rightarrow> wal \<times> nat list \<times> bool" where
  "flush_group_buf d crc32 w =
     (let (pending, buf) = group_take_all (wal_group_buf w); w = w\<lparr>wal_group_buf := buf\<rparr>
      in if pending = [] then (w, [], True)
         else (case flush_batch d crc32 (map fst pending) w of
                 (w', False) \<Rightarrow> (w', [], False)
               | (w', True) \<Rightarrow> (w', map snd pending, True)))"

definition wal_sync :: "disk \<Rightarrow> (bytes \<Rightarrow> u32) \<Rightarrow> wal \<Rightarrow> wal \<times> nat list \<times> bool" where
  "wal_sync d crc32 w =
     (case flush_group_buf d crc32 w of
        (w', acks, False) \<Rightarrow> (w', acks, False)
      | (w', acks, True) \<Rightarrow> (let (w'', ok) = writer_flush d w' in (w'', acks, ok)))"

definition replay :: "(bytes \<Rightarrow> u32) \<Rightarrow> segments \<Rightarrow> wal_entry list" where
  "replay crc32 dir = concat (map (\<lambda>seq. replay_segment crc32 (the (dir seq))) (all_seqs dir))"

definition truncate_before :: "disk \<Rightarrow> u64 \<Rightarrow> wal \<Rightarrow> wal" where
  "truncate_before d up_to_seq w =
     w\<lparr>wal_dir := fold (\<lambda>seq dir.
          if seq < up_to_seq \<and> seq < wal_seg_seq w \<and> disk_remove d seq then dir(seq := None) else dir)
        (all_seqs (wal_dir w)) (wal_dir w)\<rparr>"

section \<open>Directories as sequences of records\<close>

lemma all_seqs_top:
  assumes "finite (dom dir)" "\<forall>s \<in> dom dir. s \<le> hi"
  shows "all_seqs (dir(hi \<mapsto> f)) = all_seqs (dir(hi := None)) @ [hi]"
proof -
  let ?A = "dom (dir(hi := None))"
  have fin: "finite ?A" using assms(1) by (simp add: dom_fun_upd)
  have "sorted_wrt (<) (sorted_list_of_set ?A @ [hi])"
    using fin assms(2) by (auto simp: sorted_wrt_append dom_fun_upd order.strict_iff_order)
  moreover have "set (sorted_list_of_set ?A @ [hi]) = dom (dir(hi \<mapsto> f))"
    using fin by (auto simp: dom_fun_upd)
  moreover have "length (sorted_list_of_set ?A @ [hi]) = card (dom (dir(hi \<mapsto> f)))"
  proof -
    have "dom (dir(hi \<mapsto> f)) = insert hi ?A" by (auto simp: dom_fun_upd)
    moreover have "card (insert hi ?A) = Suc (card ?A)"
      using fin by (rule card_insert_disjoint) simp
    ultimately show ?thesis by (simp only: length_append sorted_list_of_set.length_sorted_key_list_of_set) simp
  qed
  ultimately show ?thesis
    unfolding all_seqs_def using assms(1)
    by (metis dom_fun_upd finite.insertI option.distinct(1) sorted_list_of_set_unique)
qed

lemma replay_top:
  assumes "finite (dom dir)" "\<forall>s \<in> dom dir. s \<le> hi"
  shows "replay crc32 (dir(hi \<mapsto> f)) = replay crc32 (dir(hi := None)) @ replay_segment crc32 f"
proof -
  have "\<forall>s \<in> set (all_seqs (dir(hi := None))). (dir(hi \<mapsto> f)) s = (dir(hi := None)) s"
    using assms(1) by (auto simp: all_seqs_def dom_fun_upd split: if_splits)
  then show ?thesis
    unfolding replay_def all_seqs_top [OF assms] by (simp cong: map_cong)
qed

text \<open>The logical directory also counts the bytes still in the writer's buffer.\<close>

definition seg_bytes :: "wal \<Rightarrow> bytes" where
  "seg_bytes w = seg_file w @ wal_seg_writer w"

definition logical_dir :: "wal \<Rightarrow> segments" where
  "logical_dir w = (wal_dir w)(wal_seg_seq w \<mapsto> seg_bytes w)"

definition seg_clean :: "(bytes \<Rightarrow> u32) \<Rightarrow> bytes \<Rightarrow> bool" where
  "seg_clean crc32 bs \<longleftrightarrow> concat (map (wal_record crc32) (replay_segment crc32 bs)) = bs"

text \<open>The open segment is the newest one and holds whole records only.\<close>

definition wal_inv :: "(bytes \<Rightarrow> u32) \<Rightarrow> wal \<Rightarrow> bool" where
  "wal_inv crc32 w \<longleftrightarrow> finite (dom (wal_dir w)) \<and> wal_seg_seq w \<in> dom (wal_dir w) \<and>
     (\<forall>s \<in> dom (wal_dir w). s \<le> wal_seg_seq w) \<and> seg_clean crc32 (seg_bytes w)"

lemma seg_clean_codec: "seg_clean crc32 bs = wal_rec.clean crc32 bs"
  by (simp add: seg_clean_def wal_rec.clean_def replay_segment_def)

lemma replay_logical:
  assumes "finite (dom (wal_dir w))" "\<forall>s \<in> dom (wal_dir w). s \<le> wal_seg_seq w"
  shows "replay crc32 (logical_dir w) =
    replay crc32 ((wal_dir w)(wal_seg_seq w := None)) @ replay_segment crc32 (seg_bytes w)"
  unfolding logical_dir_def by (rule replay_top [OF assms])

text \<open>What a write leaves alone: everything but the open segment's bytes.\<close>

definition extends :: "wal \<Rightarrow> bytes \<Rightarrow> wal \<Rightarrow> bool" where
  "extends w data w' \<longleftrightarrow> seg_bytes w' = seg_bytes w @ data \<and>
     wal_seg_seq w' = wal_seg_seq w \<and>
     (wal_dir w')(wal_seg_seq w := None) = (wal_dir w)(wal_seg_seq w := None) \<and>
     (wal_seg_seq w \<in> dom (wal_dir w) \<longrightarrow> wal_seg_seq w \<in> dom (wal_dir w')) \<and>
     wal_max_segment_bytes w' = wal_max_segment_bytes w \<and> wal_group_buf w' = wal_group_buf w"

lemma extends_refl: "extends w [] w"
  by (simp add: extends_def)

lemma extends_size: "extends w a (w'\<lparr>wal_seg_size := x\<rparr>) = extends w a w'"
  by (simp add: extends_def seg_bytes_def seg_file_def)

lemma extends_trans: "extends w a w1 \<Longrightarrow> extends w1 b w2 \<Longrightarrow> extends w (a @ b) w2"
  by (auto simp: extends_def)

lemma raw_write_extends:
  assumes "healthy d" "wal_seg_writer w = []"
  shows "\<exists>w'. raw_write d data w = (w', length data) \<and> extends w data w' \<and> wal_seg_writer w' = []"
proof -
  have "min (length data) (disk_write d (seg_file w) data) = length data"
    using assms(1) by (simp add: healthy_def)
  then show ?thesis
    using assms(2) by (auto simp: raw_write_def extends_def seg_bytes_def seg_file_def Let_def split: option.splits)
qed

lemma writer_flush_extends:
  assumes "healthy d"
  shows "\<exists>w'. writer_flush d w = (w', True) \<and> extends w [] w' \<and> wal_seg_writer w' = [] \<and>
    wal_dir w' = logical_dir w"
proof -
  have "min (length data) (disk_write d f data) = length data" for data f
    using assms by (simp add: healthy_def)
  then show ?thesis
    by (auto simp: writer_flush_def raw_write_def extends_def seg_bytes_def seg_file_def logical_dir_def Let_def)
qed

lemma writer_write_extends:
  assumes "healthy d"
  shows "\<exists>w'. writer_write d data w = (w', True) \<and> extends w data w'"
proof -
  let ?cap = "256 * 1024 :: nat"
  let ?spare = "?cap - length (wal_seg_writer w)"
  have buffered: "extends v data (v\<lparr>wal_seg_writer := wal_seg_writer v @ data\<rparr>)" for v
    by (simp add: extends_def seg_bytes_def seg_file_def)
  show ?thesis
  proof (cases "length data < ?spare")
    case True
    then show ?thesis using buffered by (auto simp: writer_write_def Let_def)
  next
    case large: False
    obtain w1 where w1: "(if ?spare < length data then writer_flush d w else (w, True)) = (w1, True)"
        "extends w [] w1" "?cap \<le> length data \<longrightarrow> wal_seg_writer w1 = []"
    proof (cases "?spare < length data")
      case True
      with that writer_flush_extends [OF assms, of w] show thesis by auto
    next
      case False
      then have "?cap \<le> length data \<longrightarrow> length (wal_seg_writer w) = 0"
        using large by linarith
      with that [of w] False show thesis by (simp add: extends_refl)
    qed
    show ?thesis
    proof (cases "?cap \<le> length data")
      case True
      with w1(3) obtain w2 where w2: "raw_write d data w1 = (w2, length data)" "extends w1 data w2"
        using raw_write_extends [OF assms] by blast
      with extends_trans [OF w1(2) w2(2)] large True w1(1) show ?thesis
        by (simp add: writer_write_def Let_def)
    next
      case False
      with extends_trans [OF w1(2) buffered] large w1(1) show ?thesis
        by (simp add: writer_write_def Let_def)
    qed
  qed
qed

lemma writer_write_all_extends:
  assumes "healthy d"
  shows "\<exists>w'. writer_write_all d parts w = (w', True) \<and> extends w (concat parts) w'"
proof (induction parts arbitrary: w)
  case Nil
  then show ?case by (simp add: extends_refl)
next
  case (Cons data parts)
  obtain w1 where w1: "writer_write d data w = (w1, True)" "extends w data w1"
    using writer_write_extends [OF assms] by blast
  obtain w2 where "writer_write_all d parts w1 = (w2, True)" "extends w1 (concat parts) w2"
    using Cons.IH by blast
  with w1 extends_trans show ?case by fastforce
qed

lemma extends_dom:
  assumes "extends w data w'" "wal_seg_seq w \<in> dom (wal_dir w)"
  shows "dom (wal_dir w') = dom (wal_dir w)"
proof -
  have "dom (wal_dir w') - {wal_seg_seq w} = dom (wal_dir w) - {wal_seg_seq w}"
    using assms(1) unfolding extends_def by (metis dom_fun_upd)
  with assms show ?thesis by (auto simp: extends_def)
qed

lemma extends_replay:
  assumes "wal_inv crc32 w" "extends w data w'"
  shows "replay crc32 (logical_dir w') =
    replay crc32 ((wal_dir w)(wal_seg_seq w := None)) @ replay_segment crc32 (seg_bytes w @ data)"
  using assms extends_dom [OF assms(2)] replay_logical [of w' crc32]
  by (simp add: wal_inv_def extends_def)

lemma open_segment_next:
  assumes "healthy d" "wal_inv crc32 w" "wal_seg_writer w = []" "unat (wal_seg_seq w) + 1 < 2 ^ 64"
  shows "\<exists>w'. open_segment d (wal_seg_seq w + 1) w = (w', True) \<and> wal_inv crc32 w' \<and>
    replay crc32 (logical_dir w') = replay crc32 (logical_dir w) \<and>
    unat (wal_seg_seq w') = unat (wal_seg_seq w) + 1 \<and> wal_group_buf w' = wal_group_buf w"
proof -
  let ?q = "wal_seg_seq w" and ?n = "wal_seg_seq w + 1"
  have lt: "?q < ?n" and un: "unat ?n = unat ?q + 1"
    using unat_u64_next [OF assms(4)] by simp_all
  from assms(2) have fin: "finite (dom (wal_dir w))" and le: "\<forall>s \<in> dom (wal_dir w). s \<le> ?q"
    and mem: "?q \<in> dom (wal_dir w)" by (simp_all add: wal_inv_def)
  then have le': "\<forall>s \<in> dom (wal_dir w). s \<le> ?n" using lt by (meson order.strict_implies_order order_trans)
  have none: "wal_dir w ?n = None" using le lt by (meson domI leD not_None_eq)
  let ?w = "w\<lparr>wal_dir := (wal_dir w)(?n \<mapsto> []), wal_seg_seq := ?n, wal_seg_size := 0, wal_seg_writer := []\<rparr>"
  have "open_segment d ?n w = (?w, True)"
    using assms(1) none by (simp add: open_segment_def healthy_def Let_def)
  moreover have clean: "seg_clean crc32 []" by (simp add: seg_clean_codec wal_rec.clean_Nil)
  moreover have "wal_inv crc32 ?w"
    using fin le' clean by (auto simp: wal_inv_def seg_bytes_def seg_file_def)
  moreover have "logical_dir w = wal_dir w"
    using mem assms(3) by (auto simp: logical_dir_def seg_bytes_def seg_file_def)
  moreover have "replay crc32 (logical_dir ?w) = replay crc32 (wal_dir w)"
    using replay_top [OF fin le', of crc32 "[]"] none
    by (simp add: logical_dir_def seg_bytes_def seg_file_def replay_segment_def
        wal_rec.parse_while_Nil fun_upd_idem)
  ultimately show ?thesis using un by simp
qed

lemma extends_inv:
  assumes "wal_inv crc32 w" "extends w (concat (map (wal_record crc32) es)) w'" "list_all wal_fits es"
  shows "wal_inv crc32 w'"
    "replay crc32 (logical_dir w') = replay crc32 (logical_dir w) @ es"
proof -
  have clean: "wal_rec.clean crc32 (seg_bytes w)"
    using assms(1) by (simp add: wal_inv_def seg_clean_codec)
  have r: "replay_segment crc32 (seg_bytes w @ concat (map (wal_record crc32) es)) =
      replay_segment crc32 (seg_bytes w) @ es"
    using wal_rec.clean_append [OF clean] wal_rec.parse_while_enc [OF assms(3), where rest = "[]"]
    by (simp add: replay_segment_def wal_rec.parse_while_Nil)
  show "replay crc32 (logical_dir w') = replay crc32 (logical_dir w) @ es"
    using extends_replay [OF assms(1,2)] replay_logical [of w crc32] assms(1) r by (simp add: wal_inv_def)
  have "seg_clean crc32 (seg_bytes w')"
    using assms(2) r assms(1) by (simp add: seg_clean_def extends_def wal_inv_def)
  with extends_dom [OF assms(2)] assms(1,2) show "wal_inv crc32 w'"
    by (simp add: wal_inv_def extends_def)
qed

lemma rotate_ok:
  assumes "healthy d" "wal_inv crc32 w" "unat (wal_seg_seq w) + 1 < 2 ^ 64"
  shows "\<exists>w'. rotate d w = (w', True) \<and> wal_inv crc32 w' \<and>
    replay crc32 (logical_dir w') = replay crc32 (logical_dir w) \<and>
    unat (wal_seg_seq w') = unat (wal_seg_seq w) + 1 \<and> wal_group_buf w' = wal_group_buf w"
proof -
  obtain w1 where w1: "writer_flush d w = (w1, True)" "extends w [] w1" "wal_seg_writer w1 = []"
    using writer_flush_extends [OF assms(1)] by blast
  have i: "wal_inv crc32 w1" "replay crc32 (logical_dir w1) = replay crc32 (logical_dir w)"
    using extends_inv [OF assms(2), of "[]" w1] w1(2) by simp_all
  have "wal_seg_seq w1 = wal_seg_seq w" "wal_group_buf w1 = wal_group_buf w"
    using w1(2) by (simp_all add: extends_def)
  with open_segment_next [OF assms(1) i(1) w1(3)] assms(3) w1(1) i(2) show ?thesis
    by (simp add: rotate_def)
qed

lemma flush_one_ok:
  assumes "healthy d" "wal_inv crc32 w" "unat (wal_seg_seq w) + 1 < 2 ^ 64" "wal_fits e"
  shows "\<exists>w'. flush_one d crc32 e w = (w', True) \<and> wal_inv crc32 w' \<and>
    replay crc32 (logical_dir w') = replay crc32 (logical_dir w) @ [e] \<and>
    unat (wal_seg_seq w') \<le> unat (wal_seg_seq w) + 1 \<and> wal_group_buf w' = wal_group_buf w"
proof -
  let ?len = "of_nat (16 + length (we_payload e)) :: u64"
  obtain w1 where w1: "(if wal_max_segment_bytes w < wal_seg_size w + ?len then rotate d w else (w, True)) = (w1, True)"
      "wal_inv crc32 w1" "replay crc32 (logical_dir w1) = replay crc32 (logical_dir w)"
      "unat (wal_seg_seq w1) \<le> unat (wal_seg_seq w) + 1" "wal_group_buf w1 = wal_group_buf w"
    using rotate_ok [OF assms(1-3)] assms(2) by (cases "wal_max_segment_bytes w < wal_seg_size w + ?len") auto
  obtain w2 where w2: "writer_write_all d (record_parts crc32 e) w1 = (w2, True)"
      "extends w1 (concat (record_parts crc32 e)) w2"
    using writer_write_all_extends [OF assms(1)] by blast
  have e: "concat (record_parts crc32 e) = concat (map (wal_record crc32) [e])"
    by (simp add: wal_record_def)
  let ?w = "w2\<lparr>wal_seg_size := wal_seg_size w2 + ?len\<rparr>"
  have "extends w1 (concat (map (wal_record crc32) [e])) ?w"
    using w2(2) unfolding e extends_size .
  from extends_inv [OF w1(2) this] this assms(4) w1 w2(1) show ?thesis
    by (auto simp: flush_one_def Let_def extends_def)
qed

lemma flush_batch_ok:
  assumes "healthy d" "wal_inv crc32 w" "unat (wal_seg_seq w) + length batch < 2 ^ 64"
    "list_all wal_fits batch"
  shows "\<exists>w'. flush_batch d crc32 batch w = (w', True) \<and> wal_inv crc32 w' \<and>
    wal_seg_writer w' = [] \<and> replay crc32 (wal_dir w') = replay crc32 (logical_dir w) @ batch \<and>
    wal_group_buf w' = wal_group_buf w \<and> unat (wal_seg_seq w') \<le> unat (wal_seg_seq w) + length batch"
  using assms(2-)
proof (induction batch arbitrary: w)
  case Nil
  obtain w1 where w1: "writer_flush d w = (w1, True)" "extends w [] w1" "wal_seg_writer w1 = []"
      "wal_dir w1 = logical_dir w"
    using writer_flush_extends [OF assms(1)] by blast
  with extends_inv [OF Nil(1), of "[]" w1] show ?case by (simp add: extends_def)
next
  case (Cons e batch)
  have "unat (wal_seg_seq w) + 1 < 2 ^ 64"
    using Cons.prems(2) by simp
  from flush_one_ok [OF assms(1) Cons.prems(1) this, of e] Cons.prems(3)
  obtain w1 where w1: "flush_one d crc32 e w = (w1, True)" "wal_inv crc32 w1"
      "replay crc32 (logical_dir w1) = replay crc32 (logical_dir w) @ [e]"
      "unat (wal_seg_seq w1) \<le> unat (wal_seg_seq w) + 1" "wal_group_buf w1 = wal_group_buf w" by auto
  with Cons.IH [OF w1(2)] Cons.prems show ?case by auto
qed

lemma logical_dir_settled:
  "wal_inv crc32 w \<Longrightarrow> wal_seg_writer w = [] \<Longrightarrow> logical_dir w = wal_dir w"
  by (auto simp: wal_inv_def logical_dir_def seg_bytes_def seg_file_def)

section \<open>Truncation\<close>

lemma truncate_dir:
  "finite (dom (wal_dir w)) \<Longrightarrow> healthy d \<Longrightarrow>
   wal_dir (truncate_before d s w) = wal_dir w |` {q. min s (wal_seg_seq w) \<le> q}"
proof -
  assume fin: "finite (dom (wal_dir w))" and d: "healthy d"
  have "fold (\<lambda>q dir. if q < s \<and> q < wal_seg_seq w \<and> disk_remove d q then dir(q := None) else dir) qs (dir :: segments) =
      (\<lambda>q. if q \<in> set qs \<and> q < min s (wal_seg_seq w) then None else dir q)" for qs dir
    using d by (induction qs arbitrary: dir) (auto simp: healthy_def)
  then show ?thesis
    using fin by (auto simp: truncate_before_def restrict_map_def all_seqs_def fun_eq_iff min_def domIff split: if_splits)
qed

lemma sorted_list_of_set_above:
  assumes "finite (A :: u64 set)"
  shows "sorted_list_of_set (A \<inter> {q. b \<le> q}) = dropWhile (\<lambda>q. q < b) (sorted_list_of_set A)"
proof -
  have "dropWhile (\<lambda>q. q < b) xs = filter (\<lambda>q. b \<le> q) xs" if "sorted xs" for xs :: "u64 list"
    using that by (induction xs) (auto simp: filter_id_conv not_less intro!: sym [OF filter_True])
  moreover have "filter (\<lambda>q. b \<le> q) (sorted_list_of_set A) = sorted_list_of_set (A \<inter> {q. b \<le> q})"
    using assms by (intro sorted_distinct_set_unique) (auto simp: sorted_wrt_filter)
  ultimately show ?thesis by (simp add: sorted_list_of_set.sorted_sorted_key_list_of_set)
qed

section \<open>A dead disk\<close>

definition dead :: "disk \<Rightarrow> bool" where
  "dead d \<longleftrightarrow> (\<forall>f data. disk_write d f data = 0) \<and> (\<forall>s. \<not> disk_open d s)"

text \<open>The files and the open segment are as before.\<close>

definition same_files :: "wal \<Rightarrow> wal \<Rightarrow> bool" where
  "same_files w w' \<longleftrightarrow> wal_dir w' = wal_dir w \<and> wal_seg_seq w' = wal_seg_seq w"

lemma same_files_trans: "same_files w v \<Longrightarrow> same_files v u \<Longrightarrow> same_files w u"
  by (simp add: same_files_def)

lemma dead_raw_write:
  "dead d \<Longrightarrow> wal_seg_seq w \<in> dom (wal_dir w) \<Longrightarrow> same_files w (fst (raw_write d data w))"
  by (auto simp: raw_write_def same_files_def seg_file_def dead_def Let_def)

lemma dead_writer_flush:
  "dead d \<Longrightarrow> wal_seg_seq w \<in> dom (wal_dir w) \<Longrightarrow> same_files w (fst (writer_flush d w))"
  using dead_raw_write [of d w "wal_seg_writer w"]
  by (auto simp: writer_flush_def same_files_def Let_def case_prod_unfold)

lemma same_files_dom: "same_files w w' \<Longrightarrow> wal_seg_seq w \<in> dom (wal_dir w) \<Longrightarrow> wal_seg_seq w' \<in> dom (wal_dir w')"
  by (simp add: same_files_def)

lemma dead_writer_write:
  assumes "dead d" "wal_seg_seq w \<in> dom (wal_dir w)"
  shows "same_files w (fst (writer_write d data w))"
proof -
  obtain w1 b where w1: "writer_flush d w = (w1, b)" by force
  have s1: "same_files w w1" using dead_writer_flush [OF assms] w1 by simp
  have s2: "same_files w1 (fst (raw_write d data w1))" "same_files w (fst (raw_write d data w))"
    using dead_raw_write [OF assms(1)] same_files_dom [OF s1 assms(2)] assms(2) by blast+
  have b: "same_files v (v\<lparr>wal_seg_writer := x\<rparr>)" for v x by (simp add: same_files_def)
  show ?thesis
    using s1 s2 same_files_trans [OF s1 s2(1)] same_files_trans [OF s1 b] b
    by (auto simp: writer_write_def Let_def w1 case_prod_unfold split: bool.split)
qed

lemma dead_writer_write_all:
  "dead d \<Longrightarrow> wal_seg_seq w \<in> dom (wal_dir w) \<Longrightarrow> same_files w (fst (writer_write_all d parts w))"
proof (induction parts arbitrary: w)
  case Nil
  then show ?case by (simp add: same_files_def)
next
  case (Cons data parts)
  obtain w1 b where w1: "writer_write d data w = (w1, b)" by force
  then have s1: "same_files w w1" using dead_writer_write [OF Cons.prems, of data] by simp
  from Cons.IH [OF Cons.prems(1) same_files_dom [OF s1 Cons.prems(2)]] s1 w1 show ?case
    by (auto intro: same_files_trans split: bool.split)
qed

lemma dead_flush_one:
  assumes "dead d" "wal_seg_seq w \<in> dom (wal_dir w)"
  shows "same_files w (fst (flush_one d crc32 e w))"
proof -
  obtain w1 b where w1: "writer_flush d w = (w1, b)" by force
  have s1: "same_files w w1" using dead_writer_flush [OF assms] w1 by simp
  have "rotate d w = (w1, False)" using assms(1) w1 by (simp add: rotate_def open_segment_def dead_def split: bool.split)
  moreover obtain w2 c where w2: "writer_write_all d (record_parts crc32 e) w = (w2, c)" by force
  moreover have "same_files w w2" using dead_writer_write_all [OF assms, of "record_parts crc32 e"] w2 by simp
  ultimately show ?thesis using s1 by (auto simp: flush_one_def Let_def same_files_def split: bool.split)
qed

lemma dead_flush_batch:
  "dead d \<Longrightarrow> wal_seg_seq w \<in> dom (wal_dir w) \<Longrightarrow> same_files w (fst (flush_batch d crc32 batch w))"
proof (induction batch arbitrary: w)
  case Nil
  then show ?case by (simp add: dead_writer_flush)
next
  case (Cons e batch)
  obtain w1 b where w1: "flush_one d crc32 e w = (w1, b)" by force
  then have s1: "same_files w w1" using dead_flush_one [OF Cons.prems, of crc32 e] by simp
  from Cons.IH [OF Cons.prems(1) same_files_dom [OF s1 Cons.prems(2)]] s1 w1 show ?case
    by (auto intro: same_files_trans split: bool.split)
qed

section \<open>Sample disks and logs\<close>

definition good_disk :: disk where
  "good_disk = \<lparr>disk_write = (\<lambda>_ data. length data), disk_open = (\<lambda>_. True), disk_remove = (\<lambda>_. True)\<rparr>"

definition dead_disk :: disk where
  "dead_disk = \<lparr>disk_write = (\<lambda>_ _. 0), disk_open = (\<lambda>_. False), disk_remove = (\<lambda>_. False)\<rparr>"

definition last_byte_sum :: "bytes \<Rightarrow> u32" where
  "last_byte_sum bs = (case rev bs of [] \<Rightarrow> 0 | b # _ \<Rightarrow> ucast b)"

definition sample_wal :: "bytes \<Rightarrow> wal" where
  "sample_wal f = \<lparr>wal_dir = [3 \<mapsto> f], wal_seg_seq = 3, wal_seg_size = of_nat (length f),
     wal_seg_writer = [], wal_max_segment_bytes = 64, wal_group_buf = group_new 100, wal_flush_trigger = False\<rparr>"

lemma good_disk_healthy: "healthy good_disk"
  by (simp add: healthy_def good_disk_def)

lemma seg_clean_records: "list_all wal_fits es \<Longrightarrow> seg_clean crc32 (concat (map (wal_record crc32) es))"
  using wal_rec.parse_while_enc [of es crc32 "[]"]
  by (simp add: seg_clean_def replay_segment_def wal_rec.parse_while_Nil)

lemma sample_wal_inv: "list_all wal_fits es \<Longrightarrow> wal_inv crc32 (sample_wal (concat (map (wal_record crc32) es)))"
  using seg_clean_records [of es crc32] by (simp add: wal_inv_def sample_wal_def seg_bytes_def seg_file_def)

lemma flusher_tick_ok:
  assumes "healthy d" and "wal_inv crc32 w" and "wal_seg_writer w = []"
    and "unat (wal_seg_seq w) + length (gcb_pending (wal_group_buf w)) < 2 ^ 64"
    and "list_all (\<lambda>p. wal_fits (fst p)) (gcb_pending (wal_group_buf w))"
  shows "\<exists>w'. flusher_tick d crc32 w = (w', map snd (gcb_pending (wal_group_buf w))) \<and>
    replay crc32 (wal_dir w') = replay crc32 (wal_dir w) @ map fst (gcb_pending (wal_group_buf w)) \<and>
    gcb_pending (wal_group_buf w') = [] \<and> wal_inv crc32 w' \<and> wal_seg_writer w' = [] \<and>
    unat (wal_seg_seq w') \<le> unat (wal_seg_seq w) + length (gcb_pending (wal_group_buf w))"
proof -
  let ?p = "gcb_pending (wal_group_buf w)"
  let ?w = "w\<lparr>wal_flush_trigger := False, wal_group_buf := (wal_group_buf w)\<lparr>gcb_total_bytes := 0, gcb_pending := []\<rparr>\<rparr>"
  have same: "wal_inv crc32 ?w = wal_inv crc32 w" "wal_inv crc32 (w\<lparr>wal_flush_trigger := False\<rparr>) = wal_inv crc32 w"
    by (simp_all add: wal_inv_def seg_bytes_def seg_file_def)
  have "list_all wal_fits (map fst ?p)" using assms(5) by (simp add: list.pred_map comp_def)
  with flush_batch_ok [OF assms(1), of crc32 ?w "map fst ?p"] assms(2,4)
  obtain w' where w': "flush_batch d crc32 (map fst ?p) ?w = (w', True)" "wal_inv crc32 w'"
      "wal_seg_writer w' = []" "replay crc32 (wal_dir w') = replay crc32 (logical_dir ?w) @ map fst ?p"
      "wal_group_buf w' = wal_group_buf ?w"
      "unat (wal_seg_seq w') \<le> unat (wal_seg_seq w) + length ?p"
    unfolding same by auto
  have l: "logical_dir ?w = wal_dir w"
    using logical_dir_settled [of crc32 ?w] assms(2,3) unfolding same by simp
  show ?thesis
  proof (cases "?p = []")
    case True
    with assms(2,3) same(2) show ?thesis by (auto simp: flusher_tick_def group_is_empty_def)
  next
    case False
    then have "flusher_tick d crc32 w = (w', map snd ?p)"
      using w'(1) by (simp add: flusher_tick_def group_is_empty_def group_take_all_def)
    with w' l show ?thesis by simp
  qed
qed

section \<open>Properties\<close>

text \<open>C3. Group commit is durable on a healthy disk: one flusher iteration notifies
  exactly the waiting appends, and afterwards a replay of the files returns what it
  returned before followed by all their entries in order, across any segment rotations.  The open
  segment is the newest file and holds whole records, the writer's buffer is empty, which the
  iteration establishes again; entries fit the record format and segment numbers do not run out.\<close>

theorem group_commit_durable:
  assumes "healthy d" and "wal_inv crc32 w" and "wal_seg_writer w = []"
    and "unat (wal_seg_seq w) + length (gcb_pending (wal_group_buf w)) < 2 ^ 64"
    and "list_all (\<lambda>p. wal_fits (fst p)) (gcb_pending (wal_group_buf w))"
  shows "\<exists>w'. flusher_tick d crc32 w = (w', map snd (gcb_pending (wal_group_buf w))) \<and>
    replay crc32 (wal_dir w') = replay crc32 (wal_dir w) @ map fst (gcb_pending (wal_group_buf w)) \<and>
    gcb_pending (wal_group_buf w') = [] \<and> wal_inv crc32 w' \<and> wal_seg_writer w' = []"
  using flusher_tick_ok [OF assms] by blast

text \<open>C4. A crash that cuts the open segment at any byte loses only a suffix of the log: a
  replay returns exactly the entries whose records lie entirely before the cut.  Before the crash
  the open segment is the newest file, holds whole records and the writer's buffer is empty.\<close>

theorem wal_crash_keeps_prefix:
  assumes "wal_inv crc32 w" and "wal_seg_writer w = []"
  shows "\<exists>j. replay crc32 ((wal_dir w)(wal_seg_seq w \<mapsto> take k (seg_file w))) =
      replay crc32 ((wal_dir w)(wal_seg_seq w := None)) @ take j (replay_segment crc32 (seg_file w)) \<and>
    length (concat (map (wal_record crc32) (take j (replay_segment crc32 (seg_file w))))) \<le> k \<and>
    (j < length (replay_segment crc32 (seg_file w)) \<longrightarrow>
      k < length (concat (map (wal_record crc32) (take (Suc j) (replay_segment crc32 (seg_file w))))))"
proof -
  let ?es = "replay_segment crc32 (seg_file w)"
  have "seg_clean crc32 (seg_file w)" using assms by (simp add: wal_inv_def seg_bytes_def)
  then have f: "concat (map (wal_record crc32) ?es) = seg_file w" by (simp add: seg_clean_def)
  have "list_all wal_fits ?es" unfolding replay_segment_def by (rule wal_rec.parse_while_ok)
  from wal_rec.parse_while_cut [OF this, of crc32 k, unfolded f]
  obtain j where "replay_segment crc32 (take k (seg_file w)) = take j ?es"
      "length (concat (map (wal_record crc32) (take j ?es))) \<le> k"
      "j < length ?es \<longrightarrow> k < length (concat (map (wal_record crc32) (take (Suc j) ?es)))"
    unfolding replay_segment_def by blast
  moreover have "finite (dom (wal_dir w))" "\<forall>s \<in> dom (wal_dir w). s \<le> wal_seg_seq w"
    using assms(1) by (simp_all add: wal_inv_def)
  ultimately show ?thesis using replay_top by auto
qed

text \<open>Truncation keeps the open segment and every segment from the given sequence
  on: replay afterwards is a suffix of the replay before.\<close>

lemma truncate_before_suffix:
  assumes "healthy d" and "finite (dom (wal_dir w))"
  shows "wal_dir (truncate_before d s w) = wal_dir w |` {q. min s (wal_seg_seq w) \<le> q} \<and>
    (\<exists>n. replay crc32 (wal_dir (truncate_before d s w)) = drop n (replay crc32 (wal_dir w)))"
proof -
  let ?b = "min s (wal_seg_seq w)" and ?xs = "all_seqs (wal_dir w)"
  note t = truncate_dir [OF assms(2,1), of s]
  have "all_seqs (wal_dir w |` {q. ?b \<le> q}) = dropWhile (\<lambda>q. q < ?b) ?xs"
    using sorted_list_of_set_above [OF assms(2)] by (simp add: all_seqs_def dom_restrict)
  moreover have "(wal_dir w |` {q. ?b \<le> q}) q = wal_dir w q" if "q \<in> set (dropWhile (\<lambda>q. q < ?b) ?xs)" for q
    using that sorted_list_of_set_above [OF assms(2), of ?b, symmetric] assms(2) by (auto simp: all_seqs_def)
  ultimately have r: "replay crc32 (wal_dir w |` {q. ?b \<le> q}) =
      concat (map (\<lambda>q. replay_segment crc32 (the (wal_dir w q))) (dropWhile (\<lambda>q. q < ?b) ?xs))"
    by (simp add: replay_def cong: map_cong)
  have "replay crc32 (wal_dir w) =
      concat (map (\<lambda>q. replay_segment crc32 (the (wal_dir w q))) (takeWhile (\<lambda>q. q < ?b) ?xs)) @
      replay crc32 (wal_dir w |` {q. ?b \<le> q})"
    unfolding r
    unfolding replay_def concat_append [symmetric] map_append [symmetric] takeWhile_dropWhile_id ..
  then show ?thesis unfolding t by (metis append_eq_conv_conj)
qed

text \<open>After a crash the log is reopened in append mode on its torn segment. Whatever is
  written behind a torn record of at least a whole header is never replayed, unless the
  checksum collides: the acknowledged records that follow are lost.\<close>

lemma records_after_torn_tail_lost:
  assumes "seg_clean crc32 old" and "wal_fits e"
    and "16 \<le> k" and "k < length (wal_record crc32 e)"
    and "wal_checksum crc32 (we_tx_id e)
           (take (length (we_payload e)) (drop 16 (take k (wal_record crc32 e)) @ later)) \<noteq>
         wal_checksum crc32 (we_tx_id e) (we_payload e)"
  shows "replay_segment crc32 (old @ take k (wal_record crc32 e) @ later) = replay_segment crc32 old"
proof -
  let ?t = "take k (wal_record crc32 e) @ later"
  let ?h = "to_le 4 (wal_checksum crc32 (we_tx_id e) (we_payload e)) @ to_le 8 (we_tx_id e) @
      to_le 4 (of_nat (length (we_payload e)) :: u32)"
  let ?r = "drop 16 (take k (wal_record crc32 e)) @ later"
  have rec: "wal_record crc32 e = ?h @ we_payload e" using wal_record_header [of crc32 e "[]"] by simp
  have t: "?t = ?h @ ?r" using assms(3) unfolding rec by simp
  have n: "unat (of_nat (length (we_payload e)) :: u32) = length (we_payload e)"
    using assms(2) unfolding wal_fits_def by (rule fits_u32_unat)
  have h: "take_bytes 16 (?h @ ?r) = Some (?h, ?r)" by (rule take_bytes_append) simp
  have "wal_read_record crc32 ?t = None"
    unfolding t wal_read_record_def h
    using assms(5) n by (simp add: Let_def le_u32 le_u64 take_bytes_def)
  then have "replay_segment crc32 ?t = []"
    unfolding replay_segment_def by (simp add: wal_rec.parse_while_step)
  with wal_rec.clean_append [of crc32 old ?t] assms(1) show ?thesis
    by (simp add: seg_clean_codec replay_segment_def)
qed

text \<open>The flusher reports success whatever the disk did: on a disk that takes no bytes
  and opens no file, every waiting append is notified while the files are unchanged.\<close>

lemma flusher_notifies_lost_batch:
  assumes "\<forall>f data. disk_write d f data = 0" and "\<forall>s. \<not> disk_open d s"
    and "wal_seg_seq w \<in> dom (wal_dir w)"
  shows "snd (flusher_tick d crc32 w) = map snd (gcb_pending (wal_group_buf w)) \<and>
    wal_dir (fst (flusher_tick d crc32 w)) = wal_dir w"
proof -
  have d: "dead d" using assms(1,2) by (simp add: dead_def)
  let ?w = "w\<lparr>wal_flush_trigger := False, wal_group_buf := snd (group_take_all (wal_group_buf w))\<rparr>"
  have "same_files ?w (fst (flush_batch d crc32 batch ?w))" for batch
    using dead_flush_batch [OF d, of ?w] assms(3) by simp
  then show ?thesis
    by (auto simp: flusher_tick_def group_is_empty_def group_take_all_def same_files_def Let_def split: prod.splits)
      (metis fst_conv)+
qed

theorem group_commit_durable_witness:
  "let e0 = \<lparr>we_tx_id = 5, we_payload = [1, 2]\<rparr>; e1 = \<lparr>we_tx_id = 6, we_payload = []\<rparr>;
       w = append_enqueue e1 8 (append_enqueue e0 7 (sample_wal []))
   in \<exists>w'. flusher_tick good_disk last_byte_sum w = (w', [7, 8]) \<and>
        replay last_byte_sum (wal_dir w') = replay last_byte_sum (wal_dir w) @ [e0, e1] \<and>
        gcb_pending (wal_group_buf w') = [] \<and> wal_inv last_byte_sum w' \<and> wal_seg_writer w' = []"
proof -
  let ?e0 = "\<lparr>we_tx_id = 5, we_payload = [1, 2]\<rparr>" and ?e1 = "\<lparr>we_tx_id = 6, we_payload = []\<rparr>"
  let ?w = "append_enqueue ?e1 8 (append_enqueue ?e0 7 (sample_wal []))"
  have i: "wal_inv last_byte_sum ?w"
    using sample_wal_inv [of "[]" last_byte_sum]
    by (simp add: append_enqueue_def wal_inv_def seg_bytes_def seg_file_def Let_def)
  have f: "wal_seg_writer ?w = []" "wal_seg_seq ?w = 3" "gcb_pending (wal_group_buf ?w) = [(?e0, 7), (?e1, 8)]"
    by (simp_all add: append_enqueue_def sample_wal_def group_push_def group_new_def Let_def)
  show ?thesis
    using group_commit_durable [OF good_disk_healthy i f(1)] unfolding f(2,3)
    by (simp add: Let_def wal_fits_def fits_u32_def)
qed

theorem wal_crash_keeps_prefix_witness:
  "let w = sample_wal (wal_record last_byte_sum \<lparr>we_tx_id = 5, we_payload = [1, 2]\<rparr>)
   in \<exists>j. replay last_byte_sum ((wal_dir w)(wal_seg_seq w \<mapsto> take 17 (seg_file w))) =
        replay last_byte_sum ((wal_dir w)(wal_seg_seq w := None)) @
        take j (replay_segment last_byte_sum (seg_file w))"
proof -
  have "wal_inv last_byte_sum (sample_wal (wal_record last_byte_sum \<lparr>we_tx_id = 5, we_payload = [1, 2]\<rparr>))"
    using sample_wal_inv [of "[\<lparr>we_tx_id = 5, we_payload = [1, 2]\<rparr>]" last_byte_sum]
    by (simp add: wal_fits_def fits_u32_def)
  from wal_crash_keeps_prefix [OF this, of 17] show ?thesis
    unfolding Let_def by (auto simp: sample_wal_def)
qed

end
