(* ===== verification/Sstable.thy ===== *)
theory Sstable
  imports Memtable Bloom Levels
begin

text \<open>
  Flushing a frozen table to column files (\<open>storage-node/src/lsm/sstable.rs\<close>): the header of a
  \<open>.col\<close> file and its check, the \<open>.min_max\<close> file, the sequence counter and the flusher. Files
  are a map from paths relative to the partition directory to contents; column names are
  single path components. LZ4, CRC-32, XXH3 and the JSON codecs are arguments, as are the
  outcome of every file operation and the random id of the table.
\<close>

section \<open>Environment\<close>

type_synonym files = "string \<rightharpoonup> bytes"

text \<open>What the file system does: whether a directory or a file can be created and how many
  bytes of a write arrive.\<close>

record io =
  io_mkdir :: "string \<Rightarrow> bool"
  io_create :: "string \<Rightarrow> bool"
  io_write :: "string \<Rightarrow> nat option"

definition io_healthy :: "io \<Rightarrow> bool" where
  "io_healthy io \<longleftrightarrow> (\<forall>p. io_mkdir io p \<and> io_create io p \<and> io_write io p = None)"

text \<open>\<open>tokio::fs::write\<close> creates or truncates the file and writes the contents.\<close>

definition fs_write :: "io \<Rightarrow> string \<Rightarrow> bytes \<Rightarrow> files \<Rightarrow> files \<times> bool" where
  "fs_write io path data fs =
     (if \<not> io_create io path then (fs, False)
      else (case io_write io path of
              None \<Rightarrow> (fs(path \<mapsto> data), True)
            | Some n \<Rightarrow> (fs(path \<mapsto> take n data), length data \<le> n)))"

record min_max_record =
  mm_min :: bytes
  mm_max :: bytes
  mm_null_count :: u64
  mm_row_count :: u64

record column_file_meta =
  cm_name :: string
  cm_col_file :: string
  cm_bloom_file :: "string option"
  cm_min_max_file :: "string option"
  cm_min_bytes :: "bytes option"
  cm_max_bytes :: "bytes option"
  cm_null_count :: u64
  cm_row_count :: u64
  cm_compressed_bytes :: u64

record sstable_meta =
  sm_id :: uuid
  sm_seq :: u64
  sm_sequence_num :: u64
  sm_generation :: u64
  sm_compacted_from :: "uuid list"
  sm_row_count :: u64
  sm_columns :: "column_file_meta list"
  sm_min_sort_key :: bytes
  sm_max_sort_key :: bytes

record sst_env =
  env_lz4 :: "bytes \<Rightarrow> bytes"
  env_crc32 :: "bytes \<Rightarrow> u32"
  env_xxh3 :: "bytes \<Rightarrow> 128 word"
  env_bloom_json :: "bloom_serialized \<Rightarrow> bytes option"
  env_min_max_json :: "min_max_record \<Rightarrow> bytes option"
  env_meta_json :: "sstable_meta \<Rightarrow> bytes option"

datatype sst_error =
    ColTooShort nat
  | ColBadMagic bytes
  | ColBadVersion u16
  | FlushEmpty
  | FlushJson
  | FlushBloom bloom_error
  | FlushIo string

text \<open>A step on the files returns a value or an error and may panic.\<close>

type_synonym 'a fs_step = "files \<Rightarrow> (files \<times> (sst_error + 'a)) option"

definition fs_return :: "'a \<Rightarrow> 'a fs_step" where
  "fs_return x fs = Some (fs, Inr x)"

definition fs_fail :: "sst_error \<Rightarrow> 'a fs_step" where
  "fs_fail e fs = Some (fs, Inl e)"

definition fs_panic :: "'a fs_step" where
  "fs_panic fs = None"

definition fs_bind :: "'a fs_step \<Rightarrow> ('a \<Rightarrow> 'b fs_step) \<Rightarrow> 'b fs_step" where
  "fs_bind a f fs =
     (case a fs of None \<Rightarrow> None | Some (fs', Inl e) \<Rightarrow> Some (fs', Inl e) | Some (fs', Inr x) \<Rightarrow> f x fs')"

definition create_dir :: "io \<Rightarrow> string \<Rightarrow> unit fs_step" where
  "create_dir io path = (if io_mkdir io path then fs_return () else fs_fail (FlushIo path))"

definition write_file :: "io \<Rightarrow> string \<Rightarrow> bytes \<Rightarrow> unit fs_step" where
  "write_file io path data fs =
     (case fs_write io path data fs of (fs', ok) \<Rightarrow> Some (fs', if ok then Inr () else Inl (FlushIo path)))"

section \<open>File formats\<close>

definition file_format_version :: u16 where
  "file_format_version = 1"

definition write_col_header :: "bytes \<Rightarrow> u32 \<Rightarrow> u64 \<Rightarrow> u64 \<Rightarrow> u32 \<Rightarrow> bytes" where
  "write_col_header buf column_id sst_sequence row_count granule_count =
     (let buf = buf @ ascii ''WOWDBCOL'' @ to_le 2 file_format_version @ to_le 2 (0 :: u16) @ to_le 4 column_id @
                to_le 8 sst_sequence @ to_le 8 row_count @ to_le 4 granule_count
      in if length buf < 120 then buf @ replicate (120 - length buf) 0 else buf)"

definition verify_col_magic :: "bytes \<Rightarrow> sst_error + unit" where
  "verify_col_magic data =
     (if length data < 10 then Inl (ColTooShort (length data))
      else if take 8 data \<noteq> ascii ''WOWDBCOL'' then Inl (ColBadMagic (take 8 data))
      else (let version = from_le (take 2 (drop 8 data))
            in if version \<noteq> file_format_version then Inl (ColBadVersion version) else Inr ()))"

definition write_min_max_file :: "sst_env \<Rightarrow> min_max_record \<Rightarrow> sst_error + bytes" where
  "write_min_max_file env mm =
     (case env_min_max_json env mm of
        None \<Rightarrow> Inl FlushJson
      | Some payload \<Rightarrow>
          Inr (ascii ''WOWMINMX'' @ to_le 2 file_format_version @ to_le 4 (env_crc32 env payload) @ payload))"

section \<open>The sequence counter\<close>

definition seq_next :: "u64 \<Rightarrow> u64 \<times> u64" where
  "seq_next c = (c, c + 1)"

section \<open>The flusher\<close>

definition granule_count_of :: "bytes list \<Rightarrow> u32" where
  "granule_count_of values = of_nat ((length values - 1) div 8192 + 1)"

definition col_file_bytes :: "sst_env \<Rightarrow> bytes list \<Rightarrow> u64 \<Rightarrow> u32 \<Rightarrow> bytes" where
  "col_file_bytes env values sequence_num column_id =
     (let raw = concat values;
          compressed = env_lz4 env raw;
          col_bytes = write_col_header [] column_id sequence_num (of_nat (length values)) (granule_count_of values) @ compressed
      in col_bytes @ to_le 4 (env_crc32 env col_bytes))"

definition build_bloom :: "sst_env \<Rightarrow> bloom_config \<Rightarrow> bytes list \<Rightarrow> bytes fs_step" where
  "build_bloom env cfg values =
     (case bloom_insert_all (env_xxh3 env) (bloom_new (max (length values) 1) cfg) values of
        None \<Rightarrow> fs_panic
      | Some bloom \<Rightarrow>
          (case bloom_to_bytes (env_bloom_json env) (env_crc32 env) bloom of
             Inl e \<Rightarrow> fs_fail (FlushBloom e) | Inr bloom_bytes \<Rightarrow> fs_return bloom_bytes))"

definition flush_column ::
  "sst_env \<Rightarrow> io \<Rightarrow> bloom_config \<Rightarrow> string \<Rightarrow> bytes list \<Rightarrow> u64 \<Rightarrow> u64 \<Rightarrow> u32 \<Rightarrow> column_file_meta fs_step" where
  "flush_column env io cfg col_name values seq sequence_num column_id =
     (let seg_stem = ''seg-'' @ show_pad10 (unat seq);
          col_bytes = col_file_bytes env values sequence_num column_id;
          col_rel = col_name @ ''/seg-'' @ show_pad10 (unat seq) @ ''.col'';
          bloom_rel = col_name @ ''/'' @ seg_stem @ ''.bloom'';
          min_bytes = (if values = [] then None else iter_min values);
          max_bytes = (if values = [] then None else iter_max values);
          min_max = \<lparr>mm_min = case_option [] id min_bytes, mm_max = case_option [] id max_bytes,
                     mm_null_count = 0, mm_row_count = of_nat (length values)\<rparr>;
          mm_rel = col_name @ ''/'' @ seg_stem @ ''.min_max''
      in fs_bind (create_dir io col_name) (\<lambda>_.
         fs_bind (write_file io col_rel col_bytes) (\<lambda>_.
         fs_bind (build_bloom env cfg values) (\<lambda>bloom_bytes.
         fs_bind (write_file io bloom_rel bloom_bytes) (\<lambda>_.
         fs_bind (case_sum fs_fail fs_return (write_min_max_file env min_max)) (\<lambda>mm_bytes.
         fs_bind (write_file io mm_rel mm_bytes) (\<lambda>_.
         fs_return \<lparr>cm_name = col_name, cm_col_file = col_rel, cm_bloom_file = Some bloom_rel,
           cm_min_max_file = Some mm_rel, cm_min_bytes = min_bytes, cm_max_bytes = max_bytes,
           cm_null_count = 0, cm_row_count = of_nat (length values),
           cm_compressed_bytes = of_nat (length col_bytes)\<rparr>)))))))"

text \<open>The columns of the live rows, each with its values in row order.\<close>

definition add_columns :: "(string \<times> bytes) list \<Rightarrow> (string \<rightharpoonup> bytes list) \<Rightarrow> (string \<rightharpoonup> bytes list)" where
  "add_columns cols m =
     fold (\<lambda>(c, v) m. m(c \<mapsto> (case m c of None \<Rightarrow> [] | Some vs \<Rightarrow> vs) @ [v])) cols m"

definition first_encoded :: "mem_key \<Rightarrow> bytes option" where
  "first_encoded k = (case sk_values (mk_sort_key k) of [] \<Rightarrow> None | c # _ \<Rightarrow> Some (skc_encoded c))"

fun scan_entries ::
  "(mem_key \<times> mem_row) list \<Rightarrow> (string \<rightharpoonup> bytes list) \<times> bytes \<times> bytes \<Rightarrow>
   ((string \<rightharpoonup> bytes list) \<times> bytes \<times> bytes) option" where
  "scan_entries [] acc = Some acc"
| "scan_entries ((key, row) # es) (cd, lo, hi) =
     (let cd = (if \<not> mr_deleted row then add_columns (mr_columns row) cd else cd)
      in case first_encoded key of
           None \<Rightarrow> None
         | Some encoded \<Rightarrow>
             scan_entries es (cd, if encoded < lo then encoded else lo, if hi < encoded then encoded else hi))"

fun flush_columns ::
  "sst_env \<Rightarrow> io \<Rightarrow> bloom_config \<Rightarrow> u64 \<Rightarrow> u64 \<Rightarrow> nat \<Rightarrow> (string \<times> bytes list) list \<Rightarrow> column_file_meta list fs_step" where
  "flush_columns env io cfg seq sequence_num idx [] = fs_return []"
| "flush_columns env io cfg seq sequence_num idx ((col_name, values) # rest) =
     fs_bind (flush_column env io cfg col_name values seq sequence_num (of_nat idx)) (\<lambda>cm.
     fs_bind (flush_columns env io cfg seq sequence_num (Suc idx) rest) (\<lambda>cms.
     fs_return (cm # cms)))"

definition flush_with_lineage ::
  "sst_env \<Rightarrow> io \<Rightarrow> (string, bytes list) hash_order \<Rightarrow> bloom_config \<Rightarrow> uuid \<Rightarrow> immutable_memtable \<Rightarrow> u64 \<Rightarrow> u64 \<Rightarrow>
   u64 \<Rightarrow> uuid list \<Rightarrow> sstable_meta fs_step" where
  "flush_with_lineage env io ord cfg new_id imm seq sequence_num generation compacted_from =
     (case imm_entries imm of
        [] \<Rightarrow> fs_fail FlushEmpty
      | (key, row) # _ \<Rightarrow>
          (case first_encoded key of
             None \<Rightarrow> fs_panic
           | Some k0 \<Rightarrow>
               (case scan_entries (imm_entries imm) (Map.empty, k0, k0) of
                  None \<Rightarrow> fs_panic
                | Some (col_data, sort_key_min, sort_key_max) \<Rightarrow>
                    (let row_count = of_nat (length (filter (\<lambda>e. \<not> mr_deleted (snd e)) (imm_entries imm)));
                         meta_path = ''_meta/sstable-'' @ show_pad10 (unat seq) @ ''.json''
                     in fs_bind (flush_columns env io cfg seq sequence_num 0 (hm_entries ord col_data)) (\<lambda>col_metas.
                        let meta = \<lparr>sm_id = new_id, sm_seq = seq, sm_sequence_num = sequence_num,
                              sm_generation = generation, sm_compacted_from = compacted_from,
                              sm_row_count = row_count, sm_columns = col_metas,
                              sm_min_sort_key = sort_key_min, sm_max_sort_key = sort_key_max\<rparr>
                        in fs_bind (create_dir io ''_meta'') (\<lambda>_.
                           fs_bind (case env_meta_json env meta of None \<Rightarrow> fs_fail FlushJson | Some js \<Rightarrow> fs_return js) (\<lambda>js.
                           fs_bind (write_file io meta_path js) (\<lambda>_. fs_return meta))))))))"

definition flush ::
  "sst_env \<Rightarrow> io \<Rightarrow> (string, bytes list) hash_order \<Rightarrow> bloom_config \<Rightarrow> uuid \<Rightarrow> immutable_memtable \<Rightarrow> u64 \<Rightarrow> u64 \<Rightarrow>
   sstable_meta fs_step" where
  "flush env io ord cfg new_id imm seq sequence_num =
     flush_with_lineage env io ord cfg new_id imm seq sequence_num 0 []"

section \<open>Headers\<close>

lemma write_col_header_bytes:
  "write_col_header [] column_id sst_sequence row_count granule_count =
     ascii ''WOWDBCOL'' @ to_le 2 file_format_version @ to_le 2 (0 :: u16) @ to_le 4 column_id @ to_le 8 sst_sequence @
     to_le 8 row_count @ to_le 4 granule_count @ replicate 84 0"
  by (simp add: write_col_header_def Let_def)

lemma length_col_header [simp]: "length (write_col_header [] c s r g) = 120"
  by (simp add: write_col_header_bytes)

lemma verify_col_header: "verify_col_magic (write_col_header [] c s r g @ rest) = Inr ()"
  by (simp add: verify_col_magic_def write_col_header_bytes Let_def le_u16)

text \<open>A version the reader does not know is refused, whatever follows.\<close>

lemma verify_rejects_other_version:
  "v \<noteq> file_format_version \<Longrightarrow> verify_col_magic (ascii ''WOWDBCOL'' @ to_le 2 v @ rest) = Inl (ColBadVersion v)"
  by (simp add: verify_col_magic_def Let_def le_u16)


section \<open>One column\<close>

lemma bitvec_set_all_bits:
  "bitvec_set_all v is = Some v' \<Longrightarrow> bv_num_bits v' = bv_num_bits v"
proof (induction "is" arbitrary: v)
  case (Cons i js)
  then show ?case by (auto simp: bitvec_set_def Let_def split: if_splits option.splits)
qed simp

lemma bloom_insert_all_bits:
  "bloom_insert_all xxh3 bf keys = Some bf' \<Longrightarrow> bv_num_bits (bloom_bitmap bf') = bv_num_bits (bloom_bitmap bf)"
proof (induction keys arbitrary: bf)
  case (Cons key keys)
  then obtain b where "bloom_insert xxh3 bf key = Some b" "bloom_insert_all xxh3 b keys = Some bf'"
    by (auto split: option.splits)
  with Cons.IH [of b] show ?case by (auto simp: bloom_insert_def bitvec_set_all_bits split: option.splits)
qed simp

lemma build_bloom_ok:
  assumes json: "\<And>s. \<exists>data. env_bloom_json env s = Some data \<and> from_slice data = Some s"
    and small: "length values * unat (bits_per_key cfg) + 72 < 2 ^ 64" and ne: "values \<noteq> []"
  obtains img bf where "build_bloom env cfg values = fs_return img"
    "bloom_from_bytes from_slice (env_crc32 env) img = Inr bf"
    "\<And>v. v \<in> set values \<Longrightarrow> may_contain (env_xxh3 env) bf v = Some True"
proof -
  let ?new = "bloom_new (max (length values) 1) cfg"
  obtain b where b: "bloom_insert_all (env_xxh3 env) ?new values = Some b"
      "\<And>v. v \<in> set values \<Longrightarrow> may_contain (env_xxh3 env) b v = Some True"
  proof -
    have len: "max (max (length values) 1) 1 = length values" using ne by (simp add: Suc_leI)
    have "bloom_fits (max (length values) 1) cfg"
      by (rule bloom_fits_small) (use small in \<open>unfold len, simp\<close>)
    from that bloom_insert_all_total [OF bloom_new_wf [OF this]] show thesis by blast
  qed
  have "bv_num_bits (bloom_bitmap b) < 2 ^ 64"
    using bloom_insert_all_bits [OF b(1)] bloom_new_bits [of "max (length values) 1" cfg] by simp
  from bloom_file_roundtrip [OF json this, of "env_crc32 env"] obtain img where
    img: "bloom_to_bytes (env_bloom_json env) (env_crc32 env) b = Inr img"
      "bloom_from_bytes from_slice (env_crc32 env) img = Inr (bloom_reloaded b)" by blast
  show thesis
    by (rule that [of img "bloom_reloaded b"]) (use b img in \<open>simp_all add: build_bloom_def\<close>)
qed

lemma create_dir_healthy: "io_healthy io \<Longrightarrow> create_dir io path = fs_return ()"
  by (simp add: create_dir_def io_healthy_def)

lemma write_file_healthy: "io_healthy io \<Longrightarrow> write_file io path data fs = Some (fs(path \<mapsto> data), Inr ())"
  by (simp add: write_file_def fs_write_def io_healthy_def)

lemma fs_bind_simps:
  "fs_bind (fs_return x) f = f x" "fs_bind (fs_fail e) f = fs_fail e"
  "a fs = Some (fs', Inr x) \<Longrightarrow> fs_bind a f fs = f x fs'"
  by (auto simp: fs_bind_def fs_return_def fs_fail_def)

text \<open>The parts of a column file: the header, the compressed values and the checksum.\<close>

lemma col_file_parts:
  "let f = col_file_bytes env values sequence_num column_id
   in verify_col_magic f = Inr () \<and>
      take (length f - 124) (drop 120 f) = env_lz4 env (concat values) \<and>
      from_le (drop (length f - 4) f) = env_crc32 env (take (length f - 4) f)"
  by (simp add: col_file_bytes_def Let_def verify_col_header le_u32)

text \<open>C23. The three files of a flushed column agree with its values: the \<open>.col\<close> file passes the
  header check, its checksum matches and its body decompresses to the concatenated values; the
  \<open>.bloom\<close> file reads back as a filter that reports every value of the column; and the bounds
  in the metadata enclose every value.\<close>

theorem flush_column_files_agree:
  assumes "io_healthy io" and "values \<noteq> []"
    and "\<And>s. \<exists>data. env_bloom_json env s = Some data \<and> from_slice data = Some s"
    and "\<And>mm. env_min_max_json env mm \<noteq> None"
    and "\<And>x. decompress (env_lz4 env x) = Some x"
    and "length values * unat (bits_per_key cfg) + 72 < 2 ^ 64"
  shows "\<exists>fs' cm col img bf lo hi.
    flush_column env io cfg col_name values seq sequence_num column_id fs = Some (fs', Inr cm) \<and>
    fs' (cm_col_file cm) = Some col \<and> verify_col_magic col = Inr () \<and>
    decompress (take (length col - 124) (drop 120 col)) = Some (concat values) \<and>
    from_le (drop (length col - 4) col) = env_crc32 env (take (length col - 4) col) \<and>
    cm_bloom_file cm = Some (col_name @ ''/seg-'' @ show_pad10 (unat seq) @ ''.bloom'') \<and>
    fs' (col_name @ ''/seg-'' @ show_pad10 (unat seq) @ ''.bloom'') = Some img \<and>
    bloom_from_bytes from_slice (env_crc32 env) img = Inr bf \<and>
    cm_min_bytes cm = Some lo \<and> cm_max_bytes cm = Some hi \<and>
    list_all (\<lambda>v. may_contain (env_xxh3 env) bf v = Some True \<and> lo \<le> v \<and> v \<le> hi) values"
proof -
  let ?stem = "col_name @ ''/seg-'' @ show_pad10 (unat seq)"
  let ?col = "col_file_bytes env values sequence_num column_id"
  obtain img bf where img: "build_bloom env cfg values = fs_return img"
      "bloom_from_bytes from_slice (env_crc32 env) img = Inr bf"
      "\<And>v. v \<in> set values \<Longrightarrow> may_contain (env_xxh3 env) bf v = Some True"
    by (rule build_bloom_ok [OF assms(3,6,2)]) blast
  obtain lo hi where lo: "iter_min values = Some lo" and hi: "iter_max values = Some hi"
    using assms(2) by fastforce
  let ?mm = "\<lparr>mm_min = lo, mm_max = hi, mm_null_count = 0, mm_row_count = of_nat (length values)\<rparr>"
  obtain mmf where mmf: "write_min_max_file env ?mm = Inr mmf"
    using assms(4) [of ?mm] by (auto simp: write_min_max_file_def)
  let ?fs = "fs(?stem @ ''.col'' \<mapsto> ?col, ?stem @ ''.bloom'' \<mapsto> img, ?stem @ ''.min_max'' \<mapsto> mmf)"
  let ?cm = "\<lparr>cm_name = col_name, cm_col_file = ?stem @ ''.col'', cm_bloom_file = Some (?stem @ ''.bloom''),
      cm_min_max_file = Some (?stem @ ''.min_max''), cm_min_bytes = Some lo, cm_max_bytes = Some hi,
      cm_null_count = 0, cm_row_count = of_nat (length values), cm_compressed_bytes = of_nat (length ?col)\<rparr>"
  have "flush_column env io cfg col_name values seq sequence_num column_id fs = Some (?fs, Inr ?cm)"
    using assms(1,2) img(1) lo hi mmf
    by (simp add: flush_column_def Let_def create_dir_healthy fs_bind_simps write_file_healthy)
       (simp add: fs_return_def)
  moreover have "?fs (cm_col_file ?cm) = Some ?col" "?fs (?stem @ ''.bloom'') = Some img" by simp_all
  moreover have "list_all (\<lambda>v. may_contain (env_xxh3 env) bf v = Some True \<and> lo \<le> v \<and> v \<le> hi) values"
    using img(3) iter_min_Some [OF lo] iter_max_Some [OF hi] by (simp add: list_all_iff)
  moreover note col_file_parts [of env "values" sequence_num column_id, unfolded Let_def] assms(5) img(2)
  ultimately show ?thesis
    by (intro exI [of _ ?fs] exI [of _ ?cm] exI [of _ ?col] exI [of _ img] exI [of _ bf] exI [of _ lo] exI [of _ hi]) simp
qed

definition good_io :: io where
  "good_io = \<lparr>io_mkdir = (\<lambda>_. True), io_create = (\<lambda>_. True), io_write = (\<lambda>_. None)\<rparr>"

definition sample_env :: sst_env where
  "sample_env = \<lparr>env_lz4 = (\<lambda>x. 0 # x), env_crc32 = (\<lambda>_. 7), env_xxh3 = (\<lambda>_. 5), env_bloom_json = ref_to_vec,
     env_min_max_json = (\<lambda>mm. Some (mm_min mm)), env_meta_json = (\<lambda>m. Some (sm_min_sort_key m))\<rparr>"

theorem flush_column_files_agree_witness:
  "\<exists>fs' cm col img bf lo hi.
    flush_column sample_env good_io bloom_config_default ''c'' [[3], [1, 2]] 1 1 0 Map.empty = Some (fs', Inr cm) \<and>
    fs' (cm_col_file cm) = Some col \<and> verify_col_magic col = Inr () \<and>
    Some (tl (take (length col - 124) (drop 120 col))) = Some (concat [[3], [1, 2]]) \<and>
    from_le (drop (length col - 4) col) = env_crc32 sample_env (take (length col - 4) col) \<and>
    cm_bloom_file cm = Some (''c'' @ ''/seg-'' @ show_pad10 (unat (1 :: u64)) @ ''.bloom'') \<and>
    fs' (''c'' @ ''/seg-'' @ show_pad10 (unat (1 :: u64)) @ ''.bloom'') = Some img \<and>
    bloom_from_bytes ref_from_slice (env_crc32 sample_env) img = Inr bf \<and>
    cm_min_bytes cm = Some lo \<and> cm_max_bytes cm = Some hi \<and>
    list_all (\<lambda>v. may_contain (env_xxh3 sample_env) bf v = Some True \<and> lo \<le> v \<and> v \<le> hi) [[3], [1, 2]]"
  by (rule flush_column_files_agree [where decompress = "\<lambda>x. Some (tl x)"])
     (simp_all add: good_io_def io_healthy_def sample_env_def ref_json bloom_config_default_def)

text \<open>The values of a column cannot be told apart again: two columns with the same number of
  values and the same concatenation, such as \<open>["a","bc"]\<close> and \<open>["ab","c"]\<close>, give the same \<open>.col\<close>
  file, because the values are joined without their lengths.\<close>

lemma col_file_loses_boundaries:
  "col_file_bytes env [x, y @ z] sequence_num column_id = col_file_bytes env [x @ y, z] sequence_num column_id"
  by (simp add: col_file_bytes_def granule_count_of_def)


section \<open>The table as a whole\<close>

lemma scan_entries_range:
  "scan_entries es (cd, lo, hi) = Some (cd', lo', hi') \<Longrightarrow>
   lo' \<le> lo \<and> hi \<le> hi' \<and> list_all (\<lambda>e. \<exists>x. first_encoded (fst e) = Some x \<and> lo' \<le> x \<and> x \<le> hi') es"
proof (induction es arbitrary: cd lo hi)
  case (Cons e es)
  obtain k r where e: "e = (k, r)" by force
  obtain x where x: "first_encoded k = Some x" using Cons.prems by (auto simp: e Let_def split: option.splits)
  let ?cd = "if \<not> mr_deleted r then add_columns (mr_columns r) cd else cd"
  let ?lo = "if x < lo then x else lo" and ?hi = "if hi < x then x else hi"
  have "scan_entries es (?cd, ?lo, ?hi) = Some (cd', lo', hi')"
    using Cons.prems x by (simp add: e Let_def)
  from Cons.IH [OF this] have "lo' \<le> ?lo" "?hi \<le> hi'"
      "list_all (\<lambda>e. \<exists>x. first_encoded (fst e) = Some x \<and> lo' \<le> x \<and> x \<le> hi') es" by simp_all
  moreover from this(1,2) have "lo' \<le> lo" "lo' \<le> x" "hi \<le> hi'" "x \<le> hi'"
    by (auto split: if_splits)
  ultimately show ?case using x by (simp add: e)
qed simp

lemma fs_bind_Inr:
  "fs_bind a f fs = Some (fs', Inr y) \<Longrightarrow> \<exists>fs1 x. a fs = Some (fs1, Inr x) \<and> f x fs1 = Some (fs', Inr y)"
  by (auto simp: fs_bind_def split: option.splits sum.splits)

lemma flush_covers:
  assumes "flush_with_lineage env io ord cfg new_id imm seq sequence_num generation compacted_from fs = Some (fs', Inr meta)"
  shows "list_all (\<lambda>e. \<exists>x. first_encoded (fst e) = Some x \<and> sm_min_sort_key meta \<le> x \<and> x \<le> sm_max_sort_key meta)
      (imm_entries imm)"
    and "sm_row_count meta = of_nat (length (filter (\<lambda>e. \<not> mr_deleted (snd e)) (imm_entries imm)))"
    and "sm_sequence_num meta = sequence_num" "sm_generation meta = generation" "sm_id meta = new_id"
proof -
  obtain k r es where es: "imm_entries imm = (k, r) # es"
    using assms by (auto simp: flush_with_lineage_def fs_fail_def split: list.splits)
  obtain k0 where k0: "first_encoded k = Some k0"
    using assms by (auto simp: flush_with_lineage_def es fs_panic_def split: option.splits)
  obtain cd lo hi where sc: "scan_entries (imm_entries imm) (Map.empty, k0, k0) = Some (cd, lo, hi)"
    using assms by (auto simp: flush_with_lineage_def es k0 fs_panic_def split: option.splits)
  have "sm_min_sort_key meta = lo \<and> sm_max_sort_key meta = hi \<and> sm_sequence_num meta = sequence_num \<and>
      sm_generation meta = generation \<and> sm_id meta = new_id \<and>
      sm_row_count meta = of_nat (length (filter (\<lambda>e. \<not> mr_deleted (snd e)) (imm_entries imm)))"
    using assms sc by (auto simp: flush_with_lineage_def es k0 Let_def fs_return_def dest!: fs_bind_Inr)
  with scan_entries_range [OF sc] show
    "list_all (\<lambda>e. \<exists>x. first_encoded (fst e) = Some x \<and> sm_min_sort_key meta \<le> x \<and> x \<le> sm_max_sort_key meta)
      (imm_entries imm)"
    "sm_row_count meta = of_nat (length (filter (\<lambda>e. \<not> mr_deleted (snd e)) (imm_entries imm)))"
    "sm_sequence_num meta = sequence_num" "sm_generation meta = generation" "sm_id meta = new_id"
    by simp_all
qed

end
