(* ===== verification/TabletWriter.thy ===== *)
theory TabletWriter
  imports Wal Sstable
begin

text \<open>
  The write path of a tablet (\<open>storage-node/src/grpc/write.rs\<close>): the batch format of the
  log, the writer that composes the write-ahead log, the in-memory table, the flusher and the
  levels, recovery by replay, and the registry of writers. A hash map is a map whose
  iteration order is an argument. Writes of one tablet are handled one after the other: an
  append waits until the background flusher has run. A spawned flush task is kept in a list
  until it runs. The error text of a failed decoding is dropped.
\<close>

section \<open>Strings\<close>

text \<open>\<open>String::from_utf8\<close>: well-formed UTF-8 as the standard library checks it. A string is
  represented by its bytes.\<close>

definition between :: "byte \<Rightarrow> byte \<Rightarrow> byte \<Rightarrow> bool" where
  "between lo b hi \<longleftrightarrow> lo \<le> b \<and> b \<le> hi"

text \<open>The number of continuation bytes after a lead byte, when they are admissible.\<close>

definition utf8_tail :: "byte \<Rightarrow> bytes \<Rightarrow> nat option" where
  "utf8_tail b bs =
     (let cont = (\<lambda>i. i < length bs \<and> between 0x80 (bs ! i) 0xBF);
          first = (\<lambda>lo hi. bs \<noteq> [] \<and> between lo (hd bs) hi)
      in if b < 0x80 then Some 0
         else if between 0xC2 b 0xDF \<and> first 0x80 0xBF then Some 1
         else if b = 0xE0 \<and> first 0xA0 0xBF \<and> cont 1 then Some 2
         else if (between 0xE1 b 0xEC \<or> between 0xEE b 0xEF) \<and> first 0x80 0xBF \<and> cont 1 then Some 2
         else if b = 0xED \<and> first 0x80 0x9F \<and> cont 1 then Some 2
         else if b = 0xF0 \<and> first 0x90 0xBF \<and> cont 1 \<and> cont 2 then Some 3
         else if between 0xF1 b 0xF3 \<and> first 0x80 0xBF \<and> cont 1 \<and> cont 2 then Some 3
         else if b = 0xF4 \<and> first 0x80 0x8F \<and> cont 1 \<and> cont 2 then Some 3
         else None)"

fun utf8_ok :: "bytes \<Rightarrow> bool" where
  "utf8_ok [] \<longleftrightarrow> True"
| "utf8_ok (b # bs) \<longleftrightarrow> (case utf8_tail b bs of None \<Rightarrow> False | Some n \<Rightarrow> utf8_ok (drop n bs))"

definition str_of :: "bytes \<Rightarrow> string" where
  "str_of bs = map (\<lambda>b. char_of (unat b)) bs"

lemma str_of_ascii [simp]: "str_of (ascii s) = s"
proof -
  have "char_of (unat (of_char c :: byte)) = c" for c
  proof -
    have "unat (of_nat (of_char c) :: byte) = (of_char c :: nat) mod 2 ^ LENGTH(8)" by (rule unat_of_nat)
    then have "unat (of_char c :: byte) = (of_char c :: nat)" unfolding of_nat_of_char by simp
    then show ?thesis by (simp only: char_of_char)
  qed
  then show ?thesis by (simp add: str_of_def ascii_def comp_def map_idI)
qed

section \<open>Write batches\<close>

record write_row =
  wr_sort_key_bytes :: bytes
  wr_columns :: "string \<rightharpoonup> bytes"
  wr_tx_id :: u64

type_synonym col_order = "(string, bytes) hash_order"

definition to_sort_key :: "write_row \<Rightarrow> sort_key" where
  "to_sort_key row = SortKey [SortKeyComponent ''sort_key'' (wr_sort_key_bytes row)]"

definition put_column :: "string \<times> bytes \<Rightarrow> bytes" where
  "put_column nv = put_len_bytes (ascii (fst nv)) @ put_len_bytes (snd nv)"

definition put_row :: "col_order \<Rightarrow> write_row \<Rightarrow> bytes" where
  "put_row ord row =
     to_le 8 (wr_tx_id row) @ put_len_bytes (wr_sort_key_bytes row) @
     to_le 4 (of_nat (length (hm_entries ord (wr_columns row))) :: u32) @
     concat (map put_column (hm_entries ord (wr_columns row)))"

definition serialize_write_batch :: "col_order \<Rightarrow> write_row list \<Rightarrow> bytes" where
  "serialize_write_batch ord rows = to_le 4 (of_nat (length rows) :: u32) @ concat (map (put_row ord) rows)"

definition get_column :: "(string \<times> bytes) parser" where
  "get_column bs =
     (case get_len_bytes bs of
        None \<Rightarrow> None
      | Some (name_bytes, bs) \<Rightarrow>
          if \<not> utf8_ok name_bytes then None
          else (case get_len_bytes bs of
                  None \<Rightarrow> None
                | Some (val_bytes, bs) \<Rightarrow> Some ((str_of name_bytes, val_bytes), bs)))"

definition get_row :: "write_row parser" where
  "get_row bs =
     (case read_u64 bs of None \<Rightarrow> None | Some (tx_id, bs) \<Rightarrow>
     (case get_len_bytes bs of None \<Rightarrow> None | Some (sort_key_bytes, bs) \<Rightarrow>
     (case read_u32 bs of None \<Rightarrow> None | Some (col_count, bs) \<Rightarrow>
     (case parse_n get_column (unat col_count) bs of None \<Rightarrow> None | Some (cols, bs) \<Rightarrow>
        Some (\<lparr>wr_sort_key_bytes = sort_key_bytes, wr_columns = hm_collect cols,
               wr_tx_id = tx_id\<rparr>, bs)))))"

definition deserialize_write_batch :: "bytes \<Rightarrow> write_row list option" where
  "deserialize_write_batch data =
     (case read_u32 data of
        None \<Rightarrow> None
      | Some (row_count, bs) \<Rightarrow> map_option fst (parse_n get_row (unat row_count) bs))"

section \<open>The writer\<close>

record tablet_env =
  te_disk :: disk
  te_crc32 :: "bytes \<Rightarrow> u32"
  te_order :: col_order

record 'm tablet_writer =
  tw_tablet_id :: string
  tw_wal :: wal
  tw_memtable :: "'m memtable"
  tw_mem_seq :: u64
  tw_files :: files
  tw_levels :: partition_levels
  tw_seq_counter :: u64
  tw_flush_tasks :: "immutable_memtable list"

definition default_memtable_threshold :: nat where
  "default_memtable_threshold = 64 * 1024 * 1024"

text \<open>\<open>Wal::append\<close>: the entry joins the group buffer and the caller waits for the flusher.\<close>

definition wal_append :: "tablet_env \<Rightarrow> wal_entry \<Rightarrow> wal \<Rightarrow> wal" where
  "wal_append env e w = fst (flusher_tick (te_disk env) (te_crc32 env) (append_enqueue e 0 w))"

definition insert_row ::
  "'m row_map \<Rightarrow> tablet_env \<Rightarrow> write_row \<Rightarrow> u64 \<times> 'm memtable \<Rightarrow> u64 \<times> 'm memtable" where
  "insert_row sm env row sq_mt =
     (let cols = hm_entries (te_order env) (wr_columns row)
      in case memtable_insert sm (fst sq_mt) (snd sq_mt) (to_sort_key row) cols (wr_tx_id row) of
           (sq, mt, _) \<Rightarrow> (sq, mt))"

definition is_marker :: "bytes \<Rightarrow> bool" where
  "is_marker payload \<longleftrightarrow>
     prefix (ascii ''PREPARE:'') payload \<or> prefix (ascii ''COMMIT:'') payload \<or> prefix (ascii ''ROLLBACK:'') payload"

definition replay_entry ::
  "'m row_map \<Rightarrow> tablet_env \<Rightarrow> wal_entry \<Rightarrow> u64 \<times> 'm memtable \<Rightarrow> u64 \<times> 'm memtable" where
  "replay_entry sm env e sq_mt =
     (if is_marker (we_payload e) then sq_mt
      else (case deserialize_write_batch (we_payload e) of
              None \<Rightarrow> sq_mt
            | Some rows \<Rightarrow> fold (insert_row sm env) rows sq_mt))"

definition replay_wal :: "'m row_map \<Rightarrow> tablet_env \<Rightarrow> 'm tablet_writer \<Rightarrow> 'm tablet_writer" where
  "replay_wal sm env tw =
     (let (sq, mt) = fold (replay_entry sm env) (replay (te_crc32 env) (wal_dir (tw_wal tw))) (tw_mem_seq tw, tw_memtable tw)
      in tw\<lparr>tw_mem_seq := sq, tw_memtable := mt\<rparr>)"

definition tablet_new ::
  "'m row_map \<Rightarrow> tablet_env \<Rightarrow> string \<Rightarrow> segments \<Rightarrow> files \<Rightarrow> 'm tablet_writer option" where
  "tablet_new sm env tablet_id dir fs =
     (case wal_open (te_disk env) dir of
        None \<Rightarrow> None
      | Some w \<Rightarrow>
          Some (replay_wal sm env
            \<lparr>tw_tablet_id = tablet_id, tw_wal = w, tw_memtable = memtable_new sm default_memtable_threshold,
             tw_mem_seq = 0, tw_files = fs, tw_levels = levels_new compaction_config_default,
             tw_seq_counter = 0, tw_flush_tasks = []\<rparr>))"

definition write_rows :: "'m row_map \<Rightarrow> tablet_env \<Rightarrow> write_row list \<Rightarrow> 'm tablet_writer \<Rightarrow> 'm tablet_writer \<times> u64" where
  "write_rows sm env rows tw =
     (if rows = [] then (tw, 0)
      else (let payload = serialize_write_batch (te_order env) rows;
                tx_id = wr_tx_id (hd rows);
                w = wal_append env \<lparr>we_tx_id = tx_id, we_payload = payload\<rparr> (tw_wal tw);
                (sq, mt) = fold (insert_row sm env) rows (tw_mem_seq tw, tw_memtable tw);
                tw = tw\<lparr>tw_wal := w, tw_mem_seq := sq, tw_memtable := mt\<rparr>;
                tw = (if memtable_is_full mt
                      then tw\<lparr>tw_flush_tasks := tw_flush_tasks tw @ [snapshot_as_immutable sm mt],
                              tw_memtable := memtable_reset sm mt\<rparr>
                      else tw)
            in (tw, of_nat (length rows))))"

text \<open>The body of a spawned flush task; a failed flush is only logged.\<close>

definition sst_ref_of :: "sstable_meta \<Rightarrow> sst_ref" where
  "sst_ref_of meta =
     \<lparr>sst_id = sm_id meta, sst_sequence_num = sm_sequence_num meta, sst_generation = sm_generation meta,
      sst_compacted_from = sm_compacted_from meta, sst_level = 0,
      sst_path = ''_meta/sstable-'' @ show_pad10 (unat (sm_seq meta)) @ ''.json'',
      sst_size_bytes = sum_list (map cm_compressed_bytes (sm_columns meta)), sst_row_count = sm_row_count meta,
      sst_min_sort_key = sm_min_sort_key meta, sst_max_sort_key = sm_max_sort_key meta\<rparr>"

definition run_flush_task ::
  "sst_env \<Rightarrow> io \<Rightarrow> (string, bytes list) hash_order \<Rightarrow> uuid \<Rightarrow> immutable_memtable \<Rightarrow> 'm tablet_writer \<Rightarrow>
   'm tablet_writer option" where
  "run_flush_task senv io ord new_id imm tw =
     (let (seq, counter) = seq_next (tw_seq_counter tw); tw = tw\<lparr>tw_seq_counter := counter\<rparr>
      in case flush senv io ord bloom_config_default new_id imm seq seq (tw_files tw) of
           None \<Rightarrow> None
         | Some (fs, Inl e) \<Rightarrow> Some (tw\<lparr>tw_files := fs\<rparr>)
         | Some (fs, Inr meta) \<Rightarrow>
             map_option (\<lambda>lvls. tw\<lparr>tw_files := fs, tw_levels := lvls\<rparr>) (levels_add (sst_ref_of meta) (tw_levels tw)))"

definition marker :: "string \<Rightarrow> u64 \<Rightarrow> bytes" where
  "marker tag tx_id = ascii (tag @ show_nat (unat tx_id))"

definition tablet_prepare :: "tablet_env \<Rightarrow> u64 \<Rightarrow> 'm tablet_writer \<Rightarrow> 'm tablet_writer" where
  "tablet_prepare env tx_id tw =
     tw\<lparr>tw_wal := wal_append env \<lparr>we_tx_id = tx_id, we_payload = marker ''PREPARE:'' tx_id\<rparr> (tw_wal tw)\<rparr>"

definition tablet_commit :: "tablet_env \<Rightarrow> u64 \<Rightarrow> 'm tablet_writer \<Rightarrow> 'm tablet_writer" where
  "tablet_commit env tx_id tw =
     tw\<lparr>tw_wal := wal_append env \<lparr>we_tx_id = tx_id, we_payload = marker ''COMMIT:'' tx_id\<rparr> (tw_wal tw)\<rparr>"

definition tablet_rollback :: "'m row_map \<Rightarrow> tablet_env \<Rightarrow> u64 \<Rightarrow> 'm tablet_writer \<Rightarrow> 'm tablet_writer" where
  "tablet_rollback sm env tx_id tw =
     (let w = wal_append env \<lparr>we_tx_id = tx_id, we_payload = marker ''ROLLBACK:'' tx_id\<rparr> (tw_wal tw);
          skey = SortKey [SortKeyComponent ''tx_id'' (to_le 8 tx_id)]
      in case memtable_delete sm (tw_mem_seq tw) (tw_memtable tw) skey tx_id of
           (sq, mt, _) \<Rightarrow> tw\<lparr>tw_wal := w, tw_mem_seq := sq, tw_memtable := mt\<rparr>)"

definition scan_memtable_rows :: "'m row_map \<Rightarrow> 'm tablet_writer \<Rightarrow> (bytes \<times> (string \<rightharpoonup> bytes)) list" where
  "scan_memtable_rows sm tw =
     map (\<lambda>(key_bytes, cols). (key_bytes, hm_collect cols))
       (memtable_iter_rows sm (tw_memtable tw))"

definition memtable_size :: "'m tablet_writer \<Rightarrow> nat" where
  "memtable_size tw = mt_size_bytes (tw_memtable tw)"

record tablet_lsm_stats =
  tls_tablet_id :: string
  tls_cube_name :: string
  tls_partition_name :: string
  tls_levels :: "lsm_level_stats list"
  tls_l0_file_count :: nat
  tls_total_levels :: u32
  tls_level_sizes :: "u64 list"
  tls_compaction_score :: f64
  tls_compaction_status :: string
  tls_write_control :: string
  tls_last_compaction_ms :: "u64 option"
  tls_total_rows :: u64

text \<open>\<open>rfind\<close> of a character and the two parts around it.\<close>

definition rsplit_at :: "char \<Rightarrow> string \<Rightarrow> (string \<times> string) option" where
  "rsplit_at c s =
     (if c \<in> set s
      then (let r = rev s; after = takeWhile (\<lambda>x. x \<noteq> c) r
            in Some (rev (drop (Suc (length after)) r), rev after))
      else None)"

definition write_control_name :: "write_control \<Rightarrow> string" where
  "write_control_name wc = (case wc of Stop \<Rightarrow> ''Stop'' | Slowdown \<Rightarrow> ''Slowdown'' | Normal \<Rightarrow> ''Normal'')"

definition get_lsm_stats :: "'m row_map \<Rightarrow> 'm tablet_writer \<Rightarrow> tablet_lsm_stats" where
  "get_lsm_stats sm tw =
     (let mem_size = mt_size_bytes (tw_memtable tw);
          mem_rows = of_nat (memtable_row_count sm (tw_memtable tw));
          (cube_name, partition_name) =
            (case rsplit_at (CHR ''/'') (tw_tablet_id tw) of Some p \<Rightarrow> p | None \<Rightarrow> (tw_tablet_id tw, ''default''));
          lvls = tw_levels tw;
          stats = (case level_stats lvls of [] \<Rightarrow> []
                   | l0 # rest \<Rightarrow> l0\<lparr>lls_size_bytes := lls_size_bytes l0 + of_nat mem_size\<rparr> # rest);
          sst_rows = sum_list (map sst_row_count (read_snapshot lvls));
          sizes = map lls_size_bytes stats
      in \<lparr>tls_tablet_id = tw_tablet_id tw, tls_cube_name = cube_name, tls_partition_name = partition_name,
          tls_levels = stats, tls_l0_file_count = l0_count lvls, tls_total_levels = of_nat (length sizes),
          tls_level_sizes = sizes, tls_compaction_score = compaction_score lvls 0, tls_compaction_status = ''Idle'',
          tls_write_control = write_control_name (levels_write_control lvls), tls_last_compaction_ms = None,
          tls_total_rows = mem_rows + sst_rows\<rparr>)"

section \<open>The registry\<close>

text \<open>Open writers and what the disk holds for each tablet directory.\<close>

record 'm tablet_registry =
  reg_writers :: "string \<rightharpoonup> 'm tablet_writer"
  reg_disk :: "string \<rightharpoonup> segments \<times> files"

definition registry_new :: "(string \<rightharpoonup> segments \<times> files) \<Rightarrow> 'm tablet_registry" where
  "registry_new on_disk = \<lparr>reg_writers = Map.empty, reg_disk = on_disk\<rparr>"

text \<open>\<open>removed\<close> says whether \<open>remove_dir_all\<close> succeeds.\<close>

definition drop_tablet :: "bool \<Rightarrow> string \<Rightarrow> 'm tablet_registry \<Rightarrow> 'm tablet_registry" where
  "drop_tablet removed tablet_id reg =
     (let reg = reg\<lparr>reg_writers := (reg_writers reg)(tablet_id := None)\<rparr>
      in if reg_disk reg tablet_id \<noteq> None \<and> removed
         then reg\<lparr>reg_disk := (reg_disk reg)(tablet_id := None)\<rparr> else reg)"

text \<open>A writer that has changed, together with its directory: writers are shared by reference.\<close>

definition registry_store :: "'m tablet_writer \<Rightarrow> 'm tablet_registry \<Rightarrow> 'm tablet_registry" where
  "registry_store w reg =
     reg\<lparr>reg_writers := (reg_writers reg)(tw_tablet_id w \<mapsto> w),
         reg_disk := (reg_disk reg)(tw_tablet_id w \<mapsto> (wal_dir (tw_wal w), tw_files w))\<rparr>"

definition get_all_lsm_stats ::
  "'m row_map \<Rightarrow> (string, 'm tablet_writer) hash_order \<Rightarrow> 'm tablet_registry \<Rightarrow> tablet_lsm_stats list" where
  "get_all_lsm_stats sm ord reg = map (\<lambda>e. get_lsm_stats sm (snd e)) (hm_entries ord (reg_writers reg))"

definition get_or_create ::
  "'m row_map \<Rightarrow> tablet_env \<Rightarrow> string \<Rightarrow> 'm tablet_registry \<Rightarrow> 'm tablet_registry \<times> 'm tablet_writer option" where
  "get_or_create sm env tablet_id reg =
     (case reg_writers reg tablet_id of
        Some w \<Rightarrow> (reg, Some w)
      | None \<Rightarrow>
          (let (dir, fs) = (case reg_disk reg tablet_id of None \<Rightarrow> (Map.empty, Map.empty) | Some d \<Rightarrow> d)
           in case tablet_new sm env tablet_id dir fs of
                None \<Rightarrow> (reg, None)
              | Some w \<Rightarrow> (registry_store w reg, Some w)))"


section \<open>The batch format\<close>

definition column_ok :: "string \<times> bytes \<Rightarrow> bool" where
  "column_ok nv \<longleftrightarrow> fits_u32 (fst nv) \<and> utf8_ok (ascii (fst nv)) \<and> fits_u32 (snd nv)"

definition row_ok :: "col_order \<Rightarrow> write_row \<Rightarrow> bool" where
  "row_ok ord row \<longleftrightarrow>
     fits_u32 (wr_sort_key_bytes row) \<and> finite (dom (wr_columns row)) \<and>
     fits_u32 (hm_entries ord (wr_columns row)) \<and> list_all column_ok (hm_entries ord (wr_columns row))"

interpretation column_codec: prefix_codec put_column get_column column_ok
proof
  fix nv :: "string \<times> bytes" and rest
  assume ok: "column_ok nv"
  have "fits_u32 (ascii (fst nv))" using ok by (simp add: column_ok_def fits_u32_def)
  with ok show "get_column (put_column nv @ rest) = Some (nv, rest)"
    by (simp add: get_column_def put_column_def column_ok_def len_bytes.dec_enc)
qed

lemma get_put_row:
  assumes "hash_order_ok ord" "row_ok ord row"
  shows "get_row (put_row ord row @ rest) = Some (row, rest)"
proof -
  let ?cols = "hm_entries ord (wr_columns row)"
  have "parse_n get_column (length ?cols) (concat (map put_column ?cols) @ rest) = Some (?cols, rest)"
    using assms(2) by (intro column_codec.parse_n_enc) (simp add: row_ok_def)
  moreover have "unat (of_nat (length ?cols) :: u32) = length ?cols"
    using assms(2) by (intro fits_u32_unat) (simp add: row_ok_def)
  ultimately show ?thesis
    using assms hm_collect_entries [OF assms(1), of "wr_columns row"]
    by (simp add: get_row_def put_row_def row_ok_def read_u64_append read_u32_append len_bytes.dec_enc)
qed

interpretation row_codec: prefix_codec "put_row ord" get_row "\<lambda>row. hash_order_ok ord \<and> row_ok ord row" for ord
  by unfold_locales (simp add: get_put_row)

lemma batch_roundtrip:
  assumes "hash_order_ok ord" "fits_u32 rows" "list_all (row_ok ord) rows"
  shows "deserialize_write_batch (serialize_write_batch ord rows) = Some rows"
proof -
  have "list_all (\<lambda>row. hash_order_ok ord \<and> row_ok ord row) rows"
    using assms(1,3) by (simp add: list_all_iff)
  from row_codec.parse_n_enc [OF this, of "[]"] fits_u32_unat [OF assms(2)] show ?thesis
    by (simp add: deserialize_write_batch_def serialize_write_batch_def read_u32_append)
qed

text \<open>A batch of less than \<open>2 ^ 30\<close> rows cannot be mistaken for a marker: its first four bytes
  are the row count, and those of a marker spell a larger number.\<close>

lemma marker_head:
  "is_marker bs \<Longrightarrow> take 4 bs \<in> {ascii ''PREP'', ascii ''COMM'', ascii ''ROLL''}"
  by (auto simp: is_marker_def prefix_def ascii_def)

lemma batch_not_marker:
  assumes "length rows < 2 ^ 30"
  shows "\<not> is_marker (serialize_write_batch ord rows)"
proof
  assume "is_marker (serialize_write_batch ord rows)"
  from marker_head [OF this] have h: "to_le 4 (of_nat (length rows) :: u32) \<in> {ascii ''PREP'', ascii ''COMM'', ascii ''ROLL''}"
    by (simp add: serialize_write_batch_def)
  let ?n = "of_nat (length rows) :: u32"
  have "?n = from_le (to_le 4 ?n)" by (simp add: le_u32)
  also have "\<dots> \<in> {from_le (ascii ''PREP''), from_le (ascii ''COMM''), from_le (ascii ''ROLL'')}"
    using h by auto
  also have "\<dots> = {1346720336, 1296912195, 1280069458 :: u32}"
    by (simp add: ascii_def)
  finally have "unat ?n \<in> {1346720336, 1296912195, 1280069458}" by auto
  moreover have "unat ?n = length rows" using assms by (intro unat_u32_of_nat) simp
  ultimately show False using assms by auto
qed


section \<open>Recovery\<close>

lemma length_show_nat: "n < 10 ^ k \<Longrightarrow> 0 < k \<Longrightarrow> length (show_nat n) \<le> k"
proof (induction k arbitrary: n)
  case (Suc k)
  show ?case
  proof (cases "n < 10")
    case True
    then show ?thesis by (subst show_nat.simps) simp
  next
    case False
    then have "0 < k" "n div 10 < 10 ^ k" using Suc.prems by (auto intro!: Nat.gr0I)
    from Suc.IH [OF this(2,1)] False show ?thesis by (subst show_nat.simps) (simp add: Let_def)
  qed
qed simp

lemma marker_fits:
  assumes "length tag \<le> 10"
  shows "fits_u32 (marker tag tx_id)"
proof -
  have "unat tx_id < 2 ^ 64" using unsigned_less [of tx_id] by simp
  also have "\<dots> < 10 ^ 20" by simp
  finally have "length (show_nat (unat tx_id)) \<le> 20" by (rule length_show_nat) simp
  with assms show ?thesis by (simp add: fits_u32_def marker_def)
qed

text \<open>Between two appends the log is settled: everything appended so far is in the files.\<close>

definition log_settled :: "tablet_env \<Rightarrow> wal_entry list \<Rightarrow> wal \<Rightarrow> bool" where
  "log_settled env es w \<longleftrightarrow>
     wal_inv (te_crc32 env) w \<and> wal_seg_writer w = [] \<and> gcb_pending (wal_group_buf w) = [] \<and>
     replay (te_crc32 env) (wal_dir w) = es \<and> unat (wal_seg_seq w) \<le> length es"

lemma wal_append_settled:
  assumes "healthy (te_disk env)" "log_settled env es w" "wal_fits e" "length es + 1 < 2 ^ 64"
  shows "log_settled env (es @ [e]) (wal_append env e w)"
proof -
  let ?w = "append_enqueue e 0 w"
  have pend: "gcb_pending (wal_group_buf ?w) = [(e, 0)]"
    using assms(2) by (simp add: log_settled_def append_enqueue_def group_push_def Let_def)
  have same: "wal_dir ?w = wal_dir w" "wal_seg_seq ?w = wal_seg_seq w" "wal_seg_writer ?w = wal_seg_writer w"
      "wal_inv (te_crc32 env) ?w = wal_inv (te_crc32 env) w"
    by (simp_all add: append_enqueue_def Let_def wal_inv_def seg_bytes_def seg_file_def)
  obtain w' where "flusher_tick (te_disk env) (te_crc32 env) ?w = (w', map snd (gcb_pending (wal_group_buf ?w)))"
      "replay (te_crc32 env) (wal_dir w') = replay (te_crc32 env) (wal_dir ?w) @ map fst (gcb_pending (wal_group_buf ?w))"
      "gcb_pending (wal_group_buf w') = []" "wal_inv (te_crc32 env) w'" "wal_seg_writer w' = []"
      "unat (wal_seg_seq w') \<le> unat (wal_seg_seq ?w) + length (gcb_pending (wal_group_buf ?w))"
    using flusher_tick_ok [OF assms(1), of "te_crc32 env" ?w] assms(2-) unfolding pend same
    by (auto simp: log_settled_def)
  with assms(2) show ?thesis by (simp add: log_settled_def wal_append_def pend same)
qed

lemma wal_open_settled:
  assumes "healthy (te_disk env)" "log_settled env es w"
  shows "\<exists>w'. wal_open (te_disk env) (wal_dir w) = Some w' \<and> wal_dir w' = wal_dir w"
proof -
  have fin: "finite (dom (wal_dir w))" "wal_seg_seq w \<in> dom (wal_dir w)" "\<forall>s \<in> dom (wal_dir w). s \<le> wal_seg_seq w"
    using assms(2) by (simp_all add: log_settled_def wal_inv_def)
  then obtain f where f: "wal_dir w (wal_seg_seq w) = Some f" by blast
  then have dir: "(wal_dir w)(wal_seg_seq w \<mapsto> f) = wal_dir w" by (rule fun_upd_idem)
  have "all_seqs (wal_dir w) = all_seqs ((wal_dir w)(wal_seg_seq w := None)) @ [wal_seg_seq w]"
    using all_seqs_top [OF fin(1,3), of f] unfolding dir .
  moreover have "latest_seq (wal_dir w) = last (all_seqs (wal_dir w))" if "all_seqs (wal_dir w) \<noteq> []"
    using that by (cases "all_seqs (wal_dir w)") (simp_all add: latest_seq_def)
  ultimately have "latest_seq (wal_dir w) = wal_seg_seq w" by simp
  moreover have "disk_open (te_disk env) (wal_seg_seq w)" using assms(1) by (simp add: healthy_def)
  ultimately show ?thesis using f dir by (simp add: wal_open_def open_segment_def Let_def)
qed

lemma wal_open_empty:
  assumes "healthy (te_disk env)"
  shows "\<exists>w. wal_open (te_disk env) Map.empty = Some w \<and> log_settled env [] w"
proof -
  have "disk_open (te_disk env) 0" using assms by (simp add: healthy_def)
  moreover have "replay_segment (te_crc32 env) [] = []"
    unfolding replay_segment_def by (rule wal_rec.parse_while_Nil)
  ultimately show ?thesis
    by (simp add: wal_open_def open_segment_def latest_seq_def all_seqs_def Let_def log_settled_def wal_inv_def
        seg_bytes_def seg_file_def seg_clean_def group_new_def replay_def)
qed

datatype tw_op =
    TwWrite "write_row list"
  | TwPrepare u64
  | TwCommit u64
  | TwRollback u64
  | TwFlush sst_env io "(string, bytes list) hash_order" uuid immutable_memtable

definition tw_step :: "'m row_map \<Rightarrow> tablet_env \<Rightarrow> tw_op \<Rightarrow> 'm tablet_writer \<Rightarrow> ('m tablet_writer \<times> u64) option" where
  "tw_step sm env op tw =
     (case op of
        TwWrite rows \<Rightarrow> Some (write_rows sm env rows tw)
      | TwPrepare tx \<Rightarrow> Some (tablet_prepare env tx tw, 0)
      | TwCommit tx \<Rightarrow> Some (tablet_commit env tx tw, 0)
      | TwRollback tx \<Rightarrow> Some (tablet_rollback sm env tx tw, 0)
      | TwFlush senv io ord new_id imm \<Rightarrow> map_option (\<lambda>tw. (tw, 0)) (run_flush_task senv io ord new_id imm tw))"

definition batch_ok :: "tablet_env \<Rightarrow> write_row list \<Rightarrow> bool" where
  "batch_ok env rows \<longleftrightarrow>
     length rows < 2 ^ 30 \<and> list_all (row_ok (te_order env)) rows \<and> fits_u32 (serialize_write_batch (te_order env) rows)"

fun tw_op_ok :: "tablet_env \<Rightarrow> tw_op \<Rightarrow> bool" where
  "tw_op_ok env (TwWrite rows) \<longleftrightarrow> batch_ok env rows"
| "tw_op_ok env _ \<longleftrightarrow> True"

fun log_of :: "tablet_env \<Rightarrow> tw_op \<Rightarrow> wal_entry list" where
  "log_of env (TwWrite rows) =
     (if rows = [] then [] else [\<lparr>we_tx_id = wr_tx_id (hd rows), we_payload = serialize_write_batch (te_order env) rows\<rparr>])"
| "log_of env (TwPrepare tx) = [\<lparr>we_tx_id = tx, we_payload = marker ''PREPARE:'' tx\<rparr>]"
| "log_of env (TwCommit tx) = [\<lparr>we_tx_id = tx, we_payload = marker ''COMMIT:'' tx\<rparr>]"
| "log_of env (TwRollback tx) = [\<lparr>we_tx_id = tx, we_payload = marker ''ROLLBACK:'' tx\<rparr>]"
| "log_of env (TwFlush _ _ _ _ _) = []"

fun rows_of :: "tw_op \<Rightarrow> write_row list" where
  "rows_of (TwWrite rows) = rows"
| "rows_of _ = []"

lemma run_flush_task_wal: "run_flush_task senv io ord new_id imm tw = Some tw' \<Longrightarrow> tw_wal tw' = tw_wal tw"
  by (auto simp: run_flush_task_def seq_next_def Let_def split: option.splits sum.splits)

lemma tw_step_settled:
  assumes "healthy (te_disk env)" "log_settled env es (tw_wal tw)" "tw_op_ok env op" "length es + 1 < 2 ^ 64"
    and "tw_step sm env op tw = Some (tw', r)"
  shows "log_settled env (es @ log_of env op) (tw_wal tw')"
proof (cases op)
  case (TwWrite rows)
  show ?thesis
  proof (cases "rows = []")
    case True
    with TwWrite assms show ?thesis by (simp add: tw_step_def write_rows_def)
  next
    case False
    let ?e = "\<lparr>we_tx_id = wr_tx_id (hd rows), we_payload = serialize_write_batch (te_order env) rows\<rparr>"
    have "tw_wal tw' = wal_append env ?e (tw_wal tw)"
      using TwWrite False assms(5) by (auto simp: tw_step_def write_rows_def Let_def split: prod.splits)
    moreover have "wal_fits ?e" using TwWrite assms(3) by (simp add: wal_fits_def batch_ok_def)
    ultimately show ?thesis using wal_append_settled [OF assms(1,2) _ assms(4)] TwWrite False by simp
  qed
next
  case (TwPrepare tx)
  with wal_append_settled [OF assms(1,2) _ assms(4)] assms(5) show ?thesis
    by (auto simp: tw_step_def tablet_prepare_def wal_fits_def marker_fits)
next
  case (TwCommit tx)
  with wal_append_settled [OF assms(1,2) _ assms(4)] assms(5) show ?thesis
    by (auto simp: tw_step_def tablet_commit_def wal_fits_def marker_fits)
next
  case (TwRollback tx)
  with wal_append_settled [OF assms(1,2) _ assms(4)] assms(5) show ?thesis
    by (auto simp: tw_step_def tablet_rollback_def wal_fits_def marker_fits memtable_delete_def Let_def)
next
  case (TwFlush senv io ord new_id imm)
  with assms(5) have "tw_wal tw' = tw_wal tw" by (auto simp: tw_step_def dest: run_flush_task_wal)
  with TwFlush assms(2) show ?thesis by simp
qed

lemma tw_run_settled:
  assumes "healthy (te_disk env)"
  shows "log_settled env es (tw_wal tw) \<Longrightarrow> list_all (tw_op_ok env) ops \<Longrightarrow> length es + length ops < 2 ^ 64 \<Longrightarrow>
    run_ops (tw_step sm env) ops tw = Some (tw', rs) \<Longrightarrow>
    log_settled env (es @ concat (map (log_of env) ops)) (tw_wal tw')"
proof (induction ops arbitrary: es tw rs)
  case (Cons op ops)
  obtain tw1 r rs' where s: "tw_step sm env op tw = Some (tw1, r)" "run_ops (tw_step sm env) ops tw1 = Some (tw', rs')"
    using Cons.prems(4) by (auto split: option.splits)
  have "log_settled env (es @ log_of env op) (tw_wal tw1)"
    using tw_step_settled [OF assms Cons.prems(1) _ _ s(1)] Cons.prems(2,3) by simp
  moreover have "length (es @ log_of env op) + length ops < 2 ^ 64"
    using Cons.prems(3) by (cases op) auto
  ultimately have "log_settled env ((es @ log_of env op) @ concat (map (log_of env) ops)) (tw_wal tw')"
    using Cons.prems(2) by (intro Cons.IH [OF _ _ _ s(2)]) simp_all
  then show ?case by simp
qed simp

lemma is_marker_marker:
  "tag \<in> {''PREPARE:'', ''COMMIT:'', ''ROLLBACK:''} \<Longrightarrow> is_marker (marker tag tx_id)"
  by (auto simp: is_marker_def marker_def ascii_def)

lemma replay_log_of:
  assumes "hash_order_ok (te_order env)" "tw_op_ok env op"
  shows "fold (replay_entry sm env) (log_of env op) s = fold (insert_row sm env) (rows_of op) s"
proof (cases op)
  case (TwWrite rows)
  then have ok: "length rows < 2 ^ 30" "list_all (row_ok (te_order env)) rows" using assms(2) by (simp_all add: batch_ok_def)
  have "fits_u32 rows" using ok(1) by (simp add: fits_u32_def)
  from batch_roundtrip [OF assms(1) this ok(2)] batch_not_marker [OF ok(1)] TwWrite show ?thesis
    by (simp add: replay_entry_def)
qed (simp_all add: replay_entry_def is_marker_marker)

lemma replay_logs_of:
  assumes "hash_order_ok (te_order env)"
  shows "list_all (tw_op_ok env) ops \<Longrightarrow>
    fold (replay_entry sm env) (concat (map (log_of env) ops)) s = fold (insert_row sm env) (concat (map rows_of ops)) s"
  by (induction ops arbitrary: s) (simp_all add: replay_log_of [OF assms])

text \<open>C2. A restart loses no acknowledged row: from an empty tablet directory on a healthy disk,
  after any sequence of batch writes, prepares, commits, rollbacks and background flushes, opening
  the tablet again succeeds and its in-memory table is exactly the one obtained by inserting the
  rows of all the batches, in order, into an empty table.\<close>

theorem tablet_restart_keeps_rows:
  assumes "hash_order_ok (te_order env)" and "healthy (te_disk env)"
    and "tablet_new sm env tablet_id Map.empty fs = Some tw0"
    and "run_ops (tw_step sm env) ops tw0 = Some (tw, rs)"
    and "list_all (tw_op_ok env) ops" and "length ops < 2 ^ 64"
  shows "\<exists>tw'. tablet_new sm env tablet_id (wal_dir (tw_wal tw)) (tw_files tw) = Some tw' \<and>
    (tw_mem_seq tw', tw_memtable tw') =
      fold (insert_row sm env) (concat (map rows_of ops)) (0, memtable_new sm default_memtable_threshold)"
proof -
  obtain w0 where w0: "wal_open (te_disk env) Map.empty = Some w0" "log_settled env [] w0"
    using wal_open_empty [OF assms(2)] by blast
  then have "tw_wal tw0 = w0" using assms(3) by (auto simp: tablet_new_def replay_wal_def split: prod.splits)
  with tw_run_settled [OF assms(2) _ assms(5) _ assms(4), of "[]"] w0(2) assms(6)
  have set': "log_settled env (concat (map (log_of env) ops)) (tw_wal tw)" by simp
  obtain w' where w': "wal_open (te_disk env) (wal_dir (tw_wal tw)) = Some w'" "wal_dir w' = wal_dir (tw_wal tw)"
    using wal_open_settled [OF assms(2) set'] by blast
  have "replay (te_crc32 env) (wal_dir (tw_wal tw)) = concat (map (log_of env) ops)"
    using set' by (simp add: log_settled_def)
  with replay_logs_of [OF assms(1,5), of sm "(0, memtable_new sm default_memtable_threshold)"] w' show ?thesis
    by (simp add: tablet_new_def replay_wal_def split: prod.split)
qed


definition sample_tablet_env :: tablet_env where
  "sample_tablet_env = \<lparr>te_disk = good_disk, te_crc32 = last_byte_sum, te_order = sorted_order\<rparr>"

definition sample_row :: write_row where
  "sample_row = \<lparr>wr_sort_key_bytes = [1], wr_columns = [''a'' \<mapsto> [2]], wr_tx_id = 5\<rparr>"

lemma sample_entries: "hm_entries sorted_order [''a'' \<mapsto> [2 :: byte]] = [(''a'', [2])]"
  by (simp add: hm_entries_def sorted_order_def)

lemma sample_batch_ok: "batch_ok sample_tablet_env [sample_row]"
proof -
  have "row_ok sorted_order sample_row"
    by (simp add: row_ok_def sample_row_def sample_entries column_ok_def fits_u32_def ascii_def utf8_tail_def)
  then show ?thesis
    by (simp add: batch_ok_def sample_tablet_env_def fits_u32_def serialize_write_batch_def put_row_def
        put_len_bytes_def)
      (simp add: sample_row_def sample_entries put_column_def put_len_bytes_def)
qed

theorem tablet_restart_keeps_rows_witness:
  "let sm = alist_skip_map; env = sample_tablet_env; ops = [TwWrite [sample_row], TwPrepare 5, TwCommit 5]
   in \<exists>tw0 tw rs tw'. tablet_new sm env ''t'' Map.empty Map.empty = Some tw0 \<and>
        run_ops (tw_step sm env) ops tw0 = Some (tw, rs) \<and>
        tablet_new sm env ''t'' (wal_dir (tw_wal tw)) (tw_files tw) = Some tw' \<and>
        (tw_mem_seq tw', tw_memtable tw') =
          fold (insert_row sm env) [sample_row] (0, memtable_new sm default_memtable_threshold)"
proof -
  let ?sm = "alist_skip_map" and ?env = sample_tablet_env and ?ops = "[TwWrite [sample_row], TwPrepare 5, TwCommit 5]"
  have env: "hash_order_ok (te_order ?env)" "healthy (te_disk ?env)"
    by (simp_all add: sample_tablet_env_def sorted_order_ok good_disk_healthy)
  obtain tw0 where tw0: "tablet_new ?sm ?env ''t'' Map.empty Map.empty = Some tw0"
    using wal_open_empty [OF env(2)] by (auto simp: tablet_new_def)
  obtain tw rs where run: "run_ops (tw_step ?sm ?env) ?ops tw0 = Some (tw, rs)"
    by (cases "write_rows ?sm ?env [sample_row] tw0") (simp add: tw_step_def)
  have "list_all (tw_op_ok ?env) ?ops" using sample_batch_ok by simp
  from tablet_restart_keeps_rows [OF env tw0 run this] tw0 run show ?thesis
    unfolding Let_def by simp
qed

lemma put_sorted_hidden:
  "k \<notin> fst ` set xs \<Longrightarrow> \<not> P v \<Longrightarrow> filter (\<lambda>e. P (snd e)) (put_sorted k v xs) = filter (\<lambda>e. P (snd e)) xs"
  by (induction k v xs rule: put_sorted.induct) auto

text \<open>C38. A rollback hides nothing: the delete marker it inserts carries a key of its own, so a
  scan of the in-memory table returns after the rollback exactly the rows it returned before,
  those of the rolled-back transaction included.\<close>

theorem rollback_hides_nothing:
  assumes "skip_map_ok sm"
    and "list_all (\<lambda>e. mk_seq (fst e) \<noteq> tw_mem_seq tw) (sm_iter sm (mt_map (tw_memtable tw)))"
  shows "scan_memtable_rows sm (tablet_rollback sm env tx_id tw) = scan_memtable_rows sm tw"
proof -
  let ?k = "MemKey (SortKey [SortKeyComponent ''tx_id'' (to_le 8 tx_id)]) (tw_mem_seq tw)"
  have "?k \<notin> fst ` set (sm_iter sm (mt_map (tw_memtable tw)))"
    using assms(2) by (force simp: list_all_iff)
  from put_sorted_hidden [OF this, of "\<lambda>r. \<not> mr_deleted r"] show ?thesis
    by (simp add: scan_memtable_rows_def memtable_iter_rows_def tablet_rollback_def memtable_delete_def Let_def
        sm_iter_insert [OF assms(1)])
qed

theorem rollback_hides_nothing_witness:
  "let sm = alist_skip_map; mt = snd (insert_row sm sample_tablet_env sample_row (0, memtable_new sm 100));
       tw = \<lparr>tw_tablet_id = ''t'', tw_wal = sample_wal [], tw_memtable = mt, tw_mem_seq = 1, tw_files = Map.empty,
             tw_levels = levels_new compaction_config_default, tw_seq_counter = 0, tw_flush_tasks = []\<rparr>
   in scan_memtable_rows sm (tablet_rollback sm sample_tablet_env 5 tw) = scan_memtable_rows sm tw \<and>
      scan_memtable_rows sm tw = [([1], [''a'' \<mapsto> [2]])]"
proof -
  let ?sm = "alist_skip_map" and ?env = sample_tablet_env
  let ?mt = "snd (insert_row ?sm ?env sample_row (0, memtable_new ?sm 100))"
  let ?tw = "\<lparr>tw_tablet_id = ''t'', tw_wal = sample_wal [], tw_memtable = ?mt, tw_mem_seq = 1, tw_files = Map.empty,
             tw_levels = levels_new compaction_config_default, tw_seq_counter = 0, tw_flush_tasks = []\<rparr>"
  have it: "sm_iter ?sm (mt_map ?mt) = [(MemKey (to_sort_key sample_row) 0,
      \<lparr>mr_columns = [(''a'', [2])], mr_tx_id = 5, mr_deleted = False\<rparr>)]"
    by (simp add: insert_row_def memtable_insert_def memtable_new_def alist_skip_map_def sample_tablet_env_def
        sample_row_def sample_entries Let_def)
  have "scan_memtable_rows ?sm ?tw = [([1], [''a'' \<mapsto> [2]])]"
    by (simp add: scan_memtable_rows_def memtable_iter_rows_def it)
       (simp add: sort_key_first_def to_sort_key_def hm_collect_def sample_row_def)
  moreover have "scan_memtable_rows ?sm (tablet_rollback ?sm ?env 5 ?tw) = scan_memtable_rows ?sm ?tw"
    by (rule rollback_hides_nothing [OF alist_skip_map_ok]) (simp add: it)
  ultimately show ?thesis by (simp only: Let_def)
qed

text \<open>A flush task records the frozen table under its key range in L0.\<close>

lemma flush_task_registers_range:
  assumes "flush senv io ord bloom_config_default new_id imm seq seq fs = Some (fs', Inr meta)"
  shows "list_all (\<lambda>e. \<exists>x. first_encoded (fst e) = Some x \<and> key_in_range (sst_ref_of meta) x) (imm_entries imm)"
  using flush_covers(1) [OF assms [unfolded flush_def]]
  by (simp add: sst_ref_of_def key_in_range_def)

end
