(* ===== verification/Vectorized.thy ===== *)
theory Vectorized
  imports F64
begin

text \<open>
  The vectorised kernels of a compute node (\<open>compute-node/src/executor/simd/*.rs\<close>,
  \<open>compute-node/src/executor/sort.rs\<close>): column scans, bit-mask filters, aggregation, the hash
  join, sorting and top-k. An \<open>i64\<close> is a 64-bit word compared through its signed value. A
  batch is a list of columns; the arrow kernels \<open>take\<close> and \<open>concatenate\<close> are arguments with
  their documented behaviour as hypotheses, and so are the unstable sort and selection of the
  standard library, whose results are only determined up to equal elements.
\<close>

section \<open>Column scans\<close>

type_synonym i64 = "64 word"

definition i64_MIN :: i64 where
  "i64_MIN = push_bit 63 1"

definition i64_le :: "i64 \<Rightarrow> i64 \<Rightarrow> bool" where
  "i64_le a b \<longleftrightarrow> sint a \<le> sint b"

definition scan_i64_range_scalar :: "i64 list \<Rightarrow> i64 \<Rightarrow> i64 \<Rightarrow> nat list" where
  "scan_i64_range_scalar values lo hi =
     map fst (filter (\<lambda>(i, v). i64_le lo v \<and> i64_le v hi) (enumerate 0 values))"

text \<open>The SIMD variant of the source falls back to the scalar one.\<close>

definition scan_i64_range_simd :: "i64 list \<Rightarrow> i64 \<Rightarrow> i64 \<Rightarrow> nat list" where
  "scan_i64_range_simd values lo hi = scan_i64_range_scalar values lo hi"

definition scan_i64_range :: "bool \<Rightarrow> i64 list \<Rightarrow> i64 \<Rightarrow> i64 \<Rightarrow> nat list" where
  "scan_i64_range avx2 values lo hi =
     (if avx2 then scan_i64_range_simd values lo hi else scan_i64_range_scalar values lo hi)"

definition scan_i64_eq :: "i64 list \<Rightarrow> i64 \<Rightarrow> nat list" where
  "scan_i64_eq values target = map fst (filter (\<lambda>(i, v). v = target) (enumerate 0 values))"

definition scan_bytes_eq :: "bytes list \<Rightarrow> bytes \<Rightarrow> nat list" where
  "scan_bytes_eq values target = map fst (filter (\<lambda>(i, v). v = target) (enumerate 0 values))"

section \<open>Bit masks\<close>

definition mask_set :: "bytes \<Rightarrow> nat \<Rightarrow> bytes" where
  "mask_set msk i = msk[i div 8 := (msk ! (i div 8)) OR push_bit (i mod 8) 1]"

definition build_mask :: "(i64 \<Rightarrow> bool) \<Rightarrow> i64 list \<Rightarrow> bytes" where
  "build_mask P values =
     fold (\<lambda>(i, v) msk. if P v then mask_set msk i else msk) (enumerate 0 values)
       (replicate ((length values + 7) div 8) 0)"

definition build_bitmask_i64_eq :: "i64 list \<Rightarrow> i64 \<Rightarrow> bytes" where
  "build_bitmask_i64_eq values target = build_mask (\<lambda>v. v = target) values"

definition build_bitmask_i64_range :: "i64 list \<Rightarrow> i64 \<Rightarrow> i64 \<Rightarrow> bytes" where
  "build_bitmask_i64_range values lo hi = build_mask (\<lambda>v. i64_le lo v \<and> i64_le v hi) values"

definition mask_bit :: "bytes \<Rightarrow> nat \<Rightarrow> bool" where
  "mask_bit msk i \<longleftrightarrow> (msk ! (i div 8)) AND push_bit (i mod 8) 1 \<noteq> 0"

definition bitmask_to_indices :: "bytes \<Rightarrow> nat \<Rightarrow> nat list option" where
  "bitmask_to_indices msk n =
     (if n \<le> 8 * length msk then Some (filter (mask_bit msk) [0..<n]) else None)"

definition bitmask_and :: "bytes \<Rightarrow> bytes \<Rightarrow> bytes" where
  "bitmask_and a b = map (\<lambda>(x, y). x AND y) (zip a b)"

definition bitmask_or :: "bytes \<Rightarrow> bytes \<Rightarrow> bytes" where
  "bitmask_or a b = map (\<lambda>(x, y). x OR y) (zip a b)"

subsection \<open>Masks as predicates on positions\<close>

lemma map_fst_filter_enumerate:
  "map fst (filter (\<lambda>(i, v). P v) (enumerate 0 xs)) = positions P xs"
proof -
  have "filter (\<lambda>(i, v). P v) (enumerate 0 xs) = map (\<lambda>i. (i, xs ! i)) (filter (\<lambda>i. P (xs ! i)) [0..<length xs])"
  proof -
    have "enumerate 0 xs = map (\<lambda>i. (i, xs ! i)) [0..<length xs]"
      by (rule nth_equalityI) (simp_all add: nth_enumerate_eq)
    then show ?thesis by (simp add: filter_map comp_def)
  qed
  then show ?thesis by (simp add: positions_def comp_def)
qed

lemma mask_bit_iff: "mask_bit m i \<longleftrightarrow> bit (m ! (i div 8)) (i mod 8)"
  by (simp add: mask_bit_def and_exp_eq_0_iff_not_bit push_bit_of_1)

lemma length_mask_set [simp]: "length (mask_set m i) = length m"
  by (simp add: mask_set_def)

lemma mask_bit_set:
  assumes "i div 8 < length m"
  shows "mask_bit (mask_set m i) j \<longleftrightarrow> j = i \<or> mask_bit m j"
proof (cases "j div 8 = i div 8")
  case True
  have "j = i \<longleftrightarrow> j mod 8 = i mod 8" using True by (metis div_mult_mod_eq)
  with True assms show ?thesis
    by (auto simp: mask_bit_iff mask_set_def bit_simps)
next
  case False
  then show ?thesis using assms by (auto simp: mask_bit_iff mask_set_def)
qed

lemma build_mask_bits:
  "length (build_mask P vs) = (length vs + 7) div 8 \<and>
   (\<forall>j < length vs. mask_bit (build_mask P vs) j \<longleftrightarrow> P (vs ! j))"
proof -
  let ?step = "\<lambda>(i, v) msk. if P v then mask_set msk i else msk"
  have inv: "length (fold ?step (enumerate n xs) m) = length m \<and>
      (\<forall>j. mask_bit (fold ?step (enumerate n xs) m) j \<longleftrightarrow>
         mask_bit m j \<or> (n \<le> j \<and> j < n + length xs \<and> P (xs ! (j - n))))"
    if "n + length xs \<le> 8 * length m" for n and xs :: "i64 list" and m
    using that
  proof (induction xs arbitrary: n m)
    case (Cons x xs)
    let ?m = "if P x then mask_set m n else m"
    have len: "length ?m = length m" by simp
    have b: "mask_bit ?m j \<longleftrightarrow> mask_bit m j \<or> (P x \<and> j = n)" for j
      using mask_bit_set [of n m j] Cons.prems by auto
    from Cons.IH [of "Suc n" ?m] Cons.prems have ih: "length (fold ?step (enumerate (Suc n) xs) ?m) = length m"
        "\<And>j. mask_bit (fold ?step (enumerate (Suc n) xs) ?m) j \<longleftrightarrow>
         mask_bit ?m j \<or> (Suc n \<le> j \<and> j < Suc n + length xs \<and> P (xs ! (j - Suc n)))"
      by (simp_all only: len) simp_all
    have "(P x \<and> j = n) \<or> (Suc n \<le> j \<and> j < Suc n + length xs \<and> P (xs ! (j - Suc n))) \<longleftrightarrow>
        n \<le> j \<and> j < n + length (x # xs) \<and> P ((x # xs) ! (j - n))" for j
      by (cases "j = n") (auto simp: nth_Cons')
    with ih b show ?case by auto
  qed auto
  have "\<not> mask_bit (replicate k 0) j" if "j < 8 * k" for j k
    using that by (simp add: mask_bit_iff)
  with inv [of 0 vs "replicate ((length vs + 7) div 8) 0"] show ?thesis by (auto simp: build_mask_def)
qed

lemma mask_and_bit: "length a = length b \<Longrightarrow> j < 8 * length a \<Longrightarrow> mask_bit (bitmask_and a b) j \<longleftrightarrow> mask_bit a j \<and> mask_bit b j"
  by (simp add: mask_bit_iff bitmask_and_def bit_simps less_mult_imp_div_less mult.commute)

lemma mask_or_bit: "length a = length b \<Longrightarrow> j < 8 * length a \<Longrightarrow> mask_bit (bitmask_or a b) j \<longleftrightarrow> mask_bit a j \<or> mask_bit b j"
  by (simp add: mask_bit_iff bitmask_or_def bit_simps less_mult_imp_div_less mult.commute)

text \<open>A mask of the right length represents a predicate on the positions of a column.\<close>

definition represents :: "bytes \<Rightarrow> (i64 \<Rightarrow> bool) \<Rightarrow> i64 list \<Rightarrow> bool" where
  "represents msk P vs \<longleftrightarrow>
     length msk = (length vs + 7) div 8 \<and> (\<forall>j < length vs. mask_bit msk j \<longleftrightarrow> P (vs ! j))"

lemma represents_build: "represents (build_mask P vs) P vs"
  using build_mask_bits [of P vs] by (simp add: represents_def)

lemma represents_and: "represents a P vs \<Longrightarrow> represents b Q vs \<Longrightarrow> represents (bitmask_and a b) (\<lambda>v. P v \<and> Q v) vs"
  by (simp add: represents_def mask_and_bit) (simp add: bitmask_and_def)

lemma represents_or: "represents a P vs \<Longrightarrow> represents b Q vs \<Longrightarrow> represents (bitmask_or a b) (\<lambda>v. P v \<or> Q v) vs"
  by (simp add: represents_def mask_or_bit) (simp add: bitmask_or_def)

lemma represents_indices: "represents msk P vs \<Longrightarrow> bitmask_to_indices msk (length vs) = Some (positions P vs)"
  by (auto simp: represents_def bitmask_to_indices_def positions_def intro!: filter_cong)

text \<open>C29. Filtering through bit masks is equivalent to scanning: the indices read from a range
  mask are those of the range scan on either dispatch path, those of an equality mask are the
  equality scan's, and the conjunction and disjunction of two masks select exactly the rows that
  satisfy both predicates, or one of them.\<close>

theorem bitmask_filter_equals_scan:
  "bitmask_to_indices (build_bitmask_i64_range vs lo hi) (length vs) = Some (scan_i64_range avx2 vs lo hi) \<and>
   bitmask_to_indices (build_bitmask_i64_eq vs target) (length vs) = Some (scan_i64_eq vs target) \<and>
   bitmask_to_indices (bitmask_and (build_bitmask_i64_range vs lo hi) (build_bitmask_i64_eq vs target)) (length vs) =
     Some (positions (\<lambda>v. (sint lo \<le> sint v \<and> sint v \<le> sint hi) \<and> v = target) vs) \<and>
   bitmask_to_indices (bitmask_or (build_bitmask_i64_range vs lo hi) (build_bitmask_i64_eq vs target)) (length vs) =
     Some (positions (\<lambda>v. (sint lo \<le> sint v \<and> sint v \<le> sint hi) \<or> v = target) vs)"
proof -
  let ?R = "\<lambda>v. i64_le lo v \<and> i64_le v hi" and ?E = "\<lambda>v. v = target"
  have r: "represents (build_bitmask_i64_range vs lo hi) ?R vs" "represents (build_bitmask_i64_eq vs target) ?E vs"
    unfolding build_bitmask_i64_range_def build_bitmask_i64_eq_def by (rule represents_build)+
  have "scan_i64_range avx2 vs lo hi = positions ?R vs" "scan_i64_eq vs target = positions ?E vs"
    by (simp_all add: scan_i64_range_def scan_i64_range_simd_def scan_i64_range_scalar_def scan_i64_eq_def
        map_fst_filter_enumerate)
  with represents_indices [OF r(1)] represents_indices [OF r(2)]
    represents_indices [OF represents_and [OF r]] represents_indices [OF represents_or [OF r]]
  show ?thesis by (simp add: i64_le_def)
qed

section \<open>Aggregation\<close>

record agg_result =
  ar_sum :: i64
  ar_count :: u64
  ar_min :: "i64 option"
  ar_max :: "i64 option"

definition agg_default :: agg_result where
  "agg_default = \<lparr>ar_sum = 0, ar_count = 0, ar_min = None, ar_max = None\<rparr>"

definition i64_min :: "i64 \<Rightarrow> i64 \<Rightarrow> i64" where
  "i64_min a b = (if i64_le a b then a else b)"

definition i64_max :: "i64 \<Rightarrow> i64 \<Rightarrow> i64" where
  "i64_max a b = (if i64_le b a then a else b)"

definition agg_add :: "i64 \<Rightarrow> agg_result \<Rightarrow> agg_result" where
  "agg_add x r =
     r\<lparr>ar_sum := ar_sum r + x,
       ar_min := Some (case ar_min r of None \<Rightarrow> x | Some m \<Rightarrow> i64_min m x),
       ar_max := Some (case ar_max r of None \<Rightarrow> x | Some m \<Rightarrow> i64_max m x)\<rparr>"

definition agg_i64 :: "i64 option list \<Rightarrow> agg_result" where
  "agg_i64 values =
     fold (\<lambda>v r. case v of None \<Rightarrow> r | Some x \<Rightarrow> (agg_add x r)\<lparr>ar_count := ar_count r + 1\<rparr>) values agg_default"

definition agg_i64_scalar :: "i64 list \<Rightarrow> agg_result" where
  "agg_i64_scalar values = fold agg_add values (agg_default\<lparr>ar_count := of_nat (length values)\<rparr>)"

definition agg_i64_simd :: "i64 list \<Rightarrow> agg_result" where
  "agg_i64_simd values = agg_i64_scalar values"

definition agg_i64_non_null :: "bool \<Rightarrow> i64 list \<Rightarrow> agg_result" where
  "agg_i64_non_null avx512 values = (if avx512 then agg_i64_simd values else agg_i64_scalar values)"

lemma sint_i64_min: "sint (i64_min a b) = min (sint a) (sint b)"
  by (simp add: i64_min_def i64_le_def)

lemma sint_i64_max: "sint (i64_max a b) = max (sint a) (sint b)"
  by (simp add: i64_max_def i64_le_def)

lemma agg_fold_spec:
  assumes "r' = fold agg_add xs r" "map_option sint (ar_min r) = Some lo" "map_option sint (ar_max r) = Some hi"
  shows "ar_sum r' = ar_sum r + sum_list xs \<and> ar_count r' = ar_count r \<and>
    map_option sint (ar_min r') = Some (fold min (map sint xs) lo) \<and>
    map_option sint (ar_max r') = Some (fold max (map sint xs) hi)"
  using assms
proof (induction xs arbitrary: r lo hi)
  case (Cons x xs)
  let ?r = "agg_add x r"
  have "map_option sint (ar_min ?r) = Some (min (sint x) lo)" "map_option sint (ar_max ?r) = Some (max (sint x) hi)"
    using Cons.prems(2,3) by (auto simp: agg_add_def sint_i64_min sint_i64_max min.commute max.commute)
  from Cons.IH [OF _ this] Cons.prems(1) show ?case by (simp add: agg_add_def add.assoc)
qed simp

lemma agg_scalar_spec:
  "let r = agg_i64_scalar xs
   in ar_sum r = sum_list xs \<and> ar_count r = of_nat (length xs) \<and>
      map_option sint (ar_min r) = iter_min (map sint xs) \<and> map_option sint (ar_max r) = iter_max (map sint xs)"
proof (cases xs)
  case Nil
  then show ?thesis by (simp add: agg_i64_scalar_def agg_default_def iter_min_def iter_max_def)
next
  case (Cons x ys)
  let ?r = "agg_add x (agg_default\<lparr>ar_count := of_nat (length xs)\<rparr>)"
  have "map_option sint (ar_min ?r) = Some (sint x)" "map_option sint (ar_max ?r) = Some (sint x)"
    by (simp_all add: agg_add_def agg_default_def)
  from agg_fold_spec [OF refl this, of ys] show ?thesis
    by (simp add: Cons agg_i64_scalar_def Let_def iter_min_def iter_max_def) (simp add: agg_add_def agg_default_def)
qed

lemma agg_add_count: "agg_add x (r\<lparr>ar_count := c\<rparr>) = (agg_add x r)\<lparr>ar_count := c\<rparr>"
  by (simp add: agg_add_def)

lemma fold_agg_add_count: "fold agg_add xs (r\<lparr>ar_count := c\<rparr>) = (fold agg_add xs r)\<lparr>ar_count := c\<rparr>"
  by (induction xs arbitrary: r) (simp_all add: agg_add_count)

lemma agg_nullable_fold:
  "fold (\<lambda>v r. case v of None \<Rightarrow> r | Some x \<Rightarrow> (agg_add x r)\<lparr>ar_count := ar_count r + 1\<rparr>) vs r =
   (fold agg_add (List.map_filter id vs) r)\<lparr>ar_count := ar_count r + of_nat (length (List.map_filter id vs))\<rparr>"
proof (induction vs arbitrary: r)
  case (Cons v vs)
  show ?case
  proof (cases v)
    case (Some x)
    have "ar_count (agg_add x r) = ar_count r" by (simp add: agg_add_def)
    then show ?thesis
      by (simp add: Some Cons.IH map_filter_simps fold_agg_add_count add.assoc)
  qed (simp add: Cons.IH map_filter_simps)
qed (simp add: map_filter_simps)

text \<open>Aggregation is correct and independent of the dispatch: aggregating a nullable column
  equals aggregating its non-null values on either path, whose sum is the wrapping sum, whose
  count is the number of values and whose bounds are the signed minimum and maximum.\<close>

lemma agg_i64_correct:
  "agg_i64 vs = agg_i64_non_null avx512 (List.map_filter id vs) \<and>
   ar_sum (agg_i64 vs) = sum_list (List.map_filter id vs) \<and>
   ar_count (agg_i64 vs) = of_nat (length (List.map_filter id vs)) \<and>
   map_option sint (ar_min (agg_i64 vs)) = iter_min (map sint (List.map_filter id vs)) \<and>
   map_option sint (ar_max (agg_i64 vs)) = iter_max (map sint (List.map_filter id vs))"
proof -
  let ?xs = "List.map_filter id vs"
  have eq: "agg_i64 vs = agg_i64_scalar ?xs"
    unfolding agg_i64_def agg_nullable_fold agg_i64_scalar_def fold_agg_add_count by (simp add: agg_default_def)
  show ?thesis
    using agg_scalar_spec [of ?xs] unfolding eq
    by (simp add: agg_i64_non_null_def agg_i64_simd_def Let_def)
qed

end
