(* ===== verification/Joins.thy ===== *)
theory Joins
  imports Vectorized
begin

text \<open>
  Batches and the operators on them (\<open>compute-node/src/executor/simd/scan.rs\<close>,
  \<open>filter.rs\<close>, \<open>hash_join.rs\<close> and \<open>compute-node/src/executor/sort.rs\<close>): row selection, the hash
  join and its equivalence with a nested loop, sorting, top-k and the merge of sorted batches.
\<close>

section \<open>Batches\<close>

text \<open>A column is an \<open>i64\<close> array with validity or an array of another type, of which the code
  only knows the length and how to pick elements.\<close>

datatype 'v column = I64Array "i64 option list" | OtherArray "'v list"

datatype 'v cell = CI64 "i64 option" | COther 'v

type_synonym 'v chunk = "'v column list"

definition col_len :: "'v column \<Rightarrow> nat" where
  "col_len c = (case c of I64Array xs \<Rightarrow> length xs | OtherArray xs \<Rightarrow> length xs)"

definition chunk_len :: "'v chunk \<Rightarrow> nat" where
  "chunk_len b = (case b of [] \<Rightarrow> 0 | c # _ \<Rightarrow> col_len c)"

text \<open>\<open>Chunk::new\<close> panics when the arrays differ in length.\<close>

definition chunk_new :: "'v column list \<Rightarrow> 'v chunk option" where
  "chunk_new cs = (if list_all (\<lambda>c. col_len c = chunk_len cs) cs then Some cs else None)"

definition chunk_wf :: "'v chunk \<Rightarrow> bool" where
  "chunk_wf b \<longleftrightarrow> list_all (\<lambda>c. col_len c = chunk_len b) b"

definition cell :: "'v column \<Rightarrow> nat \<Rightarrow> 'v cell" where
  "cell c i = (case c of I64Array xs \<Rightarrow> CI64 (xs ! i) | OtherArray xs \<Rightarrow> COther (xs ! i))"

definition row :: "'v chunk \<Rightarrow> nat \<Rightarrow> 'v cell list" where
  "row b i = map (\<lambda>c. cell c i) b"

definition rows :: "'v chunk \<Rightarrow> 'v cell list list" where
  "rows b = map (row b) [0..<chunk_len b]"

text \<open>The arrow kernel \<open>take\<close>: with indices in range it picks the elements in their order.\<close>

definition col_take :: "'v column \<Rightarrow> nat list \<Rightarrow> 'v column" where
  "col_take c is =
     (case c of I64Array xs \<Rightarrow> I64Array (map ((!) xs) is) | OtherArray xs \<Rightarrow> OtherArray (map ((!) xs) is))"

definition new_empty_array :: "'v column \<Rightarrow> 'v column" where
  "new_empty_array c = (case c of I64Array _ \<Rightarrow> I64Array [] | OtherArray _ \<Rightarrow> OtherArray [])"

type_synonym 'v take_kernel = "'v column \<Rightarrow> u32 list \<Rightarrow> 'v column option"

definition take_ok :: "'v take_kernel \<Rightarrow> bool" where
  "take_ok tk \<longleftrightarrow>
     (\<forall>c is. list_all (\<lambda>i. unat i < col_len c) is \<longrightarrow> tk c is = Some (col_take c (map unat is)))"

definition take_array :: "'v take_kernel \<Rightarrow> 'v column \<Rightarrow> nat list \<Rightarrow> 'v column" where
  "take_array tk arr indices =
     (case tk arr (map of_nat indices) of Some a \<Rightarrow> a | None \<Rightarrow> new_empty_array arr)"

definition apply_selection :: "'v take_kernel \<Rightarrow> 'v chunk \<Rightarrow> nat list \<Rightarrow> 'v chunk option" where
  "apply_selection tk batch indices = chunk_new (map (\<lambda>arr. take_array tk arr indices) batch)"

definition filter_batch :: "'v take_kernel \<Rightarrow> 'v chunk \<Rightarrow> bytes \<Rightarrow> 'v chunk option" where
  "filter_batch tk batch msk =
     (case bitmask_to_indices msk (chunk_len batch) of
        None \<Rightarrow> None | Some indices \<Rightarrow> apply_selection tk batch indices)"

subsection \<open>Selection\<close>

lemma col_len_take [simp]: "col_len (col_take c is) = length is"
  by (simp add: col_len_def col_take_def split: column.split)

lemma cell_take: "j < length is \<Longrightarrow> cell (col_take c is) j = cell c (is ! j)"
  by (simp add: cell_def col_take_def split: column.split)

lemma take_array_ok:
  assumes "take_ok tk" "list_all (\<lambda>i. i < col_len c) is" "col_len c \<le> 2 ^ 32"
  shows "take_array tk c is = col_take c is"
proof -
  have u: "unat (of_nat i :: u32) = i" if "i \<in> set is" for i
    using that assms(2,3) by (intro unat_u32_of_nat) (force simp: list_all_iff)
  then have "list_all (\<lambda>i. unat i < col_len c) (map of_nat is :: u32 list)"
    using assms(2) by (simp add: list_all_iff)
  with assms(1) have "tk c (map of_nat is) = Some (col_take c (map unat (map of_nat is :: u32 list)))"
    by (simp add: take_ok_def)
  moreover have "map unat (map of_nat is :: u32 list) = is" using u by (simp add: map_idI)
  ultimately show ?thesis by (simp add: take_array_def)
qed

lemma apply_selection_ok:
  assumes "take_ok tk" "chunk_wf b" "list_all (\<lambda>i. i < chunk_len b) is" "chunk_len b \<le> 2 ^ 32"
  shows "apply_selection tk b is = Some (map (\<lambda>c. col_take c is) b)"
proof -
  have "take_array tk c is = col_take c is" if "c \<in> set b" for c
    using that assms by (intro take_array_ok) (auto simp: chunk_wf_def list_all_iff)
  then have eq: "map (\<lambda>c. take_array tk c is) b = map (\<lambda>c. col_take c is) b" by simp
  have "chunk_len (map (\<lambda>c. col_take c is) b) = length is" if "b \<noteq> []"
    using that by (cases b) (simp_all add: chunk_len_def)
  then show ?thesis
    unfolding apply_selection_def eq by (cases "b = []") (simp_all add: chunk_new_def list_all_iff)
qed

lemma row_take: "j < length is \<Longrightarrow> row (map (\<lambda>c. col_take c is) b) j = row b (is ! j)"
  by (simp add: row_def cell_take)

lemma rows_take:
  assumes "b \<noteq> []"
  shows "rows (map (\<lambda>c. col_take c is) b) = map (row b) is"
proof -
  have "chunk_len (map (\<lambda>c. col_take c is) b) = length is"
    using assms by (cases b) (simp_all add: chunk_len_def)
  then show ?thesis
    by (auto simp: rows_def row_take intro!: nth_equalityI)
qed

section \<open>The hash join\<close>

definition extract_i64_keys :: "'v chunk \<Rightarrow> nat \<Rightarrow> i64 option list" where
  "extract_i64_keys batch col_idx =
     (if length batch \<le> col_idx then replicate (chunk_len batch) None
      else (case batch ! col_idx of
              I64Array prim \<Rightarrow> map (\<lambda>i. prim ! i) [0..<length prim]
            | OtherArray _ \<Rightarrow> replicate (chunk_len batch) None))"

record 'v hash_build_table =
  hbt_table :: "i64 \<rightharpoonup> nat list"
  hbt_build_batch :: "'v chunk"

definition hash_insert :: "nat \<times> i64 option \<Rightarrow> (i64 \<rightharpoonup> nat list) \<Rightarrow> (i64 \<rightharpoonup> nat list)" where
  "hash_insert ik t =
     (case snd ik of
        None \<Rightarrow> t
      | Some k \<Rightarrow> t(k \<mapsto> (case t k of None \<Rightarrow> [] | Some is \<Rightarrow> is) @ [fst ik]))"

definition hash_build :: "'v chunk \<Rightarrow> nat \<Rightarrow> 'v hash_build_table" where
  "hash_build batch key_col =
     \<lparr>hbt_table = fold hash_insert (enumerate 0 (extract_i64_keys batch key_col)) Map.empty,
      hbt_build_batch = batch\<rparr>"

definition hbt_row_count :: "'v hash_build_table \<Rightarrow> nat" where
  "hbt_row_count t = chunk_len (hbt_build_batch t)"

definition probe_pairs :: "'v hash_build_table \<Rightarrow> i64 option list \<Rightarrow> (nat \<times> nat) list" where
  "probe_pairs build probe_keys =
     concat (map (\<lambda>(p_idx, key).
        case key of
          None \<Rightarrow> []
        | Some k \<Rightarrow> (case hbt_table build k of None \<Rightarrow> [] | Some b_rows \<Rightarrow> map (\<lambda>b_idx. (b_idx, p_idx)) b_rows))
      (enumerate 0 probe_keys))"

definition hash_probe :: "'v take_kernel \<Rightarrow> 'v hash_build_table \<Rightarrow> 'v chunk \<Rightarrow> nat \<Rightarrow> 'v chunk option" where
  "hash_probe tk build probe probe_key_col =
     (let pairs = probe_pairs build (extract_i64_keys probe probe_key_col);
          build_indices = map fst pairs; probe_indices = map snd pairs
      in case apply_selection tk (hbt_build_batch build) build_indices of
           None \<Rightarrow> None
         | Some build_selected \<Rightarrow>
             (case apply_selection tk probe probe_indices of
                None \<Rightarrow> None
              | Some probe_selected \<Rightarrow> chunk_new (build_selected @ probe_selected)))"

definition partition_for :: "nat \<Rightarrow> i64 \<Rightarrow> nat option" where
  "partition_for n_partitions key =
     (if n_partitions = 0 then None else Some (nat \<bar>sint key\<bar> mod n_partitions))"

subsection \<open>Equivalence with the nested-loop join\<close>

lemma length_keys: "chunk_wf b \<Longrightarrow> length (extract_i64_keys b c) = chunk_len b"
proof (cases "length b \<le> c")
  case False
  assume "chunk_wf b"
  then have "col_len (b ! c) = chunk_len b" using False by (simp add: chunk_wf_def list_all_length)
  then show ?thesis using False by (simp add: extract_i64_keys_def col_len_def split: column.splits)
qed (simp add: extract_i64_keys_def Let_def)

lemma hash_insert_at:
  "hash_insert (n, x) t k = (if x = Some k then Some ((case t k of None \<Rightarrow> [] | Some js \<Rightarrow> js) @ [n]) else t k)"
  by (auto simp: hash_insert_def split: option.split)

lemma hash_table_spec:
  "fold hash_insert (enumerate n ks) t k =
     (let is = map (\<lambda>i. n + i) (positions (\<lambda>x. x = Some k) ks)
      in if is = [] then t k else Some ((case t k of None \<Rightarrow> [] | Some js \<Rightarrow> js) @ is))"
proof (induction ks arbitrary: n t)
  case Nil
  then show ?case by (simp add: positions_def)
next
  case (Cons x ks)
  have shift: "map (\<lambda>i. n + i) (map Suc js) = map (\<lambda>i. Suc n + i) js" for js by simp
  show ?case
    by (cases "x = Some k"; cases "t k") (simp_all add: Cons.IH hash_insert_at positions_Cons shift Let_def comp_def)
qed

lemma hash_build_lookup:
  "(case hbt_table (hash_build b c) k of None \<Rightarrow> [] | Some is \<Rightarrow> is) = positions (\<lambda>x. x = Some k) (extract_i64_keys b c)"
  by (simp add: hash_build_def hash_table_spec Let_def)

text \<open>The reference: for every probe row in order, every build row in order with the same
  non-null key.\<close>

definition nested_loop_join :: "'v chunk \<Rightarrow> nat \<Rightarrow> 'v chunk \<Rightarrow> nat \<Rightarrow> 'v cell list list" where
  "nested_loop_join build bc probe pc =
     (let bk = extract_i64_keys build bc; pk = extract_i64_keys probe pc
      in concat (map (\<lambda>p. map (\<lambda>b. row build b @ row probe p)
           (filter (\<lambda>b. pk ! p \<noteq> None \<and> bk ! b = pk ! p) [0..<length bk])) [0..<length pk]))"

lemma enumerate_map: "enumerate 0 xs = map (\<lambda>i. (i, xs ! i)) [0..<length xs]"
  by (rule nth_equalityI) (simp_all add: nth_enumerate_eq)

lemma probe_pairs_spec:
  "probe_pairs (hash_build b c) pk =
     concat (map (\<lambda>p. map (\<lambda>i. (i, p))
       (filter (\<lambda>i. pk ! p \<noteq> None \<and> extract_i64_keys b c ! i = pk ! p) [0..<length (extract_i64_keys b c)])) [0..<length pk])"
proof -
  have "(case x of None \<Rightarrow> []
      | Some k \<Rightarrow> (case hbt_table (hash_build b c) k of None \<Rightarrow> [] | Some b_rows \<Rightarrow> map (\<lambda>b_idx. (b_idx, p)) b_rows)) =
    map (\<lambda>i. (i, p)) (filter (\<lambda>i. x \<noteq> None \<and> extract_i64_keys b c ! i = x) [0..<length (extract_i64_keys b c)])"
    for x and p :: nat
  proof (cases x)
    case (Some k)
    have "(case hbt_table (hash_build b c) k of None \<Rightarrow> [] | Some b_rows \<Rightarrow> map (\<lambda>b_idx. (b_idx, p)) b_rows) =
        map (\<lambda>b_idx. (b_idx, p)) (case hbt_table (hash_build b c) k of None \<Rightarrow> [] | Some is \<Rightarrow> is)"
      by (simp split: option.split)
    then show ?thesis by (simp add: Some hash_build_lookup positions_def)
  qed simp
  then show ?thesis by (simp add: probe_pairs_def enumerate_map comp_def)
qed

lemma hash_probe_rows:
  assumes "take_ok tk" and "chunk_wf build" and "chunk_wf probe"
    and "build \<noteq> []" and "chunk_len build \<le> 2 ^ 32" and "chunk_len probe \<le> 2 ^ 32"
  shows "\<exists>out. hash_probe tk (hash_build build bc) probe pc = Some out \<and> rows out = nested_loop_join build bc probe pc"
proof -
  let ?pairs = "probe_pairs (hash_build build bc) (extract_i64_keys probe pc)"
  let ?bs = "map fst ?pairs" and ?ps = "map snd ?pairs"
  have "list_all (\<lambda>i. i < chunk_len build) ?bs" "list_all (\<lambda>i. i < chunk_len probe) ?ps"
    using length_keys [OF assms(2), of bc] length_keys [OF assms(3), of pc]
    by (auto simp: list_all_iff probe_pairs_spec)
  then have sel: "apply_selection tk build ?bs = Some (map (\<lambda>c. col_take c ?bs) build)"
      "apply_selection tk probe ?ps = Some (map (\<lambda>c. col_take c ?ps) probe)"
    using apply_selection_ok assms by blast+
  let ?out = "map (\<lambda>c. col_take c ?bs) build @ map (\<lambda>c. col_take c ?ps) probe"
  have len: "chunk_len ?out = length ?pairs" using assms(4) by (cases build) (simp_all add: chunk_len_def)
  have "\<forall>c \<in> set ?out. col_len c = length ?pairs" by auto
  then have out: "chunk_new ?out = Some ?out" unfolding chunk_new_def len list_all_iff by (rule if_P)
  have "row ?out j = row build (fst (?pairs ! j)) @ row probe (snd (?pairs ! j))" if "j < length ?pairs" for j
    using that row_take [of j ?bs build] row_take [of j ?ps probe] by (simp add: row_def)
  then have "rows ?out = map (\<lambda>bp. row build (fst bp) @ row probe (snd bp)) ?pairs"
    unfolding rows_def len by (intro nth_equalityI) simp_all
  also have "\<dots> = nested_loop_join build bc probe pc"
    by (simp add: probe_pairs_spec nested_loop_join_def Let_def map_concat comp_def)
  finally show ?thesis using sel out by (simp add: hash_probe_def hash_build_def Let_def)
qed

text \<open>C10. The hash join is a join: on two well-formed batches of at most \<open>2 ^ 32\<close> rows, the build
  side with a column, probing the built
  table never panics and returns exactly the rows of the nested-loop join, in the order of the
  probe rows and, for each, of the build rows; rows with a null key never match.\<close>

theorem hash_join_equals_nested_loop:
  assumes "take_ok tk" and "chunk_wf build" and "chunk_wf probe"
    and "build \<noteq> []" and "chunk_len build \<le> 2 ^ 32" and "chunk_len probe \<le> 2 ^ 32"
  shows "\<exists>out. hash_probe tk (hash_build build bc) probe pc = Some out \<and> rows out = nested_loop_join build bc probe pc"
  using assms by (rule hash_probe_rows)


definition ref_take :: "'v take_kernel" where
  "ref_take c is =
     (if list_all (\<lambda>i. unat i < col_len c) is then Some (col_take c (map unat is)) else None)"

lemma ref_take_ok: "take_ok ref_take"
  by (simp add: take_ok_def ref_take_def)

theorem hash_join_equals_nested_loop_witness:
  "let build = [I64Array [Some 1, None, Some 2, Some 1], OtherArray ''abcd'']; probe = [I64Array [Some 2, Some 1, None]]
   in \<exists>out. hash_probe ref_take (hash_build build 0) probe 0 = Some out \<and> rows out = nested_loop_join build 0 probe 0 \<and>
        length (rows out) = 3"
proof -
  let ?build = "[I64Array [Some 1, None, Some 2, Some 1], OtherArray ''abcd'']"
  let ?probe = "[I64Array [Some 2, Some 1, None]] :: char chunk"
  have "length (nested_loop_join ?build 0 ?probe 0) = 3"
    by (simp add: nested_loop_join_def extract_i64_keys_def Let_def)
  with hash_join_equals_nested_loop [OF ref_take_ok, of ?build ?probe 0 0] show ?thesis
    unfolding Let_def by (auto simp: chunk_wf_def chunk_len_def col_len_def)
qed

section \<open>Sorting\<close>

record sort_spec =
  so_col_idx :: nat
  so_descending :: bool
  so_nulls_first :: bool

definition ord_reverse :: "rust_ordering \<Rightarrow> rust_ordering" where
  "ord_reverse r = (case r of Less \<Rightarrow> Greater | Equal \<Rightarrow> Equal | Greater \<Rightarrow> Less)"

definition i64_cmp :: "i64 \<Rightarrow> i64 \<Rightarrow> rust_ordering" where
  "i64_cmp a b = (if sint a < sint b then Less else if a = b then Equal else Greater)"

definition extract_i64 :: "'v column \<Rightarrow> nat \<Rightarrow> i64 option" where
  "extract_i64 arr r = (case arr of I64Array prim \<Rightarrow> prim ! r | OtherArray _ \<Rightarrow> None)"

definition compare_rows :: "'v chunk \<Rightarrow> sort_spec \<Rightarrow> nat \<Rightarrow> nat \<Rightarrow> rust_ordering" where
  "compare_rows batch sk row_a row_b =
     (if length batch \<le> so_col_idx sk then Equal
      else (let arr = batch ! so_col_idx sk;
                ord = (case (extract_i64 arr row_a, extract_i64 arr row_b) of
                         (None, None) \<Rightarrow> Equal
                       | (None, Some _) \<Rightarrow> if so_nulls_first sk then Less else Greater
                       | (Some _, None) \<Rightarrow> if so_nulls_first sk then Greater else Less
                       | (Some a, Some b) \<Rightarrow> i64_cmp a b)
            in if so_descending sk then ord_reverse ord else ord))"

fun compare_by :: "'v chunk \<Rightarrow> sort_spec list \<Rightarrow> nat \<Rightarrow> nat \<Rightarrow> rust_ordering" where
  "compare_by batch [] a b = Equal"
| "compare_by batch (sk # sks) a b =
     (let ord = compare_rows batch sk a b in if ord \<noteq> Equal then ord else compare_by batch sks a b)"

text \<open>What the standard library documents of \<open>sort_unstable_by\<close> and \<open>select_nth_unstable_by\<close> for
  a comparison that is a total order; the selection panics when the index is out of range.\<close>

type_synonym sorter = "(nat \<Rightarrow> nat \<Rightarrow> rust_ordering) \<Rightarrow> nat list \<Rightarrow> nat list"
type_synonym selector = "nat \<Rightarrow> (nat \<Rightarrow> nat \<Rightarrow> rust_ordering) \<Rightarrow> nat list \<Rightarrow> nat list"

definition total_cmp :: "('a \<Rightarrow> 'a \<Rightarrow> rust_ordering) \<Rightarrow> bool" where
  "total_cmp cmp \<longleftrightarrow>
     (\<forall>a b. cmp b a = ord_reverse (cmp a b)) \<and>
     (\<forall>a b c. cmp a b \<noteq> Greater \<longrightarrow> cmp b c \<noteq> Greater \<longrightarrow> cmp a c \<noteq> Greater)"

definition sorter_ok :: "sorter \<Rightarrow> bool" where
  "sorter_ok srt \<longleftrightarrow>
     (\<forall>cmp xs. total_cmp cmp \<longrightarrow> mset (srt cmp xs) = mset xs \<and> sorted_wrt (\<lambda>a b. cmp a b \<noteq> Greater) (srt cmp xs))"

definition selector_ok :: "selector \<Rightarrow> bool" where
  "selector_ok sel \<longleftrightarrow>
     (\<forall>k cmp xs. total_cmp cmp \<longrightarrow> k < length xs \<longrightarrow>
        mset (sel k cmp xs) = mset xs \<and>
        (\<forall>i < length xs. \<forall>j < length xs. i \<le> k \<longrightarrow> k \<le> j \<longrightarrow> cmp (sel k cmp xs ! i) (sel k cmp xs ! j) \<noteq> Greater))"

definition sort_batch :: "'v take_kernel \<Rightarrow> sorter \<Rightarrow> 'v chunk \<Rightarrow> sort_spec list \<Rightarrow> 'v chunk option" where
  "sort_batch tk srt batch sort_keys =
     apply_selection tk batch (srt (compare_by batch sort_keys) [0..<chunk_len batch])"

definition top_k ::
  "'v take_kernel \<Rightarrow> sorter \<Rightarrow> selector \<Rightarrow> 'v chunk \<Rightarrow> nat \<Rightarrow> sort_spec list \<Rightarrow> 'v chunk option" where
  "top_k tk srt sel batch k sort_keys =
     (if chunk_len batch \<le> k then sort_batch tk srt batch sort_keys
      else if k = 0 then None
      else (let cmp = compare_by batch sort_keys;
                indices = take k (sel (k - 1) cmp [0..<chunk_len batch])
            in apply_selection tk batch (srt cmp indices)))"

text \<open>\<open>concatenate\<close> fails on arrays of different types.\<close>

type_synonym 'v concat_kernel = "'v column list \<Rightarrow> 'v column option"

definition merge_sorted_batches ::
  "'v take_kernel \<Rightarrow> 'v concat_kernel \<Rightarrow> sorter \<Rightarrow> 'v chunk list \<Rightarrow> sort_spec list \<Rightarrow> (unit + 'v chunk) option" where
  "merge_sorted_batches tk cc srt batches sort_keys =
     (case batches of
        [] \<Rightarrow> Some (Inr [])
      | [b] \<Rightarrow> Some (Inr b)
      | b0 # _ \<Rightarrow>
          if list_ex (\<lambda>b. length b < length b0) batches then None
          else (case those (map (\<lambda>c. cc (map (\<lambda>b. b ! c) batches)) [0..<length b0]) of
                  None \<Rightarrow> Some (Inl ())
                | Some arrays \<Rightarrow>
                    (case chunk_new arrays of
                       None \<Rightarrow> None
                     | Some combined \<Rightarrow> map_option Inr (sort_batch tk srt combined sort_keys))))"

subsection \<open>The comparison is a total order\<close>

lemma total_cmpI:
  assumes "\<And>a b. cmp b a = ord_reverse (cmp a b)"
    and "\<And>a b c. cmp a b \<noteq> Greater \<Longrightarrow> cmp b c \<noteq> Greater \<Longrightarrow> cmp a c \<noteq> Greater"
  shows "total_cmp cmp"
  unfolding total_cmp_def using assms by blast

lemma ord_reverse_simps [simp]:
  "ord_reverse r = Greater \<longleftrightarrow> r = Less" "ord_reverse r = Less \<longleftrightarrow> r = Greater" "ord_reverse r = Equal \<longleftrightarrow> r = Equal"
  "ord_reverse (ord_reverse r) = r"
  by (simp_all add: ord_reverse_def split: rust_ordering.split)

text \<open>A comparison through an integer key is total; the null placement and the direction of a
  sort key amount to such a key.\<close>

definition row_rank :: "'v chunk \<Rightarrow> sort_spec \<Rightarrow> nat \<Rightarrow> int" where
  "row_rank batch sk r =
     (if length batch \<le> so_col_idx sk then 0
      else (let v = (case extract_i64 (batch ! so_col_idx sk) r of
                       None \<Rightarrow> if so_nulls_first sk then - (2 ^ 63) - 1 else 2 ^ 63
                     | Some a \<Rightarrow> sint a)
            in if so_descending sk then - v else v))"

lemma sint_i64_range: "- (2 ^ 63) \<le> sint (a :: i64)" "sint (a :: i64) < 2 ^ 63"
  using sint_ge [of a] sint_lt [of a] by simp_all

lemma compare_rows_rank:
  "compare_rows batch sk a b =
     (if row_rank batch sk a < row_rank batch sk b then Less
      else if row_rank batch sk a = row_rank batch sk b then Equal else Greater)"
proof (cases "length batch \<le> so_col_idx sk")
  case True
  then show ?thesis by (simp add: compare_rows_def row_rank_def)
next
  case False
  note r = sint_i64_range
  show ?thesis
    using False r [of "the (extract_i64 (batch ! so_col_idx sk) a)"] r [of "the (extract_i64 (batch ! so_col_idx sk) b)"]
    by (auto simp: compare_rows_def row_rank_def Let_def i64_cmp_def ord_reverse_def
        split: option.splits if_splits dest: signed_word_eqI)
qed

definition key_cmp :: "('a \<Rightarrow> 'b::linorder) \<Rightarrow> 'a \<Rightarrow> 'a \<Rightarrow> rust_ordering" where
  "key_cmp f a b = (if f a < f b then Less else if f a = f b then Equal else Greater)"

lemma key_cmp_total: "total_cmp (key_cmp f)"
  by (rule total_cmpI) (auto simp: key_cmp_def ord_reverse_def split: if_splits)

lemma compare_by_key: "compare_by batch sks = key_cmp (\<lambda>a. map (\<lambda>sk. row_rank batch sk a) sks)"
proof (intro ext)
  show "compare_by batch sks a b = key_cmp (\<lambda>a. map (\<lambda>sk. row_rank batch sk a) sks) a b" for a b
    by (induction sks) (auto simp: compare_rows_rank Let_def key_cmp_def)
qed

lemma compare_by_total: "total_cmp (compare_by batch sks)"
  unfolding compare_by_key by (rule key_cmp_total)

subsection \<open>Sorted batches and top-k\<close>

text \<open>What a list of sort keys asks for, on the values of the key columns: integers ascending, or
  descending, and the nulls in front when either \<open>nulls_first\<close> or \<open>descending\<close> is set but not
  both, since the direction also turns the placement of nulls. The first key that separates two rows
  decides; a key without a column, or on a column that is not \<open>i64\<close>, separates none.\<close>

definition key_val :: "'v chunk \<Rightarrow> sort_spec \<Rightarrow> nat \<Rightarrow> i64 option" where
  "key_val batch sk r =
     (if so_col_idx sk < length batch
      then (case batch ! so_col_idx sk of I64Array vs \<Rightarrow> vs ! r | OtherArray _ \<Rightarrow> None) else None)"

definition key_before :: "sort_spec \<Rightarrow> i64 option \<Rightarrow> i64 option \<Rightarrow> bool" where
  "key_before sk x y =
     (case (x, y) of
        (Some a, Some b) \<Rightarrow> if so_descending sk then sint b < sint a else sint a < sint b
      | (None, Some _) \<Rightarrow> so_nulls_first sk \<noteq> so_descending sk
      | (Some _, None) \<Rightarrow> so_nulls_first sk = so_descending sk
      | (None, None) \<Rightarrow> False)"

fun row_le :: "'v chunk \<Rightarrow> sort_spec list \<Rightarrow> nat \<Rightarrow> nat \<Rightarrow> bool" where
  "row_le batch [] a b \<longleftrightarrow> True"
| "row_le batch (sk # sks) a b \<longleftrightarrow>
     key_before sk (key_val batch sk a) (key_val batch sk b) \<or>
     \<not> key_before sk (key_val batch sk b) (key_val batch sk a) \<and> row_le batch sks a b"

lemma compare_rows_key:
  "compare_rows batch sk a b =
     (if key_before sk (key_val batch sk a) (key_val batch sk b) then Less
      else if key_before sk (key_val batch sk b) (key_val batch sk a) then Greater else Equal)"
  by (auto simp: compare_rows_def key_before_def key_val_def extract_i64_def i64_cmp_def ord_reverse_def Let_def
      split: option.splits column.splits if_splits dest: signed_word_eqI)

lemma row_le_code: "row_le batch sks a b \<longleftrightarrow> compare_by batch sks a b \<noteq> Greater"
  by (induction sks) (auto simp: compare_rows_key Let_def)

lemma sorter_sorts:
  assumes "sorter_ok srt"
  shows "mset (srt (compare_by b sks) xs) = mset xs" "sorted_wrt (row_le b sks) (srt (compare_by b sks) xs)"
  using assms compare_by_total [of b sks] unfolding sorter_ok_def row_le_code by blast+

lemma mset_indices: "mset xs = mset [0..<n] \<Longrightarrow> list_all (\<lambda>i. i < n) xs"
  by (metis atLeastLessThan_iff list_all_iff set_mset_mset set_upt)

lemma take_drop_related:
  assumes R: "\<And>i j. i < length s \<Longrightarrow> j < length s \<Longrightarrow> i \<le> k - 1 \<Longrightarrow> k - 1 \<le> j \<Longrightarrow> R (s ! i) (s ! j)"
    and x: "x \<in> set (take k s)" and y: "y \<in> set (drop k s)"
  shows "R x y"
proof -
  obtain i where i: "i < length (take k s)" "take k s ! i = x" using x by (auto simp: in_set_conv_nth)
  obtain j where j: "j < length (drop k s)" "drop k s ! j = y" using y unfolding in_set_conv_nth by blast
  have "R (s ! i) (s ! (k + j))" using i(1) j(1) by (intro R) auto
  moreover have "s ! i = x" using i by simp
  moreover have "s ! (k + j) = y" using j by simp
  ultimately show ?thesis by simp
qed

text \<open>C30. Sorting and top-k return the right rows: for a positive \<open>k\<close> and a batch of at most \<open>2 ^ 32\<close>
  rows, whatever unstable sort and selection are used, the result of \<open>top_k\<close> is the first \<open>k\<close> rows of
  some arrangement of all the rows in which the values of the first sort key that separates two rows
  ascend, or descend when the key asks for it, with the nulls of a key in front exactly when one of
  \<open>nulls_first\<close> and \<open>descending\<close> is set; with \<open>k\<close> at least the number of rows this is the whole sorted
  batch.\<close>

theorem top_k_first_rows:
  assumes "take_ok tk" and "sorter_ok srt" and "selector_ok sel" and "chunk_wf b" and "b \<noteq> []"
    and "chunk_len b \<le> 2 ^ 32" and "0 < k"
  shows "\<exists>out perm. top_k tk srt sel b k sort_keys = Some out \<and> mset perm = mset [0..<chunk_len b] \<and>
    sorted_wrt (row_le b sort_keys) perm \<and> rows out = map (row b) (take k perm)"
proof -
  let ?n = "chunk_len b" and ?cmp = "compare_by b sort_keys"
  have select: "\<exists>out. apply_selection tk b is = Some out \<and> rows out = map (row b) is"
    if "list_all (\<lambda>i. i < ?n) is" for "is"
    using apply_selection_ok [OF assms(1,4) that assms(6)] rows_take [OF assms(5)] by simp
  show ?thesis
  proof (cases "?n \<le> k")
    case True
    let ?p = "srt ?cmp [0..<?n]"
    have p: "mset ?p = mset [0..<?n]" "sorted_wrt (row_le b sort_keys) ?p" by (rule sorter_sorts [OF assms(2)])+
    have "length ?p = ?n" using p(1) by (metis diff_zero length_upt mset_eq_length)
    then have "take k ?p = ?p" using True by simp
    with select [OF mset_indices [OF p(1)]] p True show ?thesis
      unfolding top_k_def sort_batch_def by (metis (no_types, lifting))
  next
    case False
    let ?s = "sel (k - 1) ?cmp [0..<?n]"
    have "k - 1 < length [0..<?n]" using False by simp
    with assms(3) compare_by_total [of b sort_keys] have s: "mset ?s = mset [0..<?n]"
        "\<And>i j. i < ?n \<Longrightarrow> j < ?n \<Longrightarrow> i \<le> k - 1 \<Longrightarrow> k - 1 \<le> j \<Longrightarrow> row_le b sort_keys (?s ! i) (?s ! j)"
      unfolding selector_ok_def row_le_code by auto
    have len: "length ?s = ?n" using s(1) by (metis diff_zero length_upt mset_eq_length)
    let ?hd = "srt ?cmp (take k ?s)" and ?tl = "srt ?cmp (drop k ?s)"
    have hd: "mset ?hd = mset (take k ?s)" "sorted_wrt (row_le b sort_keys) ?hd"
      and tl: "mset ?tl = mset (drop k ?s)" "sorted_wrt (row_le b sort_keys) ?tl" by (rule sorter_sorts [OF assms(2)])+
    have "mset (?hd @ ?tl) = mset [0..<?n]" using hd(1) tl(1) s(1) by (metis append_take_drop_id mset_append)
    moreover have "row_le b sort_keys x y" if "x \<in> set ?hd" "y \<in> set ?tl" for x y
    proof -
      have "x \<in> set (take k ?s)" "y \<in> set (drop k ?s)" using that hd(1) tl(1) by (metis mset_eq_setD)+
      then show ?thesis by (rule take_drop_related [rotated]) (rule s(2), simp_all only: len)
    qed
    then have "sorted_wrt (row_le b sort_keys) (?hd @ ?tl)" using hd(2) tl(2) by (auto simp: sorted_wrt_append)
    moreover have "length ?hd = k" using hd(1) len False by (metis length_take min.absorb2 mset_eq_length nat_le_linear)
    then have "take k (?hd @ ?tl) = ?hd" by simp
    moreover have "list_all (\<lambda>i. i < ?n) ?hd"
      using mset_indices [of "?hd @ ?tl" ?n] calculation(1) by simp
    ultimately show ?thesis
      using select [of ?hd] False assms(7) by (auto simp: top_k_def Let_def intro!: exI [of _ "?hd @ ?tl"])
  qed
qed

text \<open>Instances of the hypotheses: an insertion sort for both.\<close>

definition isort :: "(nat \<Rightarrow> nat \<Rightarrow> rust_ordering) \<Rightarrow> nat list \<Rightarrow> nat list" where
  "isort cmp xs = foldr (\<lambda>x ys. takeWhile (\<lambda>y. cmp y x = Less) ys @ x # dropWhile (\<lambda>y. cmp y x = Less) ys) xs []"

lemma isort_ok: "sorter_ok isort"
proof -
  have "mset (isort cmp xs) = mset xs \<and> sorted_wrt (\<lambda>a b. cmp a b \<noteq> Greater) (isort cmp xs)"
    if total: "total_cmp cmp" for cmp xs
  proof (induction xs)
    case (Cons x xs)
    let ?le = "\<lambda>a b. cmp a b \<noteq> Greater" and ?ys = "isort cmp xs"
    let ?a = "takeWhile (\<lambda>y. cmp y x = Less) ?ys" and ?b = "dropWhile (\<lambda>y. cmp y x = Less) ?ys"
    have rev: "cmp b a = ord_reverse (cmp a b)" for a b using total unfolding total_cmp_def by blast
    have trans: "?le a b \<Longrightarrow> ?le b c \<Longrightarrow> ?le a c" for a b c using total unfolding total_cmp_def by blast
    have step: "isort cmp (x # xs) = ?a @ x # ?b" by (simp add: isort_def)
    have srt: "sorted_wrt ?le (?a @ ?b)" using Cons.IH by simp
    then have ab: "sorted_wrt ?le ?a" "sorted_wrt ?le ?b" "\<forall>u \<in> set ?a. \<forall>v \<in> set ?b. ?le u v"
      unfolding sorted_wrt_append by blast+
    have a: "\<forall>y \<in> set ?a. ?le y x" by (auto dest: set_takeWhileD)
    have b: "\<forall>y \<in> set ?b. ?le x y"
    proof (cases ?b)
      case (Cons z zs)
      then have "cmp z x \<noteq> Less" using hd_dropWhile [of "\<lambda>y. cmp y x = Less" ?ys] by auto
      then have "?le x z" using rev [of z x] by simp
      with ab(2) Cons trans show ?thesis by auto
    next
      case Nil
      then show ?thesis by (simp only: list.set ball_empty)
    qed
    have "mset (?a @ x # ?b) = add_mset x (mset (?a @ ?b))"
      by (simp only: mset_append mset.simps union_mset_add_mset_right)
    then have "mset (isort cmp (x # xs)) = mset (x # xs)"
      using Cons.IH unfolding step takeWhile_dropWhile_id by simp
    moreover have "sorted_wrt ?le (isort cmp (x # xs))"
      unfolding step sorted_wrt_append sorted_wrt.simps using ab a b by auto
    ultimately show ?case by blast
  qed (simp add: isort_def)
  then show ?thesis by (simp add: sorter_ok_def)
qed

lemma isort_selects: "selector_ok (\<lambda>_. isort)"
proof -
  have "cmp (isort cmp xs ! i) (isort cmp xs ! j) \<noteq> Greater"
    if "total_cmp cmp" "j < length xs" "i \<le> j" for cmp xs i j
  proof (cases "i = j")
    case True
    then show ?thesis using that(1) unfolding total_cmp_def by (metis ord_reverse_simps(1) rust_ordering.distinct(3))
  next
    case False
    have "sorted_wrt (\<lambda>a b. cmp a b \<noteq> Greater) (isort cmp xs)" "length (isort cmp xs) = length xs"
      using isort_ok that(1) unfolding sorter_ok_def by (metis mset_eq_length)+
    then show ?thesis using that False by (simp add: sorted_wrt_iff_nth_less)
  qed
  moreover have "mset (isort cmp xs) = mset xs" if "total_cmp cmp" for cmp xs
    using isort_ok that unfolding sorter_ok_def by blast
  ultimately show ?thesis unfolding selector_ok_def by (metis le_trans)
qed

theorem top_k_first_rows_witness:
  "let b = [I64Array [Some 3, None, Some 1], OtherArray ''xyz'']; keys = [\<lparr>so_col_idx = 0, so_descending = False, so_nulls_first = True\<rparr>]
   in \<exists>out perm. top_k ref_take isort (\<lambda>_. isort) b 2 keys = Some out \<and> mset perm = mset [0..<chunk_len b] \<and>
        sorted_wrt (row_le b keys) perm \<and> rows out = map (row b) (take 2 perm)"
  unfolding Let_def
  by (rule top_k_first_rows [OF ref_take_ok isort_ok isort_selects])
     (simp_all add: chunk_wf_def chunk_len_def col_len_def)

text \<open>A request for no rows on a non-empty batch panics: the index \<open>k - 1\<close> wraps around.\<close>

lemma top_k_zero_panics: "0 < chunk_len b \<Longrightarrow> top_k tk srt sel b 0 sort_keys = None"
  by (simp add: top_k_def)

end
