(* ===== verification/Sessions.thy ===== *)
theory Sessions
  imports Vectorized
begin

text \<open>
  Sessionisation (\<open>compute-node/src/analytics/sessionize.rs\<close>): events are grouped by user, each
  group is sorted by time and cut where the gap between neighbours exceeds the timeout. Times
  are \<open>i64\<close> seconds whose difference wraps; the random session ids come from an argument that
  gives the \<open>n\<close>-th id drawn, and the iteration order of the grouping map is an argument.
\<close>

record event_row =
  er_user_key :: string
  er_event_time :: i64
  er_event_name :: string
  er_extra :: "string \<rightharpoonup> string"

record session_row =
  ss_session_id :: string
  ss_user_key :: string
  ss_session_start :: i64
  ss_session_end :: i64
  ss_event_count :: u32
  ss_event_sequence :: "string list"
  ss_duration_secs :: i64

definition session_new :: "string \<Rightarrow> string \<Rightarrow> i64 \<Rightarrow> string \<Rightarrow> session_row" where
  "session_new uuid user_key first_event_time first_event_name =
     \<lparr>ss_session_id = uuid, ss_user_key = user_key, ss_session_start = first_event_time,
      ss_session_end = first_event_time, ss_event_count = 1, ss_event_sequence = [first_event_name],
      ss_duration_secs = 0\<rparr>"

definition add_event :: "i64 \<Rightarrow> string \<Rightarrow> session_row \<Rightarrow> session_row" where
  "add_event event_time event_name s =
     s\<lparr>ss_session_end := event_time, ss_event_count := ss_event_count s + 1,
       ss_event_sequence := ss_event_sequence s @ [event_name],
       ss_duration_secs := event_time - ss_session_start s\<rparr>"

text \<open>The loop of \<open>build_sessions\<close>; \<open>n\<close> ids have been drawn so far.\<close>

fun build_loop ::
  "(nat \<Rightarrow> string) \<Rightarrow> i64 \<Rightarrow> string \<Rightarrow> nat \<Rightarrow> session_row \<Rightarrow> event_row list \<Rightarrow> session_row list \<times> nat" where
  "build_loop ids timeout user_key n current [] = ([current], n)"
| "build_loop ids timeout user_key n current (ev # evs) =
     (let gap = er_event_time ev - ss_session_end current
      in if sint timeout < sint gap
         then (let (ss, n') = build_loop ids timeout user_key (Suc n)
                     (session_new (ids n) user_key (er_event_time ev) (er_event_name ev)) evs
               in (current # ss, n'))
         else build_loop ids timeout user_key n (add_event (er_event_time ev) (er_event_name ev) current) evs)"

definition build_sessions ::
  "(nat \<Rightarrow> string) \<Rightarrow> i64 \<Rightarrow> string \<Rightarrow> event_row list \<Rightarrow> nat \<Rightarrow> session_row list \<times> nat" where
  "build_sessions ids timeout user_key events n =
     (case events of
        [] \<Rightarrow> ([], n)
      | ev # evs \<Rightarrow>
          build_loop ids timeout user_key (Suc n) (session_new (ids n) user_key (er_event_time ev) (er_event_name ev)) evs)"

fun sessionize_users ::
  "(nat \<Rightarrow> string) \<Rightarrow> i64 \<Rightarrow> nat \<Rightarrow> (string \<times> event_row list) list \<Rightarrow> session_row list" where
  "sessionize_users ids timeout n [] = []"
| "sessionize_users ids timeout n ((user_key, user_events) # rest) =
     (let (ss, n') = build_sessions ids timeout user_key (sort_key (\<lambda>e. sint (er_event_time e)) user_events) n
      in ss @ sessionize_users ids timeout n' rest)"

definition sessionizer_new :: "u64 \<Rightarrow> i64" where
  "sessionizer_new session_timeout_secs = session_timeout_secs"

definition sessionize ::
  "(nat \<Rightarrow> string) \<Rightarrow> (string, event_row list) hash_order \<Rightarrow> i64 \<Rightarrow> event_row list \<Rightarrow> session_row list" where
  "sessionize ids ord timeout events =
     sessionize_users ids timeout 0 (hm_entries ord (group_by_key er_user_key events))"

record sessionize_stats =
  st_input_events :: u64
  st_output_sessions :: u64
  st_unique_users :: u64
  st_avg_events_per_session :: f64

definition sessionize_stats_compute :: "event_row list \<Rightarrow> session_row list \<Rightarrow> sessionize_stats" where
  "sessionize_stats_compute input output =
     (let total_events = sum_list (map (\<lambda>s. ucast (ss_event_count s) :: u64) output);
          n = of_nat (length output) :: u64
      in \<lparr>st_input_events = of_nat (length input), st_output_sessions = n,
          st_unique_users = of_nat (length (remdups (map er_user_key input))),
          st_avg_events_per_session = (if 0 < n then f64_div (unat total_events) (unat n) else Fin 0)\<rparr>)"

section \<open>Sessions as maximal runs\<close>

text \<open>The reference: cut a list of events at every gap that exceeds the timeout.\<close>

definition long_gap :: "i64 \<Rightarrow> event_row \<Rightarrow> event_row \<Rightarrow> bool" where
  "long_gap timeout a b \<longleftrightarrow> sint timeout < sint (er_event_time b - er_event_time a)"

fun cut_gaps :: "i64 \<Rightarrow> event_row list \<Rightarrow> event_row list list" where
  "cut_gaps timeout [] = []"
| "cut_gaps timeout [e] = [[e]]"
| "cut_gaps timeout (e # e' # es) =
     (if long_gap timeout e e' then [e] # cut_gaps timeout (e' # es)
      else (case cut_gaps timeout (e' # es) of [] \<Rightarrow> [[e]] | g # gs \<Rightarrow> (e # g) # gs))"

text \<open>Nothing is lost or reordered, no run is empty, runs have only short gaps inside and the
  gap between a run and the next is long.\<close>

lemma cut_gaps_runs:
  "concat (cut_gaps timeout es) = es \<and> [] \<notin> set (cut_gaps timeout es) \<and>
   (\<forall>g \<in> set (cut_gaps timeout es). successively (\<lambda>a b. \<not> long_gap timeout a b) g) \<and>
   successively (\<lambda>g h. long_gap timeout (last g) (hd h)) (cut_gaps timeout es)"
proof (induction timeout es rule: cut_gaps.induct)
  case (3 timeout e e' es)
  obtain g gs where g: "cut_gaps timeout (e' # es) = g # gs"
    by (cases "cut_gaps timeout (e' # es)") (use 3 in \<open>auto split: if_splits\<close>)
  let ?P = "concat (g # gs) = e' # es \<and> [] \<notin> set (g # gs) \<and>
      (\<forall>h \<in> set (g # gs). successively (\<lambda>a b. \<not> long_gap timeout a b) h) \<and>
      successively (\<lambda>g h. long_gap timeout (last g) (hd h)) (g # gs)"
  have P: ?P using 3 g by (cases "long_gap timeout e e'") simp_all
  then have hd: "hd g = e'" "g \<noteq> []" by (cases g; auto)+
  show ?case
  proof (cases "long_gap timeout e e'")
    case True
    with P hd g show ?thesis by simp
  next
    case False
    have "successively (\<lambda>a b. \<not> long_gap timeout a b) (e # g)"
      using P hd False by (cases g) auto
    moreover have "successively (\<lambda>g h. long_gap timeout (last g) (hd h)) ((e # g) # gs)"
      using P hd by (cases gs) auto
    ultimately show ?thesis using P g False by simp
  qed
qed simp_all

text \<open>What the code reports for a run.\<close>

definition session_of :: "string \<Rightarrow> event_row list \<Rightarrow> session_row" where
  "session_of user_key g =
     \<lparr>ss_session_id = [], ss_user_key = user_key, ss_session_start = er_event_time (hd g),
      ss_session_end = er_event_time (last g), ss_event_count = of_nat (length g),
      ss_event_sequence = map er_event_name g, ss_duration_secs = er_event_time (last g) - er_event_time (hd g)\<rparr>"

definition forget_id :: "session_row \<Rightarrow> session_row" where
  "forget_id s = s\<lparr>ss_session_id := []\<rparr>"

lemma session_of_new: "forget_id (session_new uuid u (er_event_time e) (er_event_name e)) = session_of u [e]"
  by (simp add: forget_id_def session_new_def session_of_def)

lemma session_of_add:
  "g \<noteq> [] \<Longrightarrow> forget_id s = session_of u g \<Longrightarrow>
   forget_id (add_event (er_event_time e) (er_event_name e) s) = session_of u (g @ [e])"
  by (cases s) (simp add: forget_id_def add_event_def session_of_def)

text \<open>Cutting behind an open run \<open>g\<close>.\<close>

lemma cut_gaps_append:
  "g \<noteq> [] \<Longrightarrow> successively (\<lambda>a b. \<not> long_gap timeout a b) g \<Longrightarrow>
   cut_gaps timeout (g @ e # es) =
     (if long_gap timeout (last g) e then g # cut_gaps timeout (e # es)
      else (case cut_gaps timeout (e # es) of [] \<Rightarrow> [g] | h # hs \<Rightarrow> (g @ h) # hs))"
proof (induction g rule: list_nonempty_induct)
  case (cons x g)
  then obtain y ys where g: "g = y # ys" by (cases g) auto
  have "\<not> long_gap timeout x y" using cons.prems g by simp
  with cons g show ?case by (auto split: list.split)
qed (auto split: list.split)

lemma cut_gaps_whole:
  "g \<noteq> [] \<Longrightarrow> successively (\<lambda>a b. \<not> long_gap timeout a b) g \<Longrightarrow> cut_gaps timeout g = [g]"
proof (induction g rule: list_nonempty_induct)
  case (cons x g)
  then obtain y ys where "g = y # ys" by (cases g) auto
  with cons show ?case by simp
qed simp

lemma build_loop_cut:
  assumes "g \<noteq> []" "successively (\<lambda>a b. \<not> long_gap timeout a b) g" "forget_id s = session_of u g"
  shows "map forget_id (fst (build_loop ids timeout u n s es)) = map (session_of u) (cut_gaps timeout (g @ es))"
  using assms
proof (induction es arbitrary: g s n)
  case Nil
  then show ?case by (simp add: cut_gaps_whole)
next
  case (Cons e es)
  have last: "ss_session_end s = er_event_time (last g)"
    using Cons.prems(3) by (cases s) (simp add: forget_id_def session_of_def)
  show ?case
  proof (cases "long_gap timeout (last g) e")
    case True
    have "map forget_id (fst (build_loop ids timeout u (Suc n) (session_new (ids n) u (er_event_time e) (er_event_name e)) es)) =
        map (session_of u) (cut_gaps timeout ([e] @ es))"
      by (rule Cons.IH) (simp_all add: session_of_new)
    with True last Cons.prems show ?thesis
      by (simp add: long_gap_def [symmetric] cut_gaps_append Let_def split_beta)
  next
    case False
    have "successively (\<lambda>a b. \<not> long_gap timeout a b) (g @ [e])"
      using Cons.prems(1,2) False by (simp add: successively_append_iff)
    from Cons.IH [OF _ this session_of_add [OF Cons.prems(1,3)]] False last show ?thesis
      by (simp add: long_gap_def Let_def)
  qed
qed

lemma build_sessions_cut:
  "map forget_id (fst (build_sessions ids timeout u es n)) = map (session_of u) (cut_gaps timeout es)"
proof (cases es)
  case (Cons e es')
  then show ?thesis
    using build_loop_cut [of "[e]" timeout _ u ids "Suc n" es'] by (simp add: build_sessions_def session_of_new)
qed (simp add: build_sessions_def)

lemma build_sessions_user: "s \<in> set (fst (build_sessions ids timeout u es n)) \<Longrightarrow> ss_user_key s = u"
proof -
  assume "s \<in> set (fst (build_sessions ids timeout u es n))"
  then have "forget_id s \<in> set (map (session_of u) (cut_gaps timeout es))"
    unfolding build_sessions_cut [of ids timeout u es n, symmetric] by simp
  then obtain g where "forget_id s = session_of u g" by auto
  then show ?thesis by (cases s) (simp add: session_of_def forget_id_def)
qed

lemma sessionize_users_filter:
  "distinct (map fst xs) \<Longrightarrow>
   map forget_id (filter (\<lambda>s. ss_user_key s = u) (sessionize_users ids timeout n xs)) =
   (case map_of xs u of
      None \<Rightarrow> []
    | Some es \<Rightarrow> map (session_of u) (cut_gaps timeout (sort_key (\<lambda>e. sint (er_event_time e)) es)))"
proof (induction xs arbitrary: n)
  case (Cons x xs)
  obtain v es where x: "x = (v, es)" by force
  let ?b = "build_sessions ids timeout v (sort_key (\<lambda>e. sint (er_event_time e)) es) n"
  have "filter (\<lambda>s. ss_user_key s = u) (fst ?b) = (if v = u then fst ?b else [])"
    using build_sessions_user [of _ ids timeout v "sort_key (\<lambda>e. sint (er_event_time e)) es" n]
    by (auto simp: filter_empty_conv filter_id_conv)
  moreover have "map_of xs u = None" if "v = u" using Cons.prems x that by (auto simp: map_of_eq_None_iff)
  ultimately show ?case
    using Cons build_sessions_cut [of ids timeout v "sort_key (\<lambda>e. sint (er_event_time e)) es" n]
    by (auto simp: x Let_def split_beta)
qed simp

text \<open>C11. Sessionisation is exact: for every user, the sessions reported are, apart from their
  random ids, exactly the maximal runs of that user's events in time order whose neighbouring gaps
  do not exceed the timeout, with the right bounds, counts and event sequences.\<close>

theorem sessionize_maximal_runs:
  assumes "hash_order_ok ord"
  shows "map forget_id (filter (\<lambda>s. ss_user_key s = u) (sessionize ids ord timeout events)) =
    map (session_of u) (cut_gaps timeout (sort_key (\<lambda>e. sint (er_event_time e)) (filter (\<lambda>e. er_user_key e = u) events)))"
proof -
  let ?m = "group_by_key er_user_key events"
  have fin: "finite (dom ?m)" by (simp add: dom_group_by_key)
  have "map_of (hm_entries ord ?m) u = ?m u" by (simp add: map_of_hm_entries [OF assms fin])
  with sessionize_users_filter [OF distinct_hm_entries [OF assms fin], of u ids timeout 0] show ?thesis
    by (simp add: sessionize_def group_by_key_lookup split: if_splits)
qed

theorem sessionize_maximal_runs_witness:
  "let ev = (\<lambda>u t n. \<lparr>er_user_key = u, er_event_time = t, er_event_name = n, er_extra = Map.empty\<rparr>);
       events = [ev ''a'' 100 ''x'', ev ''b'' 5 ''y'', ev ''a'' 10 ''w'', ev ''a'' 130 ''z'']
   in map forget_id (filter (\<lambda>s. ss_user_key s = ''a'') (sessionize (\<lambda>_. ''id'') sorted_order 60 events)) =
      [session_of ''a'' [ev ''a'' 10 ''w''], session_of ''a'' [ev ''a'' 100 ''x'', ev ''a'' 130 ''z'']]"
  unfolding Let_def sessionize_maximal_runs [OF sorted_order_ok]
  by (simp add: long_gap_def)

end
