(* ===== verification/Funnel.thy ===== *)
theory Funnel
  imports Vectorized
begin

text \<open>
  Funnel counting (\<open>compute-node/src/executor/analytics/funnel.rs\<close>): per user a bit mask of the
  steps reached and the time each was reached last. A shift by a step number beyond 63 wraps
  around, as in the release profile. The iteration order of the hash map of users is an
  argument where the code walks over it.
\<close>

record funnel_step =
  fs_event_name :: string
  fs_filter :: "string option"

record funnel_def =
  fd_steps :: "funnel_step list"
  fd_window_sec :: i64

record event_record =
  ev_user_key :: bytes
  ev_event_name :: string
  ev_event_time :: i64

record user_funnel_state =
  uf_achieved :: u64
  uf_last_times :: "i64 option list"

record funnel_executor =
  fe_funnel :: funnel_def
  fe_states :: "bytes \<rightharpoonup> user_funnel_state"

definition funnel_new :: "funnel_def \<Rightarrow> funnel_executor" where
  "funnel_new funnel = \<lparr>fe_funnel = funnel, fe_states = Map.empty\<rparr>"

definition step_bit :: "nat \<Rightarrow> u64" where
  "step_bit i = push_bit (i mod 64) 1"

definition user_state_init :: "funnel_def \<Rightarrow> user_funnel_state" where
  "user_state_init funnel = \<lparr>uf_achieved = 0, uf_last_times = replicate (length (fd_steps funnel)) None\<rparr>"

definition reach_step :: "nat \<Rightarrow> i64 \<Rightarrow> user_funnel_state \<Rightarrow> user_funnel_state" where
  "reach_step i t st = st\<lparr>uf_achieved := uf_achieved st OR step_bit i, uf_last_times := (uf_last_times st)[i := Some t]\<rparr>"

definition apply_step :: "i64 \<Rightarrow> event_record \<Rightarrow> nat \<times> funnel_step \<Rightarrow> user_funnel_state \<Rightarrow> user_funnel_state" where
  "apply_step window ev istep st =
     (let (step_idx, step) = istep
      in if ev_event_name ev \<noteq> fs_event_name step then st
         else if step_idx = 0 then reach_step 0 (ev_event_time ev) st
         else if uf_achieved st AND step_bit (step_idx - 1) \<noteq> 0
         then (let prev_time = (case uf_last_times st ! (step_idx - 1) of None \<Rightarrow> i64_MIN | Some t \<Rightarrow> t);
                   elapsed = ev_event_time ev - prev_time
               in if 0 \<le> sint elapsed \<and> sint elapsed \<le> sint window then reach_step step_idx (ev_event_time ev) st else st)
         else st)"

definition funnel_apply_event :: "funnel_def \<Rightarrow> event_record \<Rightarrow> user_funnel_state \<Rightarrow> user_funnel_state" where
  "funnel_apply_event funnel ev st = fold (apply_step (fd_window_sec funnel) ev) (enumerate 0 (fd_steps funnel)) st"

definition process_event :: "event_record \<Rightarrow> funnel_executor \<Rightarrow> funnel_executor" where
  "process_event ev fe =
     (let st = (case fe_states fe (ev_user_key ev) of None \<Rightarrow> user_state_init (fe_funnel fe) | Some st \<Rightarrow> st)
      in fe\<lparr>fe_states := (fe_states fe)(ev_user_key ev \<mapsto> funnel_apply_event (fe_funnel fe) ev st)\<rparr>)"

definition process_events :: "event_record list \<Rightarrow> funnel_executor \<Rightarrow> funnel_executor" where
  "process_events events fe = fold process_event events fe"

definition step_counts :: "(bytes, user_funnel_state) hash_order \<Rightarrow> funnel_executor \<Rightarrow> u64 list" where
  "step_counts ord fe =
     map (\<lambda>step. of_nat (length (filter (\<lambda>e. uf_achieved (snd e) AND step_bit step \<noteq> 0) (hm_entries ord (fe_states fe)))))
       [0..<length (fd_steps (fe_funnel fe))]"

definition conversion_rates :: "(bytes, user_funnel_state) hash_order \<Rightarrow> funnel_executor \<Rightarrow> f64 list" where
  "conversion_rates ord fe =
     (let counts = step_counts ord fe;
          base = (case counts of [] \<Rightarrow> 0 | c # _ \<Rightarrow> unat c)
      in if base = 0 then replicate (length counts) (Fin 0) else map (\<lambda>c. f64_div (unat c) base) counts)"

definition earlier :: "i64 option \<Rightarrow> i64 option \<Rightarrow> i64 option" where
  "earlier existing t =
     (case t of
        None \<Rightarrow> existing
      | Some ot \<Rightarrow> Some (case existing of None \<Rightarrow> ot | Some e \<Rightarrow> i64_min e ot))"

text \<open>Merging the state of one user; the code panics when the other state has a time for a step
  this executor does not have.\<close>

definition merge_state :: "user_funnel_state \<Rightarrow> user_funnel_state \<Rightarrow> user_funnel_state option" where
  "merge_state st other =
     (let n = length (uf_last_times st); m = length (uf_last_times other)
      in if list_ex (\<lambda>i. n \<le> i \<and> uf_last_times other ! i \<noteq> None) [0..<m] then None
         else Some \<lparr>uf_achieved = uf_achieved st OR uf_achieved other,
                    uf_last_times = map (\<lambda>i. if i < m then earlier (uf_last_times st ! i) (uf_last_times other ! i)
                                             else uf_last_times st ! i) [0..<n]\<rparr>)"

fun merge_users :: "funnel_def \<Rightarrow> (bytes \<times> user_funnel_state) list \<Rightarrow> (bytes \<rightharpoonup> user_funnel_state) \<Rightarrow>
   (bytes \<rightharpoonup> user_funnel_state) option" where
  "merge_users funnel [] m = Some m"
| "merge_users funnel ((user_key, other) # rest) m =
     (case merge_state (case m user_key of None \<Rightarrow> user_state_init funnel | Some st \<Rightarrow> st) other of
        None \<Rightarrow> None
      | Some st \<Rightarrow> merge_users funnel rest (m(user_key \<mapsto> st)))"

definition funnel_merge ::
  "(bytes, user_funnel_state) hash_order \<Rightarrow> funnel_executor \<Rightarrow> funnel_executor \<Rightarrow> funnel_executor option" where
  "funnel_merge ord fe other =
     map_option (\<lambda>m. fe\<lparr>fe_states := m\<rparr>) (merge_users (fe_funnel fe) (hm_entries ord (fe_states other)) (fe_states fe))"

section \<open>One user at a time\<close>

lemma fe_funnel_process [simp]: "fe_funnel (process_event ev fe) = fe_funnel fe" "fe_funnel (process_events evs fe) = fe_funnel fe"
proof -
  show 1: "fe_funnel (process_event ev fe) = fe_funnel fe" for ev fe by (simp add: process_event_def Let_def)
  show "fe_funnel (process_events evs fe) = fe_funnel fe"
    unfolding process_events_def by (induction evs arbitrary: fe) (simp_all add: 1)
qed

text \<open>The state of a user depends on that user's events only.\<close>

lemma process_events_user:
  "fe_states (process_events evs fe) k =
     (let es = filter (\<lambda>e. ev_user_key e = k) evs
      in if es = [] then fe_states fe k
         else Some (fold (funnel_apply_event (fe_funnel fe)) es
                (case fe_states fe k of None \<Rightarrow> user_state_init (fe_funnel fe) | Some st \<Rightarrow> st)))"
proof (induction evs arbitrary: fe)
  case Nil
  then show ?case by (simp add: process_events_def)
next
  case (Cons ev evs)
  have step: "process_events (ev # evs) fe = process_events evs (process_event ev fe)"
    by (simp add: process_events_def)
  have at: "fe_states (process_event ev fe) k =
      (if ev_user_key ev = k
       then Some (funnel_apply_event (fe_funnel fe) ev (case fe_states fe k of None \<Rightarrow> user_state_init (fe_funnel fe) | Some st \<Rightarrow> st))
       else fe_states fe k)"
    by (simp add: process_event_def Let_def)
  show ?case unfolding step Cons.IH at fe_funnel_process Let_def by simp
qed

lemma finite_process: "finite (dom (fe_states fe)) \<Longrightarrow> finite (dom (fe_states (process_events evs fe)))"
  unfolding process_events_def
  by (induction evs arbitrary: fe) (simp_all add: process_event_def Let_def)

section \<open>Later steps imply earlier ones\<close>

lemma step_bit_iff: "(w :: u64) AND step_bit i \<noteq> 0 \<longleftrightarrow> bit w (i mod 64)"
  by (simp add: step_bit_def and_exp_eq_0_iff_not_bit push_bit_of_1)

lemma bit_step_bit: "bit (step_bit i) j \<longleftrightarrow> j = i mod 64"
  by (auto simp: step_bit_def bit_simps)

definition closed_below :: "nat \<Rightarrow> user_funnel_state \<Rightarrow> bool" where
  "closed_below n st \<longleftrightarrow>
     length (uf_last_times st) = n \<and> (\<forall>i. Suc i < n \<longrightarrow> bit (uf_achieved st) (Suc i) \<longrightarrow> bit (uf_achieved st) i)"

lemma closed_reach:
  assumes "closed_below n st" "n \<le> 64" "i < n" "i = 0 \<or> bit (uf_achieved st) (i - 1)"
  shows "closed_below n (reach_step i t st)"
  using assms by (auto simp: closed_below_def reach_step_def bit_or_iff bit_step_bit)

lemma closed_apply_step:
  assumes "closed_below n st" "n \<le> 64" "i < n"
  shows "closed_below n (apply_step window ev (i, step) st)"
proof -
  have "(i - 1) mod 64 = i - 1" using assms by simp
  with closed_reach [OF assms] closed_reach [OF assms(1,2), of 0] assms show ?thesis
    by (auto simp: apply_step_def step_bit_iff Let_def split: option.splits)
qed

lemma closed_funnel_apply_event:
  assumes "closed_below (length (fd_steps funnel)) st" "length (fd_steps funnel) \<le> 64"
  shows "closed_below (length (fd_steps funnel)) (funnel_apply_event funnel ev st)"
proof -
  have "closed_below n (fold (apply_step w ev) xs st)"
    if "closed_below n st" "n \<le> 64" "\<forall>x \<in> set xs. fst x < n" for n w xs st
    using that
  proof (induction xs arbitrary: st)
    case (Cons x xs)
    then have "closed_below n (apply_step w ev x st)" by (cases x) (simp add: closed_apply_step)
    with Cons show ?case by simp
  qed simp
  moreover have "\<forall>x \<in> set (enumerate 0 (fd_steps funnel)). fst x < length (fd_steps funnel)"
    by (auto simp: in_set_enumerate_eq)
  ultimately show ?thesis using assms by (simp add: funnel_apply_event_def)
qed

lemma closed_init: "closed_below (length (fd_steps funnel)) (user_state_init funnel)"
  by (simp add: closed_below_def user_state_init_def)

lemma closed_states:
  assumes "length (fd_steps funnel) \<le> 64" "fe_states (process_events evs (funnel_new funnel)) k = Some st"
  shows "closed_below (length (fd_steps funnel)) st"
proof -
  have "closed_below (length (fd_steps funnel)) (fold (funnel_apply_event funnel) es st)"
    if "closed_below (length (fd_steps funnel)) st" for es st
    using that assms(1) by (induction es arbitrary: st) (simp_all add: closed_funnel_apply_event)
  from this [OF closed_init] assms(2) show ?thesis
    by (auto simp: process_events_user funnel_new_def Let_def split: if_splits)
qed

lemma f64_div_unit: "a \<le> b \<Longrightarrow> 0 < b \<Longrightarrow> \<exists>x. f64_div a b = Fin x \<and> 0 \<le> x \<and> x \<le> 1"
  by (simp add: f64_div_def)

text \<open>C31. Funnel counts never increase along the funnel: for a funnel of at most 64 steps, after any
  events, fewer than 2^64, no step has more users than the step before it, and every conversion rate lies between
  0 and 1.\<close>

theorem funnel_counts_decrease:
  assumes "hash_order_ok ord" and "length (fd_steps funnel) \<le> 64" and "length events < 2 ^ 64"
  shows "let fe = process_events events (funnel_new funnel); counts = map unat (step_counts ord fe)
    in sorted_wrt (\<ge>) counts \<and> list_all (\<lambda>r. \<exists>x. r = Fin x \<and> 0 \<le> x \<and> x \<le> 1) (conversion_rates ord fe)"
proof -
  let ?fe = "process_events events (funnel_new funnel)"
  let ?n = "length (fd_steps funnel)" and ?es = "hm_entries ord (fe_states ?fe)"
  let ?c = "\<lambda>s. length (filter (\<lambda>e. uf_achieved (snd e) AND step_bit s \<noteq> 0) ?es)"
  have fin: "finite (dom (fe_states ?fe))" by (rule finite_process) (simp add: funnel_new_def)
  have "dom (fe_states ?fe) \<subseteq> ev_user_key ` set events"
    by (auto simp: process_events_user funnel_new_def Let_def filter_empty_conv split: if_splits)
  then have "card (dom (fe_states ?fe)) \<le> card (ev_user_key ` set events)" by (rule card_mono [rotated]) simp
  also have "\<dots> \<le> length events" by (metis card_length length_map set_map)
  finally have "length ?es \<le> length events"
    using assms(1) fin by (simp add: hm_entries_def hash_order_ok_def) (metis distinct_card)
  then have small: "?c s < 2 ^ 64" for s
    using assms(3) length_filter_le [of "\<lambda>e. uf_achieved (snd e) AND step_bit s \<noteq> 0" ?es] by linarith
  have mono: "?c (Suc s) \<le> ?c s" if "Suc s < ?n" for s
  proof -
    have "uf_achieved (snd e) AND step_bit s \<noteq> 0"
      if e: "e \<in> set ?es" and b: "uf_achieved (snd e) AND step_bit (Suc s) \<noteq> 0" for e
    proof -
      have "fe_states ?fe (fst e) = Some (snd e)"
        using set_hm_entries [OF assms(1) fin, of "fst e" "snd e"] e by simp
      from closed_states [OF assms(2) this] b \<open>Suc s < ?n\<close> assms(2) show ?thesis
        by (simp add: closed_below_def step_bit_iff)
    qed
    then show ?thesis by (rule length_filter_mono)
  qed
  have counts: "map unat (step_counts ord ?fe) = map ?c [0..<?n]"
    using small by (simp add: step_counts_def funnel_new_def unat_of_nat)
  have le: "?c j \<le> ?c i" if "i \<le> j" "j < ?n" for i j
    using that by (induction j) (auto simp: le_Suc_eq intro: order_trans [OF mono])
  have srt: "sorted_wrt (\<ge>) (map ?c [0..<?n])"
    using le by (auto simp: sorted_wrt_iff_nth_less)
  have rates: "list_all (\<lambda>r. \<exists>x. r = Fin x \<and> 0 \<le> x \<and> x \<le> 1) (conversion_rates ord ?fe)"
  proof (cases "step_counts ord ?fe")
    case (Cons c cs)
    have "unat d \<le> unat c" if "d \<in> set (step_counts ord ?fe)" for d
      using srt that unfolding counts [symmetric] Cons by auto
    then show ?thesis
      using f64_div_unit [of _ "unat c"] by (auto simp: conversion_rates_def Let_def Cons list_all_iff)
  qed (simp add: conversion_rates_def Let_def)
  show ?thesis unfolding Let_def counts using srt rates by blast
qed

section \<open>Parallel executors\<close>

lemma merge_into_fresh:
  assumes "length (uf_last_times other) = length (fd_steps funnel)"
  shows "merge_state (user_state_init funnel) other = Some other"
proof -
  let ?n = "length (fd_steps funnel)" and ?xs = "uf_last_times other"
  have "map (\<lambda>i. if i < length ?xs then earlier (replicate ?n None ! i) (?xs ! i) else replicate ?n None ! i) [0..<?n] = ?xs"
    using assms by (intro nth_equalityI) (auto simp: earlier_def split: option.split)
  then show ?thesis
    using assms by (cases other) (simp add: merge_state_def user_state_init_def Let_def list_ex_iff)
qed

lemma merge_users_disjoint:
  assumes "distinct (map fst xs)" "\<forall>x \<in> set xs. m (fst x) = None \<and> length (uf_last_times (snd x)) = length (fd_steps funnel)"
  shows "merge_users funnel xs m = Some (m ++ map_of xs)"
  using assms
proof (induction xs arbitrary: m)
  case (Cons x xs)
  obtain k st where x: "x = (k, st)" by force
  have "merge_users funnel xs (m(k \<mapsto> st)) = Some (m(k \<mapsto> st) ++ map_of xs)"
    using Cons.prems by (intro Cons.IH) (auto simp: x)
  moreover have "map_of xs k = None" using Cons.prems(1) by (simp add: x map_of_eq_None_iff)
  then have "m(k \<mapsto> st) ++ map_of xs = m ++ map_of (x # xs)"
    by (auto simp: x map_add_def fun_eq_iff split: option.split)
  moreover have "merge_users funnel (x # xs) m = merge_users funnel xs (m(k \<mapsto> st))"
    using Cons.prems(2) by (simp add: x merge_into_fresh)
  ultimately show ?case by (simp only:)
qed simp

text \<open>C12. Parallel funnel execution is exact when users are not split: for a funnel of at most 64
  steps, if no user occurs in both event lists, merging the executors that processed them separately gives exactly the states of
  one executor that processed both lists.\<close>

theorem funnel_merge_equals_sequential:
  assumes "hash_order_ok ord" and "length (fd_steps funnel) \<le> 64"
    and "set (map ev_user_key as) \<inter> set (map ev_user_key bs) = {}"
  shows "funnel_merge ord (process_events as (funnel_new funnel)) (process_events bs (funnel_new funnel)) =
    Some (process_events (as @ bs) (funnel_new funnel))"
proof -
  let ?a = "process_events as (funnel_new funnel)" and ?b = "process_events bs (funnel_new funnel)"
    and ?ab = "process_events (as @ bs) (funnel_new funnel)"
  have fin: "finite (dom (fe_states ?b))" by (rule finite_process) (simp add: funnel_new_def)
  have funnel: "fe_funnel ?a = funnel" by (simp add: funnel_new_def)
  have sep: "filter (\<lambda>e. ev_user_key e = k) as = [] \<or> filter (\<lambda>e. ev_user_key e = k) bs = []" for k
    using assms(3) by (auto simp: filter_empty_conv)
  have ent: "fe_states ?b (fst x) = Some (snd x)" if "x \<in> set (hm_entries ord (fe_states ?b))" for x
    using set_hm_entries [OF assms(1) fin, of "fst x" "snd x"] that by simp
  have "fe_states ?a (fst x) = None \<and> length (uf_last_times (snd x)) = length (fd_steps funnel)"
    if "x \<in> set (hm_entries ord (fe_states ?b))" for x
    using closed_states [OF assms(2) ent [OF that]] ent [OF that] sep [of "fst x"]
    by (auto simp: closed_below_def process_events_user funnel_new_def Let_def split: if_splits)
  then have "merge_users funnel (hm_entries ord (fe_states ?b)) (fe_states ?a) = Some (fe_states ?a ++ fe_states ?b)"
    using merge_users_disjoint [OF distinct_hm_entries [OF assms(1) fin], of "fe_states ?a" funnel]
    by (simp add: map_of_hm_entries [OF assms(1) fin])
  moreover have "fe_states ?a ++ fe_states ?b = fe_states ?ab"
  proof (rule ext)
    show "(fe_states ?a ++ fe_states ?b) k = fe_states ?ab k" for k
      using sep [of k] by (auto simp: map_add_def process_events_user funnel_new_def Let_def)
  qed
  ultimately show ?thesis
    unfolding funnel_merge_def funnel by (simp add: funnel_new_def)
qed


section \<open>Witnesses\<close>

definition sample_funnel :: funnel_def where
  "sample_funnel = \<lparr>fd_steps = [\<lparr>fs_event_name = ''view'', fs_filter = None\<rparr>, \<lparr>fs_event_name = ''buy'', fs_filter = None\<rparr>],
     fd_window_sec = 60\<rparr>"

definition sample_event :: "byte \<Rightarrow> string \<Rightarrow> i64 \<Rightarrow> event_record" where
  "sample_event u n t = \<lparr>ev_user_key = [u], ev_event_name = n, ev_event_time = t\<rparr>"

theorem funnel_counts_decrease_witness:
  "let fe = process_events [sample_event 1 ''view'' 10, sample_event 2 ''view'' 20, sample_event 1 ''buy'' 30] (funnel_new sample_funnel);
       counts = map unat (step_counts sorted_order fe)
   in sorted_wrt (\<ge>) counts \<and> list_all (\<lambda>r. \<exists>x. r = Fin x \<and> 0 \<le> x \<and> x \<le> 1) (conversion_rates sorted_order fe)"
  by (rule funnel_counts_decrease [OF sorted_order_ok]) (simp_all add: sample_funnel_def)

theorem funnel_merge_equals_sequential_witness:
  "funnel_merge sorted_order (process_events [sample_event 1 ''view'' 10, sample_event 1 ''buy'' 30] (funnel_new sample_funnel))
     (process_events [sample_event 2 ''view'' 20] (funnel_new sample_funnel)) =
   Some (process_events [sample_event 1 ''view'' 10, sample_event 1 ''buy'' 30, sample_event 2 ''view'' 20] (funnel_new sample_funnel))"
  using funnel_merge_equals_sequential [OF sorted_order_ok, of sample_funnel
      "[sample_event 1 ''view'' 10, sample_event 1 ''buy'' 30]" "[sample_event 2 ''view'' 20]"]
  by (simp add: sample_funnel_def sample_event_def)

text \<open>Splitting one user over two executors loses the progress that crosses the split.\<close>

lemma funnel_split_user_differs:
  "map_option (step_counts sorted_order)
     (funnel_merge sorted_order (process_events [sample_event 1 ''view'' 10] (funnel_new sample_funnel))
        (process_events [sample_event 1 ''buy'' 30] (funnel_new sample_funnel))) = Some [1, 0] \<and>
   step_counts sorted_order (process_events [sample_event 1 ''view'' 10, sample_event 1 ''buy'' 30] (funnel_new sample_funnel)) = [1, 1]"
  by (simp add: process_events_def process_event_def funnel_new_def sample_funnel_def sample_event_def funnel_apply_event_def
      apply_step_def reach_step_def user_state_init_def step_bit_def funnel_merge_def hm_entries_def sorted_order_def
      merge_state_def earlier_def step_counts_def Let_def)

end
