(* ===== verification/Cohort.thy ===== *)
theory Cohort
  imports Funnel "HOL-Library.Signed_Division"
begin

text \<open>
  Cohort retention and path analysis (\<open>compute-node/src/executor/analytics/cohort.rs\<close> and
  \<open>path.rs\<close>). Periods are quotients of \<open>i64\<close> times, rounded towards zero, and are kept as
  integers; a negative period distance becomes a huge \<open>usize\<close>. Iteration orders of hash maps and
  the unstable sort of the paths are arguments.
\<close>

section \<open>Cohorts\<close>

datatype period_unit = Day | Week | Month

definition period_of :: "period_unit \<Rightarrow> i64 \<Rightarrow> int" where
  "period_of u ts =
     (case u of
        Day \<Rightarrow> sint ts sdiv 86400
      | Week \<Rightarrow> sint ts sdiv (86400 * 7)
      | Month \<Rightarrow> sint ts sdiv (86400 * 30))"

record cohort_def =
  cd_entry_event :: string
  cd_return_event :: string
  cd_period_unit :: period_unit
  cd_max_periods :: nat

record cohort_executor =
  ce_cohort :: cohort_def
  ce_entry_periods :: "bytes \<rightharpoonup> int"
  ce_retention :: "int \<times> nat \<rightharpoonup> bytes set"

definition cohort_new :: "cohort_def \<Rightarrow> cohort_executor" where
  "cohort_new cohort = \<lparr>ce_cohort = cohort, ce_entry_periods = Map.empty, ce_retention = Map.empty\<rparr>"

definition cohort_enter :: "event_record \<Rightarrow> cohort_executor \<Rightarrow> cohort_executor" where
  "cohort_enter ev ce =
     (if ev_event_name ev = cd_entry_event (ce_cohort ce)
      then (let period = period_of (cd_period_unit (ce_cohort ce)) (ev_event_time ev)
            in case ce_entry_periods ce (ev_user_key ev) of
                 Some _ \<Rightarrow> ce
               | None \<Rightarrow> ce\<lparr>ce_entry_periods := (ce_entry_periods ce)(ev_user_key ev \<mapsto> period)\<rparr>)
      else ce)"

definition cohort_return :: "event_record \<Rightarrow> cohort_executor \<Rightarrow> cohort_executor" where
  "cohort_return ev ce =
     (if ev_event_name ev = cd_return_event (ce_cohort ce)
      then (case ce_entry_periods ce (ev_user_key ev) of
              None \<Rightarrow> ce
            | Some entry_period \<Rightarrow>
                (let current_period = period_of (cd_period_unit (ce_cohort ce)) (ev_event_time ev);
                     delta = nat ((current_period - entry_period) mod 2 ^ 64)
                 in if delta \<le> cd_max_periods (ce_cohort ce)
                    then (let old = (case ce_retention ce (entry_period, delta) of None \<Rightarrow> {} | Some us \<Rightarrow> us)
                          in ce\<lparr>ce_retention := (ce_retention ce)((entry_period, delta) \<mapsto> insert (ev_user_key ev) old)\<rparr>)
                    else ce))
      else ce)"

definition cohort_process_events :: "event_record list \<Rightarrow> cohort_executor \<Rightarrow> cohort_executor" where
  "cohort_process_events events ce = fold (\<lambda>ev ce. cohort_return ev (cohort_enter ev ce)) events ce"

record cohort_row =
  cr_cohort_period :: int
  cr_cohort_size :: u64
  cr_periods :: "u64 list"

definition cohort_size :: "(bytes, int) hash_order \<Rightarrow> cohort_executor \<Rightarrow> int \<Rightarrow> nat" where
  "cohort_size ord ce cp = length (filter (\<lambda>p. p = cp) (map snd (hm_entries ord (ce_entry_periods ce))))"

definition build_result :: "(bytes, int) hash_order \<Rightarrow> cohort_executor \<Rightarrow> cohort_row list" where
  "build_result ord ce =
     (let cohort_periods = remdups_adj (sort (map snd (hm_entries ord (ce_entry_periods ce))))
      in map (\<lambda>cp. \<lparr>cr_cohort_period = cp, cr_cohort_size = of_nat (cohort_size ord ce cp),
                   cr_periods = map (\<lambda>delta. case ce_retention ce (cp, delta) of None \<Rightarrow> 0 | Some users \<Rightarrow> of_nat (card users))
                     [0..<Suc (cd_max_periods (ce_cohort ce))]\<rparr>) cohort_periods)"

subsection \<open>Returning users belong to their cohort\<close>

definition cohort_inv :: "event_record list \<Rightarrow> cohort_executor \<Rightarrow> bool" where
  "cohort_inv evs ce \<longleftrightarrow>
     dom (ce_entry_periods ce) \<subseteq> ev_user_key ` set evs \<and>
     (\<forall>cp d us. ce_retention ce (cp, d) = Some us \<longrightarrow> us \<subseteq> {u. ce_entry_periods ce u = Some cp})"

lemma cohort_inv_step:
  assumes "cohort_inv evs ce" "ev \<in> set evs"
  shows "cohort_inv evs (cohort_return ev (cohort_enter ev ce))"
proof -
  have 1: "cohort_inv evs (cohort_enter ev ce)"
    using assms by (fastforce simp: cohort_inv_def cohort_enter_def Let_def split: option.split)
  have "cohort_inv evs (cohort_return ev ce')" if "cohort_inv evs ce'" for ce'
    using that by (fastforce simp: cohort_inv_def cohort_return_def Let_def split: option.split if_splits)
  with 1 show ?thesis by blast
qed

lemma cohort_inv_process: "cohort_inv evs (cohort_process_events evs (cohort_new cohort))"
proof -
  have "cohort_inv evs (fold (\<lambda>ev ce. cohort_return ev (cohort_enter ev ce)) es ce)"
    if "cohort_inv evs ce" "set es \<subseteq> set evs" for es ce
    using that by (induction es arbitrary: ce) (simp_all add: cohort_inv_step)
  moreover have "cohort_inv evs (cohort_new cohort)" by (simp add: cohort_inv_def cohort_new_def)
  ultimately show ?thesis by (simp add: cohort_process_events_def)
qed

lemma strict_remdups_adj: "sorted xs \<Longrightarrow> sorted_wrt (<) (remdups_adj xs)"
proof (induction xs rule: remdups_adj.induct)
  case (3 x y xs)
  then show ?case by (cases "x = y") (auto simp: order.strict_iff_order)
qed simp_all

lemma cohort_size_card:
  assumes "hash_order_ok ord" "finite (dom m)"
  shows "length (filter (\<lambda>p. p = cp) (map snd (hm_entries ord m))) = card {u. m u = Some cp}"
proof -
  let ?us = "filter (\<lambda>u. m u = Some cp) (ord m)"
  have ord: "distinct (ord m)" "set (ord m) = dom m" using assms by (auto simp: hash_order_ok_def)
  have "length (filter (\<lambda>p. p = cp) (map snd (hm_entries ord m))) = length (filter (\<lambda>u. the (m u) = cp) (ord m))"
    by (simp add: hm_entries_def filter_map comp_def)
  also have "filter (\<lambda>u. the (m u) = cp) (ord m) = ?us"
    using ord(2) by (intro filter_cong) auto
  also have "length ?us = card (set ?us)" using ord(1) by (intro distinct_card [symmetric] distinct_filter)
  also have "set ?us = {u. m u = Some cp}" using ord(2) by auto
  finally show ?thesis .
qed

text \<open>C32. Retention never exceeds the cohort: in the result built after any events, fewer than 2^64, cohorts are
  listed once each in ascending order, every cohort has at least one user, every period cell is
  filled up to the requested number of periods, and no cell counts more users than entered the
  cohort.\<close>

theorem cohort_retention_bounded:
  assumes "hash_order_ok ord" and "length events < 2 ^ 64"
  shows "let ce = cohort_process_events events (cohort_new cohort); res = build_result ord ce
    in sorted_wrt (<) (map cr_cohort_period res) \<and>
       list_all (\<lambda>r. 0 < cr_cohort_size r \<and> length (cr_periods r) = Suc (cd_max_periods (ce_cohort ce)) \<and>
         list_all (\<lambda>c. c \<le> cr_cohort_size r) (cr_periods r)) res"
proof -
  let ?ce = "cohort_process_events events (cohort_new cohort)"
  let ?m = "ce_entry_periods ?ce" and ?ps = "map snd (hm_entries ord (ce_entry_periods ?ce))"
  have inv: "cohort_inv events ?ce" by (rule cohort_inv_process)
  then have dom: "dom ?m \<subseteq> ev_user_key ` set events" by (simp add: cohort_inv_def)
  then have fin: "finite (dom ?m)" by (rule finite_subset) simp
  have "card (dom ?m) \<le> card (ev_user_key ` set events)" using dom by (rule card_mono [rotated]) simp
  also have "\<dots> \<le> length events" by (metis card_length length_map set_map)
  finally have small: "card (dom ?m) < 2 ^ 64" using assms(2) by simp
  have size: "cohort_size ord ?ce cp = card {u. ?m u = Some cp}" for cp
    unfolding cohort_size_def by (rule cohort_size_card [OF assms(1) fin])
  have sub: "{u. ?m u = Some cp} \<subseteq> dom ?m" for cp by auto
  have sz: "unat (of_nat (cohort_size ord ?ce cp) :: u64) = card {u. ?m u = Some cp}" for cp
    unfolding size using card_mono [OF fin sub, of cp] small by (simp add: unat_of_nat)
  have cell: "(of_nat (card us) :: u64) \<le> of_nat (cohort_size ord ?ce cp)"
    if "ce_retention ?ce (cp, d) = Some us" for cp d us
  proof -
    have "us \<subseteq> {u. ?m u = Some cp}" using inv that by (simp add: cohort_inv_def)
    then have le: "card us \<le> card {u. ?m u = Some cp}" using finite_subset [OF sub fin] by (rule card_mono [rotated])
    then have "unat (of_nat (card us) :: u64) = card us"
      using card_mono [OF fin sub, of cp] small by (simp add: unat_of_nat)
    with le sz show ?thesis unfolding word_le_nat_alt by simp
  qed
  have pos: "0 < (of_nat (cohort_size ord ?ce cp) :: u64)" if cp: "cp \<in> set ?ps" for cp
  proof -
    obtain u where "?m u = Some cp"
      using cp set_hm_entries [OF assms(1) fin] by auto
    then have "0 < card {u. ?m u = Some cp}" using finite_subset [OF sub fin] by (auto simp: card_gt_0_iff)
    then show ?thesis using sz [of cp] by (metis unat_gt_0 word_gt_0 gr_implies_not0)
  qed
  have "sorted_wrt (<) (remdups_adj (sort ?ps))" by (rule strict_remdups_adj) simp
  moreover have "map cr_cohort_period (build_result ord ?ce) = remdups_adj (sort ?ps)"
    by (simp add: build_result_def Let_def comp_def)
  ultimately show ?thesis
    using pos cell unfolding Let_def
    by (auto simp: build_result_def Let_def list_all_iff split: option.split)
qed

theorem cohort_retention_bounded_witness:
  "let cohort = \<lparr>cd_entry_event = ''signup'', cd_return_event = ''login'', cd_period_unit = Day, cd_max_periods = 3\<rparr>;
       events = [sample_event 1 ''signup'' 10, sample_event 1 ''login'' 90000, sample_event 2 ''signup'' 100000];
       ce = cohort_process_events events (cohort_new cohort); res = build_result sorted_order ce
   in sorted_wrt (<) (map cr_cohort_period res) \<and>
      list_all (\<lambda>r. 0 < cr_cohort_size r \<and> length (cr_periods r) = Suc (cd_max_periods (ce_cohort ce)) \<and>
         list_all (\<lambda>c. c \<le> cr_cohort_size r) (cr_periods r)) res"
  using cohort_retention_bounded [OF sorted_order_ok,
      of "[sample_event 1 ''signup'' 10, sample_event 1 ''login'' 90000, sample_event 2 ''signup'' 100000]"
         "\<lparr>cd_entry_event = ''signup'', cd_return_event = ''login'', cd_period_unit = Day, cd_max_periods = 3\<rparr>"]
  unfolding Let_def by simp

section \<open>Paths\<close>

record path_def =
  pd_start_event :: "string option"
  pd_end_event :: "string option"
  pd_max_depth :: nat
  pd_session_gap :: i64
  pd_top_n :: nat

record path_executor =
  pe_path_def :: path_def
  pe_path_counts :: "string list \<rightharpoonup> u64"
  pe_user_sessions :: "bytes \<rightharpoonup> string list \<times> i64"

definition path_new :: "path_def \<Rightarrow> path_executor" where
  "path_new d = \<lparr>pe_path_def = d, pe_path_counts = Map.empty, pe_user_sessions = Map.empty\<rparr>"

text \<open>One event: the sessions and the paths to flush.\<close>

definition path_event ::
  "path_def \<Rightarrow> event_record \<Rightarrow> (bytes \<rightharpoonup> string list \<times> i64) \<times> string list list \<Rightarrow>
   (bytes \<rightharpoonup> string list \<times> i64) \<times> string list list" where
  "path_event d ev sf =
     (let (sessions, to_flush) = sf;
          (path, last_time) = (case sessions (ev_user_key ev) of None \<Rightarrow> ([], i64_MIN) | Some pl \<Rightarrow> pl);
          expired = (last_time \<noteq> i64_MIN \<and> sint (pd_session_gap d) < sint (ev_event_time ev - last_time));
          to_flush = (if expired \<and> path \<noteq> [] then to_flush @ [path] else to_flush);
          path = (if expired then [] else path);
          should_start = (case pd_start_event d of None \<Rightarrow> path = [] | Some s \<Rightarrow> path = [] \<and> ev_event_name ev = s)
      in if should_start \<or> path \<noteq> []
         then (let path = path @ [ev_event_name ev];
                   reached_end = (case pd_end_event d of None \<Rightarrow> False | Some e \<Rightarrow> ev_event_name ev = e);
                   reached_max = (pd_max_depth d \<le> length path)
               in if reached_end \<or> reached_max
                  then (sessions(ev_user_key ev \<mapsto> ([], ev_event_time ev)), to_flush @ [path])
                  else (sessions(ev_user_key ev \<mapsto> (path, ev_event_time ev)), to_flush))
         else (sessions(ev_user_key ev \<mapsto> (path, last_time)), to_flush))"

definition flush_path :: "string list \<Rightarrow> (string list \<rightharpoonup> u64) \<Rightarrow> (string list \<rightharpoonup> u64)" where
  "flush_path path counts =
     (if 2 \<le> length path then counts(path \<mapsto> (case counts path of None \<Rightarrow> 0 | Some n \<Rightarrow> n) + 1) else counts)"

definition path_process_events ::
  "(bytes, string list \<times> i64) hash_order \<Rightarrow> event_record list \<Rightarrow> path_executor \<Rightarrow> path_executor" where
  "path_process_events ord events pe =
     (let (sessions, to_flush) = fold (path_event (pe_path_def pe)) events (pe_user_sessions pe, []);
          remaining = filter (\<lambda>p. p \<noteq> []) (map (\<lambda>e. fst (snd e)) (hm_entries ord sessions))
      in pe\<lparr>pe_path_counts := fold flush_path (to_flush @ remaining) (pe_path_counts pe), pe_user_sessions := Map.empty\<rparr>)"

record path_result =
  pr_rank :: nat
  pr_path :: "string list"
  pr_count :: u64

definition top_paths ::
  "(string list, u64) hash_order \<Rightarrow> ((string list \<times> u64) list \<Rightarrow> (string list \<times> u64) list) \<Rightarrow> path_executor \<Rightarrow> path_result list" where
  "top_paths ord sort_desc pe =
     map (\<lambda>(rank, path, count). \<lparr>pr_rank = rank + 1, pr_path = path, pr_count = count\<rparr>)
       (enumerate 0 (take (pd_top_n (pe_path_def pe)) (sort_desc (hm_entries ord (pe_path_counts pe)))))"

definition path_merge :: "(string list, u64) hash_order \<Rightarrow> path_executor \<Rightarrow> path_executor \<Rightarrow> path_executor" where
  "path_merge ord pe other =
     pe\<lparr>pe_path_counts := fold (\<lambda>(path, count) m. m(path \<mapsto> (case m path of None \<Rightarrow> 0 | Some n \<Rightarrow> n) + count))
         (hm_entries ord (pe_path_counts other)) (pe_path_counts pe)\<rparr>"

subsection \<open>Counted paths are well formed\<close>

text \<open>An open path: it begins with the start event, has not reached the end event and is shorter
  than the depth limit.\<close>

definition open_path :: "path_def \<Rightarrow> string list \<Rightarrow> bool" where
  "open_path d p \<longleftrightarrow>
     (p \<noteq> [] \<longrightarrow> length p < pd_max_depth d \<and> (\<forall>s. pd_start_event d = Some s \<longrightarrow> hd p = s) \<and>
        (\<forall>e. pd_end_event d = Some e \<longrightarrow> e \<notin> set p))"

definition closed_path :: "path_def \<Rightarrow> string list \<Rightarrow> bool" where
  "closed_path d p \<longleftrightarrow>
     p \<noteq> [] \<and> (length p \<le> pd_max_depth d \<or> length p = 1) \<and> (\<forall>s. pd_start_event d = Some s \<longrightarrow> hd p = s) \<and>
     (\<forall>e. pd_end_event d = Some e \<longrightarrow> e \<notin> set (butlast p))"

definition paths_ok :: "path_def \<Rightarrow> (bytes \<rightharpoonup> string list \<times> i64) \<times> string list list \<Rightarrow> bool" where
  "paths_ok d sf \<longleftrightarrow> finite (dom (fst sf)) \<and> (\<forall>u p t. fst sf u = Some (p, t) \<longrightarrow> open_path d p) \<and> list_all (closed_path d) (snd sf)"

lemma open_is_closed: "open_path d p \<Longrightarrow> p \<noteq> [] \<Longrightarrow> closed_path d p"
  by (auto simp: open_path_def closed_path_def dest: in_set_butlastD)

lemma open_extend:
  assumes "open_path d p" "p = [] \<longrightarrow> (\<forall>s. pd_start_event d = Some s \<longrightarrow> x = s)"
  shows "closed_path d (p @ [x])"
    and "\<forall>e. pd_end_event d = Some e \<longrightarrow> x \<noteq> e \<Longrightarrow> length (p @ [x]) < pd_max_depth d \<Longrightarrow> open_path d (p @ [x])"
  using assms by (cases p; auto simp: open_path_def closed_path_def)+

lemma paths_ok_update:
  "paths_ok d (m, f) \<Longrightarrow> open_path d p \<Longrightarrow> list_all (closed_path d) g \<Longrightarrow> paths_ok d (m(u \<mapsto> (p, t)), f @ g)"
  by (auto simp: paths_ok_def)

lemma path_event_ok:
  assumes ok: "paths_ok d sf"
  shows "paths_ok d (path_event d ev sf)"
proof -
  obtain m f where sf: "sf = (m, f)" by force
  obtain p0 t where pt: "(case m (ev_user_key ev) of None \<Rightarrow> ([], i64_MIN) | Some pl \<Rightarrow> pl) = (p0, t)" by force
  have p0: "open_path d p0"
    using ok pt by (auto simp: paths_ok_def sf open_path_def split: option.splits)
  let ?ex = "t \<noteq> i64_MIN \<and> sint (pd_session_gap d) < sint (ev_event_time ev - t)"
  let ?f = "if ?ex \<and> p0 \<noteq> [] then [p0] else []" and ?p = "if ?ex then [] else p0"
  have f: "list_all (closed_path d) ?f" using open_is_closed [OF p0] by simp
  have p: "open_path d ?p" using p0 by (simp add: open_path_def)
  let ?start = "case pd_start_event d of None \<Rightarrow> ?p = [] | Some s \<Rightarrow> ?p = [] \<and> ev_event_name ev = s"
  let ?fin = "case pd_end_event d of None \<Rightarrow> False | Some e \<Rightarrow> ev_event_name ev = e"
  let ?x = "?p @ [ev_event_name ev]" and ?k = "ev_user_key ev"
  have eq: "path_event d ev sf =
      (if ?start \<or> ?p \<noteq> []
       then if ?fin \<or> pd_max_depth d \<le> length ?x then (m(?k \<mapsto> ([], ev_event_time ev)), f @ (?f @ [?x]))
            else (m(?k \<mapsto> (?x, ev_event_time ev)), f @ ?f)
       else (m(?k \<mapsto> (?p, t)), f @ ?f))"
    by (simp add: path_event_def sf pt Let_def)
  show ?thesis
  proof (cases "?start \<or> ?p \<noteq> []")
    case True
    have "?p = [] \<longrightarrow> (\<forall>s. pd_start_event d = Some s \<longrightarrow> ev_event_name ev = s)"
      using True by (auto split: option.splits)
    note x = open_extend [OF p this]
    show ?thesis
    proof (cases "?fin \<or> pd_max_depth d \<le> length ?x")
      case fin': True
      have "open_path d []" by (simp add: open_path_def)
      moreover have "list_all (closed_path d) (?f @ [?x])" using f x(1) by simp
      ultimately have "paths_ok d (m(?k \<mapsto> ([], ev_event_time ev)), f @ (?f @ [?x]))"
        using ok unfolding sf by (intro paths_ok_update)
      then show ?thesis unfolding eq using True fin' by (simp only: if_True)
    next
      case False
      then have "open_path d ?x" by (intro x(2)) (auto split: option.splits)
      then have "paths_ok d (m(?k \<mapsto> (?x, ev_event_time ev)), f @ ?f)"
        using ok f unfolding sf by (intro paths_ok_update)
      then show ?thesis unfolding eq using True False by (simp only: if_True if_False)
    qed
  next
    case False
    have "paths_ok d (m(?k \<mapsto> (?p, t)), f @ ?f)" using ok f p unfolding sf by (intro paths_ok_update)
    then show ?thesis unfolding eq using False by (simp only: if_False)
  qed
qed

lemma flush_paths_dom:
  "dom (fold flush_path ps counts) = dom counts \<union> {p \<in> set ps. 2 \<le> length p}"
  by (induction ps arbitrary: counts) (auto simp: flush_path_def)

text \<open>C33. Every path that a fresh executor counts in one batch of events is a real path: it has at least two events and at most the
  configured depth, begins with the start event when one is configured, and contains the end event
  at most as its last event.\<close>

theorem counted_paths_well_formed:
  assumes "hash_order_ok ord"
    and "pe_path_counts (path_process_events ord events (path_new d)) p = Some n"
  shows "2 \<le> length p \<and> length p \<le> pd_max_depth d \<and> (\<forall>s. pd_start_event d = Some s \<longrightarrow> hd p = s) \<and>
    (\<forall>e. pd_end_event d = Some e \<longrightarrow> e \<notin> set (butlast p))"
proof -
  let ?sf = "fold (path_event d) events (Map.empty, [])"
  have step: "paths_ok d (fold (path_event d) es sf)" if "paths_ok d sf" for es sf
    using that by (induction es arbitrary: sf) (simp_all add: path_event_ok)
  have ok: "paths_ok d ?sf" by (rule step) (simp add: paths_ok_def)
  let ?rem = "filter (\<lambda>p. p \<noteq> []) (map (\<lambda>e. fst (snd e)) (hm_entries ord (fst ?sf)))"
  have "p \<in> dom (pe_path_counts (path_process_events ord events (path_new d)))" using assms(2) by blast
  then have p: "p \<in> set (snd ?sf @ ?rem)" "2 \<le> length p"
    by (auto simp: path_process_events_def path_new_def flush_paths_dom split_beta)
  have "closed_path d p"
  proof (cases "p \<in> set (snd ?sf)")
    case True
    with ok show ?thesis by (simp add: paths_ok_def list_all_iff)
  next
    case False
    then obtain u t where "(u, (p, t)) \<in> set (hm_entries ord (fst ?sf))" "p \<noteq> []" using p(1) by auto
    moreover from this have "fst ?sf u = Some (p, t)"
      using ok set_hm_entries [OF assms(1), of "fst ?sf"] by (simp add: paths_ok_def)
    then have "open_path d p" using ok unfolding paths_ok_def by blast
    ultimately show ?thesis by (intro open_is_closed)
  qed
  with p(2) show ?thesis by (auto simp: closed_path_def)
qed

theorem counted_paths_well_formed_witness:
  "let d = \<lparr>pd_start_event = Some ''a'', pd_end_event = None, pd_max_depth = 3, pd_session_gap = 60, pd_top_n = 5\<rparr>;
       pe = path_process_events sorted_order [sample_event 1 ''a'' 1, sample_event 1 ''b'' 2] (path_new d)
   in pe_path_counts pe [''a'', ''b''] = Some 1 \<and> length [''a'', ''b''] \<le> pd_max_depth d"
proof -
  let ?d = "\<lparr>pd_start_event = Some ''a'', pd_end_event = None, pd_max_depth = 3, pd_session_gap = 60, pd_top_n = 5\<rparr>"
  let ?evs = "[sample_event 1 ''a'' 1, sample_event 1 ''b'' 2]"
  have c: "pe_path_counts (path_process_events sorted_order ?evs (path_new ?d)) [''a'', ''b''] = Some 1"
    by (simp add: path_process_events_def path_new_def path_event_def sample_event_def hm_entries_def sorted_order_def
        flush_path_def i64_MIN_def Let_def)
  from counted_paths_well_formed [OF sorted_order_ok c] c show ?thesis unfolding Let_def by simp
qed

end
