(* ===== verification/GroupBy.thy ===== *)
theory GroupBy
  imports Joins
begin

text \<open>
  Vectorised grouping (\<open>compute-node/src/executor/vectorized_agg.rs\<close>): the state of a group, the
  accumulation of batches into a hash table keyed by the serialised group key, the merge of the
  partial results of several compute nodes and the final batch. The lemmas relate a group to the
  column aggregates of \<open>Vectorized\<close>; the property states that distributed grouping gives the
  groups of all rows.
\<close>

section \<open>Groups\<close>

datatype agg_op = AggSum | AggCount | AggMin | AggMax | AggCountDistinct

record agg_spec =
  as_col_idx :: nat
  as_op :: agg_op
  as_alias :: string

record group_state =
  gs_sum :: i64
  gs_count :: u64
  gs_min :: "i64 option"
  gs_max :: "i64 option"

definition group_default :: group_state where
  "group_default = \<lparr>gs_sum = 0, gs_count = 0, gs_min = None, gs_max = None\<rparr>"

definition group_update :: "i64 option \<Rightarrow> group_state \<Rightarrow> group_state" where
  "group_update val st =
     (case val of
        None \<Rightarrow> st
      | Some v \<Rightarrow>
          \<lparr>gs_sum = gs_sum st + v, gs_count = gs_count st + 1,
           gs_min = Some (case gs_min st of None \<Rightarrow> v | Some m \<Rightarrow> i64_min m v),
           gs_max = Some (case gs_max st of None \<Rightarrow> v | Some m \<Rightarrow> i64_max m v)\<rparr>)"

definition group_merge :: "group_state \<Rightarrow> group_state \<Rightarrow> group_state" where
  "group_merge st other =
     \<lparr>gs_sum = gs_sum st + gs_sum other, gs_count = gs_count st + gs_count other,
      gs_min = (case gs_min other of None \<Rightarrow> gs_min st
                | Some x \<Rightarrow> Some (case gs_min st of None \<Rightarrow> x | Some m \<Rightarrow> i64_min m x)),
      gs_max = (case gs_max other of None \<Rightarrow> gs_max st
                | Some x \<Rightarrow> Some (case gs_max st of None \<Rightarrow> x | Some m \<Rightarrow> i64_max m x))\<rparr>"

definition group_result :: "agg_op \<Rightarrow> group_state \<Rightarrow> i64" where
  "group_result op st =
     (case op of
        AggSum \<Rightarrow> gs_sum st
      | AggCount \<Rightarrow> gs_count st
      | AggCountDistinct \<Rightarrow> gs_count st
      | AggMin \<Rightarrow> (case gs_min st of None \<Rightarrow> 0 | Some m \<Rightarrow> m)
      | AggMax \<Rightarrow> (case gs_max st of None \<Rightarrow> 0 | Some m \<Rightarrow> m))"

section \<open>The executor\<close>

record group_by_agg =
  ga_group_key_cols :: "nat list"
  ga_agg_specs :: "agg_spec list"
  ga_state :: "bytes \<rightharpoonup> group_state list"

definition group_by_new :: "nat list \<Rightarrow> agg_spec list \<Rightarrow> group_by_agg" where
  "group_by_new cols specs = \<lparr>ga_group_key_cols = cols, ga_agg_specs = specs, ga_state = Map.empty\<rparr>"

definition extract_i64_value :: "'v chunk \<Rightarrow> nat \<Rightarrow> nat \<Rightarrow> i64 option" where
  "extract_i64_value batch col_idx r = (if col_idx < length batch then extract_i64 (batch ! col_idx) r else None)"

definition key_values :: "nat list \<Rightarrow> 'v chunk \<times> nat \<Rightarrow> i64 list" where
  "key_values cols br =
     map (\<lambda>c. case extract_i64_value (fst br) c (snd br) of None \<Rightarrow> i64_MIN | Some v \<Rightarrow> v) cols"

definition group_key :: "nat list \<Rightarrow> 'v chunk \<times> nat \<Rightarrow> bytes" where
  "group_key cols br = concat (map (to_le 8) (key_values cols br))"

text \<open>The code indexes the states of a group by the position of the specification; they are
  created with one state for each specification, and every operation keeps that length.\<close>

definition accumulate_row :: "'v chunk \<times> nat \<Rightarrow> group_by_agg \<Rightarrow> group_by_agg" where
  "accumulate_row br ga =
     (let key = group_key (ga_group_key_cols ga) br;
          states = (case ga_state ga key of
                      None \<Rightarrow> replicate (length (ga_agg_specs ga)) group_default | Some sts \<Rightarrow> sts)
      in ga\<lparr>ga_state := (ga_state ga)(key \<mapsto>
           map (\<lambda>i. group_update (extract_i64_value (fst br) (as_col_idx (ga_agg_specs ga ! i)) (snd br)) (states ! i))
             [0..<length (ga_agg_specs ga)])\<rparr>)"

definition accumulate :: "'v chunk \<Rightarrow> group_by_agg \<Rightarrow> group_by_agg" where
  "accumulate batch ga = fold (\<lambda>r. accumulate_row (batch, r)) [0..<chunk_len batch] ga"

definition merge_states :: "group_state list \<Rightarrow> group_state list \<Rightarrow> group_state list" where
  "merge_states states others =
     map (\<lambda>i. if i < length others then group_merge (states ! i) (others ! i) else states ! i) [0..<length states]"

definition group_by_merge :: "(bytes, group_state list) hash_order \<Rightarrow> group_by_agg \<Rightarrow> group_by_agg \<Rightarrow> group_by_agg" where
  "group_by_merge ord ga other =
     ga\<lparr>ga_state := fold (\<lambda>e m. m(fst e \<mapsto>
           merge_states (case m (fst e) of
                           None \<Rightarrow> replicate (length (ga_agg_specs ga)) group_default | Some sts \<Rightarrow> sts) (snd e)))
         (hm_entries ord (ga_state other)) (ga_state ga)\<rparr>"

definition key_at :: "bytes \<Rightarrow> nat \<Rightarrow> i64" where
  "key_at key k = (if k * 8 + 8 \<le> length key then from_le (take 8 (drop (k * 8) key)) else 0)"

definition group_by_finish :: "(bytes, group_state list) hash_order \<Rightarrow> group_by_agg \<Rightarrow> 'v chunk option" where
  "group_by_finish ord ga =
     (let es = hm_entries ord (ga_state ga);
          key_cols = map (\<lambda>k. map (\<lambda>e. Some (key_at (fst e) k)) es) [0..<length (ga_group_key_cols ga)];
          agg_cols = map (\<lambda>i. map (\<lambda>e. Some (group_result (as_op (ga_agg_specs ga ! i)) (snd e ! i))) es)
            [0..<length (ga_agg_specs ga)]
      in chunk_new (map I64Array (key_cols @ agg_cols)))"

section \<open>A group is the aggregate of its rows\<close>

definition group_of :: "i64 option list \<Rightarrow> group_state" where
  "group_of vs = fold group_update vs group_default"

definition agg_group :: "agg_result \<Rightarrow> group_state" where
  "agg_group r = \<lparr>gs_sum = ar_sum r, gs_count = ar_count r, gs_min = ar_min r, gs_max = ar_max r\<rparr>"

lemma group_of_snoc: "group_of (vs @ [v]) = group_update v (group_of vs)"
  by (simp add: group_of_def)

lemma group_of_agg: "group_of vs = agg_group (agg_i64 vs)"
proof (induction vs rule: rev_induct)
  case (snoc v vs)
  then show ?case
    by (simp add: group_of_snoc) (simp add: agg_i64_def group_update_def agg_group_def agg_add_def split: option.split)
qed (simp add: group_of_def group_default_def agg_i64_def agg_default_def agg_group_def)

lemma i64_min_assoc: "i64_min (i64_min a b) c = i64_min a (i64_min b c)"
  by (auto simp: i64_min_def i64_le_def)

lemma i64_max_assoc: "i64_max (i64_max a b) c = i64_max a (i64_max b c)"
  by (auto simp: i64_max_def i64_le_def)

lemma group_merge_update: "group_merge st (group_update v ot) = group_update v (group_merge st ot)"
  by (simp add: group_merge_def group_update_def i64_min_assoc i64_max_assoc add.assoc split: option.split)

lemma group_merge_default: "group_merge st group_default = st"
  by (simp add: group_merge_def group_default_def)

lemma group_merge_of: "group_merge (group_of xs) (group_of ys) = group_of (xs @ ys)"
proof (induction ys rule: rev_induct)
  case (snoc y ys)
  then show ?case using group_of_snoc [of "xs @ ys" y] by (simp add: group_of_snoc group_merge_update)
qed (simp add: group_of_def group_merge_default)

section \<open>The table of groups\<close>

definition batch_rows :: "'v chunk list \<Rightarrow> ('v chunk \<times> nat) list" where
  "batch_rows bs = concat (map (\<lambda>b. map (Pair b) [0..<chunk_len b]) bs)"

definition spec_values :: "('v chunk \<times> nat) list \<Rightarrow> agg_spec \<Rightarrow> i64 option list" where
  "spec_values rs sp = map (\<lambda>br. extract_i64_value (fst br) (as_col_idx sp) (snd br)) rs"

definition group_table :: "nat list \<Rightarrow> agg_spec list \<Rightarrow> ('v chunk \<times> nat) list \<Rightarrow> bytes \<rightharpoonup> group_state list" where
  "group_table cols specs rs key =
     (let mine = filter (\<lambda>br. group_key cols br = key) rs
      in if mine = [] then None else Some (map (\<lambda>sp. group_of (spec_values mine sp)) specs))"

lemma batch_rows_append [simp]: "batch_rows (as @ bs) = batch_rows as @ batch_rows bs"
  by (simp add: batch_rows_def)

lemma accumulate_rows: "fold accumulate bs ga = fold accumulate_row (batch_rows bs) ga"
  by (induction bs arbitrary: ga) (simp_all add: batch_rows_def accumulate_def fold_map comp_def)

lemma group_table_snoc:
  "group_table cols specs (rs @ [br]) =
     (group_table cols specs rs)(group_key cols br \<mapsto>
        map (\<lambda>i. group_update (extract_i64_value (fst br) (as_col_idx (specs ! i)) (snd br))
          ((case group_table cols specs rs (group_key cols br) of
              None \<Rightarrow> replicate (length specs) group_default | Some sts \<Rightarrow> sts) ! i)) [0..<length specs])"
proof (rule ext)
  fix key
  let ?mine = "filter (\<lambda>b. group_key cols b = group_key cols br) rs"
  have "map (\<lambda>sp. group_of (spec_values (?mine @ [br]) sp)) specs =
      map (\<lambda>i. group_update (extract_i64_value (fst br) (as_col_idx (specs ! i)) (snd br))
          ((case group_table cols specs rs (group_key cols br) of
              None \<Rightarrow> replicate (length specs) group_default | Some sts \<Rightarrow> sts) ! i)) [0..<length specs]"
    by (rule nth_equalityI)
      (auto simp: group_table_def Let_def spec_values_def group_of_snoc group_of_def [of "[]"])
  then show "group_table cols specs (rs @ [br]) key = ((group_table cols specs rs)(group_key cols br \<mapsto>
        map (\<lambda>i. group_update (extract_i64_value (fst br) (as_col_idx (specs ! i)) (snd br))
          ((case group_table cols specs rs (group_key cols br) of
              None \<Rightarrow> replicate (length specs) group_default | Some sts \<Rightarrow> sts) ! i)) [0..<length specs])) key"
    by (cases "key = group_key cols br") (simp_all add: group_table_def Let_def)
qed

lemma accumulated:
  "fold accumulate_row rs (group_by_new cols specs) =
     (group_by_new cols specs)\<lparr>ga_state := group_table cols specs rs\<rparr>"
proof (induction rs rule: rev_induct)
  case Nil
  then show ?case by (simp add: group_by_new_def group_table_def fun_eq_iff)
next
  case (snoc br rs)
  have "fold accumulate_row (rs @ [br]) (group_by_new cols specs) =
      accumulate_row br ((group_by_new cols specs)\<lparr>ga_state := group_table cols specs rs\<rparr>)"
    unfolding snoc.IH [symmetric] by simp
  also have "\<dots> = (group_by_new cols specs)\<lparr>ga_state := group_table cols specs (rs @ [br])\<rparr>"
    unfolding group_table_snoc by (simp add: accumulate_row_def Let_def group_by_new_def cong: option.case_cong)
  finally show ?case .
qed

lemma finite_group_table: "finite (dom (group_table cols specs rs))"
proof (rule finite_subset)
  show "dom (group_table cols specs rs) \<subseteq> group_key cols ` set rs"
    by (auto simp: group_table_def Let_def filter_empty_conv split: if_splits)
qed simp

lemma fold_entry_update:
  assumes "distinct (map fst es)"
  shows "fold (\<lambda>e m. m(fst e \<mapsto> f (m (fst e)) (snd e))) es m k =
    (case map_of es k of None \<Rightarrow> m k | Some v \<Rightarrow> Some (f (m k) v))"
  using assms
proof (induction es arbitrary: m)
  case (Cons e es)
  then have "map_of es (fst e) = None" by (simp add: map_of_eq_None_iff)
  with Cons show ?case by (cases "k = fst e") simp_all
qed simp

lemma merge_states_tables:
  assumes "group_table cols specs bs k = Some os"
  shows "group_table cols specs (as @ bs) k =
    Some (merge_states (case group_table cols specs as k of
       None \<Rightarrow> replicate (length specs) group_default | Some sts \<Rightarrow> sts) os)"
proof -
  let ?a = "filter (\<lambda>b. group_key cols b = k) as" and ?b = "filter (\<lambda>b. group_key cols b = k) bs"
  have b: "?b \<noteq> []" "os = map (\<lambda>sp. group_of (spec_values ?b sp)) specs"
    using assms by (auto simp: group_table_def Let_def split: if_splits)
  have "(case group_table cols specs as k of None \<Rightarrow> replicate (length specs) group_default | Some sts \<Rightarrow> sts) =
      map (\<lambda>sp. group_of (spec_values ?a sp)) specs"
    by (auto simp: group_table_def Let_def spec_values_def group_of_def map_replicate_const)
  then show ?thesis
    using b by (auto simp: group_table_def Let_def merge_states_def group_merge_of spec_values_def intro!: nth_equalityI)
qed

lemma merge_tables:
  assumes "hash_order_ok ord"
  shows "group_by_merge ord (fold accumulate_row as (group_by_new cols specs)) (fold accumulate_row bs (group_by_new cols specs)) =
    fold accumulate_row (as @ bs) (group_by_new cols specs)"
proof -
  let ?t = "group_table cols specs bs"
  have es: "distinct (map fst (hm_entries ord ?t))" "map_of (hm_entries ord ?t) = ?t"
    by (rule distinct_hm_entries [OF assms finite_group_table], rule map_of_hm_entries [OF assms finite_group_table])
  have "fold (\<lambda>e m. m(fst e \<mapsto> merge_states (case m (fst e) of
           None \<Rightarrow> replicate (length specs) group_default | Some sts \<Rightarrow> sts) (snd e)))
         (hm_entries ord ?t) (group_table cols specs as) k = group_table cols specs (as @ bs) k" for k
    unfolding fold_entry_update [OF es(1), where f = "\<lambda>o1. merge_states (case o1 of
           None \<Rightarrow> replicate (length specs) group_default | Some sts \<Rightarrow> sts)"] es(2)
    using merge_states_tables [of cols specs bs k _ as]
    by (auto simp: group_table_def Let_def split: option.split if_splits)
  then show ?thesis
    unfolding accumulated group_by_merge_def by (simp add: group_by_new_def fun_eq_iff cong: option.case_cong)
qed


section \<open>The final batch\<close>

lemma drop_concat_to_le:
  "k \<le> length ks \<Longrightarrow> drop (k * 8) (concat (map (to_le 8) (ks :: i64 list))) = concat (map (to_le 8) (drop k ks))"
proof (induction ks arbitrary: k)
  case (Cons x ks)
  then show ?case by (cases k) simp_all
qed simp

lemma length_concat_to_le: "length (concat (map (to_le 8) (ks :: i64 list))) = length ks * 8"
  by (induction ks) simp_all

lemma key_at_group_key:
  assumes "k < length cols"
  shows "key_at (group_key cols br) k = key_values cols br ! k"
proof -
  let ?ks = "key_values cols br"
  have k: "k < length ?ks" using assms by (simp add: key_values_def)
  then have "drop (k * 8) (group_key cols br) = to_le 8 (?ks ! k) @ concat (map (to_le 8) (drop (Suc k) ?ks))"
    unfolding group_key_def drop_concat_to_le [OF less_imp_le [OF k]] by (simp add: Cons_nth_drop_Suc [symmetric])
  moreover have "k * 8 + 8 \<le> length (group_key cols br)" using k by (simp add: group_key_def length_concat_to_le)
  ultimately show ?thesis by (simp add: key_at_def le_u64)
qed

lemma group_key_iff: "group_key cols a = group_key cols b \<longleftrightarrow> key_values cols a = key_values cols b"
proof
  assume eq: "group_key cols a = group_key cols b"
  show "key_values cols a = key_values cols b"
  proof (rule nth_equalityI)
    fix i assume "i < length (key_values cols a)"
    then have "i < length cols" by (simp add: key_values_def)
    then show "key_values cols a ! i = key_values cols b ! i"
      using key_at_group_key [of i cols a] key_at_group_key [of i cols b] eq by simp
  qed (simp add: key_values_def)
qed (simp add: group_key_def)

definition out_row :: "nat list \<Rightarrow> agg_spec list \<Rightarrow> bytes \<times> group_state list \<Rightarrow> 'v cell list" where
  "out_row cols specs e =
     map (\<lambda>v. CI64 (Some v)) (map (key_at (fst e)) [0..<length cols] @
       map (\<lambda>i. group_result (as_op (specs ! i)) (snd e ! i)) [0..<length specs])"

lemma finish_rows:
  assumes "ga_agg_specs ga \<noteq> []"
  shows "\<exists>out :: 'v chunk. group_by_finish ord ga = Some out \<and>
    rows out = map (out_row (ga_group_key_cols ga) (ga_agg_specs ga)) (hm_entries ord (ga_state ga))"
proof -
  let ?es = "hm_entries ord (ga_state ga)" and ?n = "length (ga_group_key_cols ga)" and ?m = "length (ga_agg_specs ga)"
  define cs :: "'v column list" where "cs = map I64Array (map (\<lambda>k. map (\<lambda>e. Some (key_at (fst e) k)) ?es) [0..<?n] @
    map (\<lambda>i. map (\<lambda>e. Some (group_result (as_op (ga_agg_specs ga ! i)) (snd e ! i))) ?es) [0..<?m])"
  have col: "\<forall>c \<in> set cs. col_len c = length ?es" by (auto simp: cs_def col_len_def)
  have "cs \<noteq> []" using assms by (simp add: cs_def)
  with col have len: "chunk_len cs = length ?es" by (cases cs) (simp_all add: chunk_len_def)
  have "chunk_new cs = Some cs" using col by (simp add: chunk_new_def list_all_iff len)
  then have "group_by_finish ord ga = Some cs" by (simp only: group_by_finish_def Let_def cs_def [symmetric])
  moreover have "rows cs = map (out_row (ga_group_key_cols ga) (ga_agg_specs ga)) ?es"
    unfolding rows_def len by (rule nth_equalityI) (simp_all add: row_def cs_def cell_def comp_def out_row_def)
  ultimately show ?thesis by blast
qed

text \<open>The reference: one output row for each combination of key values, with the aggregates over
  exactly the rows that have it.  An aggregate is taken over the non-null values of its column: the
  sum modulo 2^64, the number of values (for COUNT DISTINCT as well), the signed minimum and
  maximum, 0 when there is no value.\<close>

definition agg_value :: "agg_op \<Rightarrow> i64 list \<Rightarrow> i64" where
  "agg_value op vs =
     (case op of
        AggSum \<Rightarrow> sum_list vs
      | AggCount \<Rightarrow> of_nat (length vs)
      | AggCountDistinct \<Rightarrow> of_nat (length vs)
      | AggMin \<Rightarrow> if vs = [] then 0 else word_of_int (Min (sint ` set vs))
      | AggMax \<Rightarrow> if vs = [] then 0 else word_of_int (Max (sint ` set vs)))"

lemma iter_min_Min: "iter_min (map sint (v # vs)) = Some (Min (sint ` set (v # vs)))"
proof (cases "iter_min (map sint (v # vs))")
  case (Some m)
  from iter_min_Some [OF this] have "Min (sint ` set (v # vs)) = m" by (intro Min_eqI) auto
  with Some show ?thesis by simp
qed simp

lemma iter_max_Max: "iter_max (map sint (v # vs)) = Some (Max (sint ` set (v # vs)))"
proof (cases "iter_max (map sint (v # vs))")
  case (Some m)
  from iter_max_Some [OF this] have "Max (sint ` set (v # vs)) = m" by (intro Max_eqI) auto
  with Some show ?thesis by simp
qed simp

lemma sint_option_eq: "map_option sint w = Some z \<Longrightarrow> w = Some (word_of_int z :: i64)"
  by auto

lemma group_result_value:
  "group_result op (agg_group (agg_i64 vs)) = agg_value op (List.map_filter id vs)"
proof (cases "List.map_filter id vs")
  case Nil
  then show ?thesis using agg_i64_correct [THEN conjunct2, of vs]
    by (simp add: group_result_def agg_group_def agg_value_def iter_min_def iter_max_def split: agg_op.split)
next
  case (Cons x xs)
  note agg = agg_i64_correct [THEN conjunct2, of vs, unfolded Cons iter_min_Min iter_max_Max]
  from agg have "ar_min (agg_i64 vs) = Some (word_of_int (Min (sint ` set (x # xs))))"
    "ar_max (agg_i64 vs) = Some (word_of_int (Max (sint ` set (x # xs))))"
    by (blast intro: sint_option_eq)+
  with agg show ?thesis unfolding Cons
    by (simp add: group_result_def agg_group_def agg_value_def split: agg_op.split)
qed

definition group_row :: "nat list \<Rightarrow> agg_spec list \<Rightarrow> ('v chunk \<times> nat) list \<Rightarrow> i64 list \<Rightarrow> 'v cell list" where
  "group_row cols specs rs ks =
     map (\<lambda>v. CI64 (Some v)) (ks @ map (\<lambda>sp. agg_value (as_op sp)
       (List.map_filter id (spec_values (filter (\<lambda>br. key_values cols br = ks) rs) sp))) specs)"

lemma entry_row:
  assumes "hash_order_ok ord" "e \<in> set (hm_entries ord (group_table cols specs rs))"
  obtains br where "br \<in> set rs" "fst e = group_key cols br"
    "out_row cols specs e = group_row cols specs rs (key_values cols br)"
proof -
  have "group_table cols specs rs (fst e) = Some (snd e)"
    using set_hm_entries [OF assms(1) finite_group_table [of cols specs rs], of "fst e" "snd e"] assms(2) by simp
  then obtain br where br: "br \<in> set rs" "fst e = group_key cols br"
    and snd: "snd e = map (\<lambda>sp. group_of (spec_values (filter (\<lambda>b. group_key cols b = fst e) rs) sp)) specs"
    by (auto simp: group_table_def Let_def filter_empty_conv split: if_splits)
  have keys: "map (key_at (fst e)) [0..<length cols] = key_values cols br"
    by (rule nth_equalityI) (simp_all add: br key_at_group_key, simp_all add: key_values_def)
  have "map (\<lambda>i. group_result (as_op (specs ! i)) (snd e ! i)) [0..<length specs] =
      map (\<lambda>sp. agg_value (as_op sp)
       (List.map_filter id (spec_values (filter (\<lambda>b. key_values cols b = key_values cols br) rs) sp))) specs"
    by (rule nth_equalityI) (simp_all add: snd br group_key_iff group_of_agg group_result_value)
  then have "out_row cols specs e = group_row cols specs rs (key_values cols br)"
    unfolding out_row_def group_row_def keys by (rule arg_cong)
  with br show ?thesis by (rule that)
qed

lemma group_table_key: "br \<in> set rs \<Longrightarrow> group_table cols specs rs (group_key cols br) \<noteq> None"
  by (auto simp: group_table_def Let_def filter_empty_conv)

lemma take_group_row:
  "take (length cols) (group_row cols specs rs (key_values cols br)) = map (\<lambda>v. CI64 (Some v)) (key_values cols br)"
  by (simp add: group_row_def key_values_def)

lemma out_rows_distinct:
  fixes rs :: "('v chunk \<times> nat) list"
  assumes "hash_order_ok ord"
  shows "distinct (map (take (length cols)) (map (out_row cols specs :: _ \<Rightarrow> 'v cell list) (hm_entries ord (group_table cols specs rs))))"
proof -
  let ?es = "hm_entries ord (group_table cols specs rs)" and ?row = "out_row cols specs :: _ \<Rightarrow> 'v cell list"
  have ent: "x = y" if "x \<in> set ?es" "y \<in> set ?es" "fst x = fst y" for x y
  proof -
    have "group_table cols specs rs (fst z) = Some (snd z)" if "z \<in> set ?es" for z
      using that set_hm_entries [OF assms finite_group_table [of cols specs rs], of "fst z" "snd z"] by simp
    from this [OF that(1)] this [OF that(2)] that(3) show ?thesis by (simp add: prod_eq_iff)
  qed
  have inj: "inj_on (\<lambda>e. take (length cols) (?row e)) (set ?es)"
  proof (rule inj_onI)
    fix x y assume x: "x \<in> set ?es" and y: "y \<in> set ?es" and eq: "take (length cols) (?row x) = take (length cols) (?row y)"
    obtain b where b: "b \<in> set rs" "fst x = group_key cols b" "?row x = group_row cols specs rs (key_values cols b)"
      by (rule entry_row [OF assms x])
    obtain c where c: "c \<in> set rs" "fst y = group_key cols c" "?row y = group_row cols specs rs (key_values cols c)"
      by (rule entry_row [OF assms y])
    have "inj (\<lambda>v. CI64 (Some v) :: 'v cell)" by (simp add: inj_def)
    moreover have "map (\<lambda>v. CI64 (Some v) :: 'v cell) (key_values cols b) = map (\<lambda>v. CI64 (Some v)) (key_values cols c)"
      using eq unfolding b(3) c(3) take_group_row .
    ultimately have "key_values cols b = key_values cols c" by (rule map_injective [rotated])
    then have "fst x = fst y" unfolding b(2) c(2) group_key_iff .
    with x y show "x = y" by (rule ent)
  qed
  have "distinct ?es"
    using distinct_hm_entries [OF assms finite_group_table [of cols specs rs]] by (simp add: distinct_map)
  with inj show ?thesis by (simp add: distinct_map comp_def)
qed

text \<open>C13. Distributed grouping is exact: two executors that accumulated different batches and were
  merged finish with a batch that has exactly one row for every combination of group key values
  (a null counts as the smallest integer), carrying for every aggregate its value over all rows of
  both sides with that key: the wrapping sum, the number of non-null values (COUNT DISTINCT counts
  them without removing duplicates), the signed minimum or maximum, 0 without values.  No row
  order, batch boundary or hash order matters.  There is at least one aggregate.\<close>

theorem distributed_group_by_exact:
  fixes as bs :: "'v chunk list"
  assumes "hash_order_ok ord" and "hash_order_ok ord'" and "specs \<noteq> []"
  shows "\<exists>out :: 'v chunk. group_by_finish ord' (group_by_merge ord (fold accumulate as (group_by_new cols specs))
      (fold accumulate bs (group_by_new cols specs))) = Some out \<and>
    set (rows out) = group_row cols specs (batch_rows (as @ bs)) ` key_values cols ` set (batch_rows (as @ bs)) \<and>
    distinct (map (take (length cols)) (rows out))"
proof -
  let ?rs = "batch_rows (as @ bs)" and ?t = "group_table cols specs (batch_rows (as @ bs))"
  define ga where "ga = (group_by_new cols specs)\<lparr>ga_state := ?t\<rparr>"
  have merged: "group_by_merge ord (fold accumulate as (group_by_new cols specs))
      (fold accumulate bs (group_by_new cols specs)) = ga"
    unfolding accumulate_rows merge_tables [OF assms(1)] unfolding accumulated ga_def by simp
  let ?row = "out_row cols specs :: _ \<Rightarrow> 'v cell list" and ?es = "hm_entries ord' ?t"
  obtain out :: "'v chunk" where out: "group_by_finish ord' ga = Some out" "rows out = map ?row ?es"
    using finish_rows [of ga ord', where 'v = 'v] assms(3) by (auto simp: ga_def group_by_new_def)
  have "?row e \<in> group_row cols specs ?rs ` key_values cols ` set ?rs" if "e \<in> set ?es" for e
    using entry_row [OF assms(2) that] by (metis image_eqI)
  then have "set (rows out) \<subseteq> group_row cols specs ?rs ` key_values cols ` set ?rs" unfolding out(2) by auto
  moreover have "group_row cols specs ?rs (key_values cols br) \<in> set (rows out)" if br: "br \<in> set ?rs" for br
  proof -
    obtain sts where "?t (group_key cols br) = Some sts" using group_table_key [OF br, of cols specs] by blast
    then have e: "(group_key cols br, sts) \<in> set ?es" using set_hm_entries [OF assms(2) finite_group_table [of cols specs ?rs]] by blast
    obtain br' where "br' \<in> set ?rs" "fst (group_key cols br, sts) = group_key cols br'"
      "?row (group_key cols br, sts) = group_row cols specs ?rs (key_values cols br')"
      by (rule entry_row [OF assms(2) e])
    then have "?row (group_key cols br, sts) = group_row cols specs ?rs (key_values cols br)"
      by (simp add: group_key_iff)
    then show ?thesis unfolding out(2) using e by (metis image_eqI list.set_map)
  qed
  moreover have "distinct (map (take (length cols)) (rows out))"
    unfolding out(2) by (rule out_rows_distinct [OF assms(2)])
  ultimately show ?thesis unfolding merged using out(1) by (intro exI [of _ out]) blast
qed


section \<open>Witness\<close>

theorem distributed_group_by_exact_witness:
  "let cols = [0]; specs = [\<lparr>as_col_idx = 1, as_op = AggSum, as_alias = ''s''\<rparr>];
       as = [[I64Array [Some 1, None], I64Array [Some 10, Some 20]]] :: unit chunk list;
       bs = [[I64Array [Some 1], I64Array [Some 5]]] :: unit chunk list
   in \<exists>out :: unit chunk. group_by_finish sorted_order (group_by_merge sorted_order (fold accumulate as (group_by_new cols specs))
      (fold accumulate bs (group_by_new cols specs))) = Some out \<and>
    set (rows out) = {[CI64 (Some 1), CI64 (Some 15)], [CI64 (Some i64_MIN), CI64 (Some 20)]} \<and>
    distinct (map (take 1) (rows out))"
proof -
  let ?specs = "[\<lparr>as_col_idx = 1, as_op = AggSum, as_alias = ''s''\<rparr>]"
  let ?as = "[[I64Array [Some 1, None], I64Array [Some 10, Some 20]]] :: unit chunk list"
  let ?bs = "[[I64Array [Some 1], I64Array [Some 5]]] :: unit chunk list"
  have ne: "i64_MIN \<noteq> 1" by (simp add: i64_MIN_def)
  have rs: "batch_rows (?as @ ?bs) = [(hd ?as, 0), (hd ?as, 1), (hd ?bs, 0)]"
    by (simp add: batch_rows_def chunk_len_def col_len_def upt_rec)
  have ks: "key_values [0] (hd ?as, 0) = [1]" "key_values [0] (hd ?as, 1) = [i64_MIN]" "key_values [0] (hd ?bs, 0) = [1]"
    by (simp_all add: key_values_def extract_i64_value_def extract_i64_def)
  have r1: "group_row [0] ?specs (batch_rows (?as @ ?bs)) [1] = [CI64 (Some 1), CI64 (Some 15)]"
    unfolding rs group_row_def by (simp add: key_values_def ne ne [symmetric] spec_values_def extract_i64_value_def extract_i64_def
      agg_value_def map_filter_simps)
  have r2: "group_row [0] ?specs (batch_rows (?as @ ?bs)) [i64_MIN] = [CI64 (Some i64_MIN), CI64 (Some 20)]"
    unfolding rs group_row_def by (simp add: key_values_def ne ne [symmetric] spec_values_def extract_i64_value_def extract_i64_def
      agg_value_def map_filter_simps)
  have img: "group_row [0] ?specs (batch_rows (?as @ ?bs)) ` key_values [0] ` set (batch_rows (?as @ ?bs)) =
      {[CI64 (Some 1), CI64 (Some 15)], [CI64 (Some i64_MIN), CI64 (Some 20)]}"
    using r1 r2 unfolding rs by (simp add: ks [simplified] insert_commute)
  show ?thesis
    using distributed_group_by_exact [OF sorted_order_ok sorted_order_ok, of ?specs ?as "[0]" ?bs]
    unfolding img Let_def by simp
qed

end
