(* ===== verification/RuntimeFilter.thy ===== *)
theory RuntimeFilter
  imports Joins
begin

text \<open>
  Runtime filters (\<open>compute-node/src/runtime_filter.rs\<close>): the builder that collects the keys of
  the build side of a join, the choice between a list and a range, and the filter on the probe
  side. The property composes the filter with the hash join of \<open>Joins\<close>.
\<close>

datatype runtime_filter =
    RfBloom string bytes
  | RfInList string "i64 list"
  | RfMinMax string i64 i64

definition test_i64 :: "runtime_filter \<Rightarrow> i64 \<Rightarrow> bool" where
  "test_i64 f val =
     (case f of
        RfInList _ vals \<Rightarrow> val \<in> set vals
      | RfMinMax _ lo hi \<Rightarrow> i64_le lo val \<and> i64_le val hi
      | RfBloom _ _ \<Rightarrow> True)"

record filter_builder =
  fb_column :: string
  fb_values :: "i64 list"
  fb_min :: "i64 option"
  fb_max :: "i64 option"
  fb_max_inlist :: nat

definition builder_new :: "string \<Rightarrow> nat \<Rightarrow> filter_builder" where
  "builder_new column max_inlist =
     \<lparr>fb_column = column, fb_values = [], fb_min = None, fb_max = None, fb_max_inlist = max_inlist\<rparr>"

definition add_value :: "i64 \<Rightarrow> filter_builder \<Rightarrow> filter_builder" where
  "add_value val fb =
     fb\<lparr>fb_values := fb_values fb @ [val],
        fb_min := Some (case fb_min fb of None \<Rightarrow> val | Some m \<Rightarrow> i64_min m val),
        fb_max := Some (case fb_max fb of None \<Rightarrow> val | Some m \<Rightarrow> i64_max m val)\<rparr>"

definition i64_MAX :: i64 where
  "i64_MAX = mask 63"

definition builder_build :: "filter_builder \<Rightarrow> runtime_filter option" where
  "builder_build fb =
     (if fb_values fb = [] then None
      else (let vals = remdups_adj (sort_key sint (fb_values fb));
                ndv = length vals
            in if ndv \<le> fb_max_inlist fb then Some (RfInList (fb_column fb) vals)
               else Some (RfMinMax (fb_column fb)
                      (case fb_min fb of None \<Rightarrow> i64_MIN | Some m \<Rightarrow> m)
                      (case fb_max fb of None \<Rightarrow> i64_MAX | Some m \<Rightarrow> m))))"

definition apply_runtime_filter_i64 :: "i64 option list \<Rightarrow> runtime_filter \<Rightarrow> nat list" where
  "apply_runtime_filter_i64 vals f = positions (\<lambda>v. case v of None \<Rightarrow> False | Some val \<Rightarrow> test_i64 f val) vals"

section \<open>The filter accepts every collected value\<close>

definition builder_covers :: "filter_builder \<Rightarrow> bool" where
  "builder_covers fb \<longleftrightarrow>
     (\<forall>v \<in> set (fb_values fb). \<exists>lo hi. fb_min fb = Some lo \<and> fb_max fb = Some hi \<and> i64_le lo v \<and> i64_le v hi)"

lemma builder_covers_add: "builder_covers fb \<Longrightarrow> builder_covers (add_value v fb)"
  unfolding builder_covers_def add_value_def
  by (cases "fb_min fb"; cases "fb_max fb") (force simp: i64_le_def i64_min_def i64_max_def)+

lemma builder_fold:
  "builder_covers fb \<Longrightarrow> builder_covers (fold add_value vs fb) \<and> fb_values (fold add_value vs fb) = fb_values fb @ vs"
proof (induction vs arbitrary: fb)
  case (Cons v vs)
  from Cons.IH [OF builder_covers_add [OF Cons.prems, of v]] show ?case by (simp add: add_value_def)
qed simp

lemma build_accepts:
  assumes "builder_build (fold add_value vs (builder_new column n)) = Some f" and "v \<in> set vs"
  shows "test_i64 f v"
proof -
  let ?fb = "fold add_value vs (builder_new column n)"
  have "builder_covers (builder_new column n)" by (simp add: builder_covers_def builder_new_def)
  from builder_fold [OF this, of vs] have fb: "builder_covers ?fb" "fb_values ?fb = vs" by (simp_all add: builder_new_def)
  then obtain lo hi where b: "fb_min ?fb = Some lo" "fb_max ?fb = Some hi" "i64_le lo v" "i64_le v hi"
    using assms(2) unfolding builder_covers_def by force
  have "f = RfInList (fb_column ?fb) (remdups_adj (sort_key sint vs)) \<or> f = RfMinMax (fb_column ?fb) lo hi"
    using assms(1) by (auto simp: builder_build_def Let_def fb(2) b(1,2) split: if_splits)
  then show ?thesis using assms(2) b by (auto simp: test_i64_def)
qed

section \<open>Filtering the probe side\<close>

lemma keys_take:
  assumes "chunk_wf b" "list_all (\<lambda>i. i < chunk_len b) is"
  shows "extract_i64_keys (map (\<lambda>c. col_take c is) b) pc = map ((!) (extract_i64_keys b pc)) is"
proof -
  have len: "chunk_len (map (\<lambda>c. col_take c is) b) = length is"
    using assms(2) by (cases b; cases "is") (simp_all add: chunk_len_def)
  have none: "replicate (length is) None = map ((!) (replicate (chunk_len b) None)) is"
    using assms(2) by (auto simp: list_all_iff intro!: nth_equalityI)
  show ?thesis
  proof (cases "pc < length b")
    case True
    show ?thesis
    proof (cases "b ! pc")
      case (I64Array xs)
      with True show ?thesis
        using map_nth [of "map ((!) xs) is"] by (simp add: extract_i64_keys_def col_take_def map_nth)
    next
      case (OtherArray xs)
      moreover have "col_take (OtherArray xs) is = OtherArray (map ((!) xs) is)" for xs :: "'a list"
        by (simp add: col_take_def)
      ultimately show ?thesis using True none by (simp add: extract_i64_keys_def len)
    qed
  next
    case False
    with none show ?thesis by (simp add: extract_i64_keys_def len)
  qed
qed

lemma concat_map_filter: "(\<And>x. x \<in> set xs \<Longrightarrow> \<not> P x \<Longrightarrow> F x = []) \<Longrightarrow> concat (map F (filter P xs)) = concat (map F xs)"
  by (induction xs) auto

lemma filtered_nested_loop:
  assumes wf: "chunk_wf probe"
    and acc: "\<And>v. Some v \<in> set (extract_i64_keys build bc) \<Longrightarrow> test_i64 f v"
    and is': "is = apply_runtime_filter_i64 (extract_i64_keys probe pc) f"
  shows "nested_loop_join build bc (map (\<lambda>c. col_take c is) probe) pc = nested_loop_join build bc probe pc"
proof -
  let ?bk = "extract_i64_keys build bc" and ?pk = "extract_i64_keys probe pc" and ?probe = "map (\<lambda>c. col_take c is) probe"
  let ?F = "\<lambda>p. map (\<lambda>b. row build b @ row probe p) (filter (\<lambda>b. ?pk ! p \<noteq> None \<and> ?bk ! b = ?pk ! p) [0..<length ?bk])"
  let ?P = "\<lambda>p. case ?pk ! p of None \<Rightarrow> False | Some val \<Rightarrow> test_i64 f val"
  have "list_all (\<lambda>i. i < chunk_len probe) is"
    using length_keys [OF wf, of pc] by (auto simp: is' apply_runtime_filter_i64_def list_all_iff)
  from keys_take [OF wf this] have keys: "extract_i64_keys ?probe pc = map ((!) ?pk) is" .
  have "nested_loop_join build bc ?probe pc = concat (map (\<lambda>j. ?F (is ! j)) [0..<length is])"
    unfolding nested_loop_join_def Let_def keys
    by (intro arg_cong [where f = concat]) (auto simp: row_take intro!: filter_cong)
  also have "\<dots> = concat (map ?F is)"
    by (intro arg_cong [where f = concat]) (rule nth_equalityI, simp_all)
  also have "\<dots> = concat (map ?F (filter ?P [0..<length ?pk]))"
    unfolding is' apply_runtime_filter_i64_def positions_def ..
  also have "concat (map ?F (filter ?P [0..<length ?pk])) = concat (map ?F [0..<length ?pk])"
  proof (rule concat_map_filter)
    fix p assume "\<not> ?P p"
    moreover have "test_i64 f v" if "b < length ?bk" "?bk ! b = Some v" for b v
      using that by (intro acc) (metis nth_mem)
    ultimately show "?F p = []" by (cases "?pk ! p") (auto simp: filter_empty_conv)
  qed
  also have "\<dots> = nested_loop_join build bc probe pc" by (simp only: nested_loop_join_def Let_def)
  finally show ?thesis .
qed

text \<open>C14. Runtime filters are transparent: collecting the non-null keys of the build side, selecting
  the probe rows that pass the built filter and joining them gives exactly the rows, in the same
  order, of the join without the filter, whether the builder chose a list or a range.  Both batches
  have columns of one length with at most 2^32 rows, and the build side has a non-null key, without
  which no filter is built.\<close>

theorem runtime_filter_keeps_join:
  assumes "take_ok tk" and "chunk_wf build" and "chunk_wf probe"
    and "build \<noteq> []" and "chunk_len build \<le> 2 ^ 32" and "chunk_len probe \<le> 2 ^ 32"
    and "builder_build (fold add_value (List.map_filter id (extract_i64_keys build bc)) (builder_new column n)) = Some f"
  shows "\<exists>probe' out. apply_selection tk probe (apply_runtime_filter_i64 (extract_i64_keys probe pc) f) = Some probe' \<and>
    hash_probe tk (hash_build build bc) probe' pc = Some out \<and> rows out = nested_loop_join build bc probe pc"
proof -
  let ?is = "apply_runtime_filter_i64 (extract_i64_keys probe pc) f"
  let ?probe = "map (\<lambda>c. col_take c ?is) probe"
  have "list_all (\<lambda>i. i < chunk_len probe) ?is"
    using length_keys [OF assms(3), of pc] by (auto simp: apply_runtime_filter_i64_def list_all_iff)
  then have sel: "apply_selection tk probe ?is = Some ?probe" using assms(1,3,6) by (intro apply_selection_ok)
  have "length ?is \<le> length (extract_i64_keys probe pc)"
    unfolding apply_runtime_filter_i64_def positions_def using length_filter_le [of _ "[0..<length (extract_i64_keys probe pc)]"] by simp
  then have len: "chunk_len ?probe \<le> 2 ^ 32"
    using length_keys [OF assms(3), of pc] assms(6) by (cases probe) (simp_all add: chunk_len_def)
  have wf: "chunk_wf ?probe" by (cases probe) (simp_all add: chunk_wf_def chunk_len_def list_all_iff)
  have "test_i64 f v" if "Some v \<in> set (extract_i64_keys build bc)" for v
    using that by (intro build_accepts [OF assms(7)]) (force simp: List.map_filter_def)
  from filtered_nested_loop [OF assms(3) this refl, where pc = pc] hash_probe_rows [OF assms(1,2) wf assms(4,5) len, of bc pc]
  show ?thesis using sel by auto
qed

theorem runtime_filter_keeps_join_witness:
  "let build = [I64Array [Some 3, None, Some 7]] :: unit chunk; probe = [I64Array [Some 7, Some 4, None]] :: unit chunk
   in \<exists>f probe' out.
     builder_build (fold add_value (List.map_filter id (extract_i64_keys build 0)) (builder_new ''k'' 1)) = Some f \<and>
     apply_selection ref_take probe (apply_runtime_filter_i64 (extract_i64_keys probe 0) f) = Some probe' \<and>
     hash_probe ref_take (hash_build build 0) probe' 0 = Some out \<and> rows out = nested_loop_join build 0 probe 0"
proof -
  let ?b = "[I64Array [Some 3, None, Some 7]] :: unit chunk" and ?p = "[I64Array [Some 7, Some 4, None]] :: unit chunk"
  have wf: "chunk_wf ?b" "chunk_wf ?p" "chunk_len ?b \<le> 2 ^ 32" "chunk_len ?p \<le> 2 ^ 32"
    by (simp_all add: chunk_wf_def chunk_len_def col_len_def)
  have "builder_build (fold add_value (List.map_filter id (extract_i64_keys ?b 0)) (builder_new ''k'' 1)) \<noteq> None"
    by (simp add: extract_i64_keys_def map_filter_simps builder_build_def add_value_def builder_new_def Let_def)
  then obtain f where f: "builder_build (fold add_value (List.map_filter id (extract_i64_keys ?b 0)) (builder_new ''k'' 1)) = Some f"
    by blast
  from runtime_filter_keeps_join [OF ref_take_ok wf(1,2) _ wf(3,4) f, of 0] f show ?thesis by (simp add: Let_def)
qed

end
