(* ===== verification/Cluster.thy ===== *)
theory Cluster
  imports Prelude
begin

text \<open>
  Cluster membership and the placement of shards (\<open>shared/src/cluster.rs\<close>,
  \<open>query-node/src/meta/cluster_topology.rs\<close>, \<open>query-node/src/planner/shard_placement.rs\<close>): the
  node registry with its state transitions and heartbeats, and the choice of storage nodes for new
  shards. The clock is an argument; for the eviction it may differ from node to node, as the code
  reads it for each.
\<close>

section \<open>Nodes\<close>

datatype node_type = QueryNode | ComputeNode | StorageNode

datatype node_state = NodeActive | NodeReadonly | NodeDraining

text \<open>Instants are nanoseconds since the Unix epoch.\<close>

record node_info =
  ni_node_id :: string
  ni_node_type :: node_type
  ni_state :: node_state
  ni_grpc_addr :: string
  ni_mysql_addr :: "string option"
  ni_http_addr :: "string option"
  ni_registered_at :: int
  ni_last_heartbeat :: int

definition node_info_new :: "int \<Rightarrow> string \<Rightarrow> node_type \<Rightarrow> string \<Rightarrow> node_info" where
  "node_info_new now nid ty addr =
     \<lparr>ni_node_id = nid, ni_node_type = ty, ni_state = NodeActive, ni_grpc_addr = addr, ni_mysql_addr = None,
      ni_http_addr = None, ni_registered_at = now, ni_last_heartbeat = now\<rparr>"

definition is_eligible_for_placement :: "node_info \<Rightarrow> bool" where
  "is_eligible_for_placement n \<longleftrightarrow> ni_state n = NodeActive"

definition is_active_storage :: "node_info \<Rightarrow> bool" where
  "is_active_storage n \<longleftrightarrow> ni_node_type n = StorageNode \<and> ni_state n = NodeActive"

section \<open>The registry\<close>

type_synonym topology = "string \<rightharpoonup> node_info"

datatype topology_error = NodeNotFound string

definition register_node :: "node_info \<Rightarrow> topology \<Rightarrow> topology" where
  "register_node n t = t(ni_node_id n \<mapsto> n)"

definition remove_node :: "string \<Rightarrow> topology \<Rightarrow> topology \<times> (topology_error + node_info)" where
  "remove_node nid t =
     (case t nid of None \<Rightarrow> (t, Inl (NodeNotFound nid)) | Some n \<Rightarrow> (t(nid := None), Inr n))"

definition transition :: "string \<Rightarrow> node_state \<Rightarrow> topology \<Rightarrow> topology \<times> (topology_error + unit)" where
  "transition nid new_state t =
     (case t nid of
        None \<Rightarrow> (t, Inl (NodeNotFound nid))
      | Some n \<Rightarrow> (t(nid \<mapsto> n\<lparr>ni_state := new_state\<rparr>), Inr ()))"

definition set_readonly :: "string \<Rightarrow> topology \<Rightarrow> topology \<times> (topology_error + unit)" where
  "set_readonly nid = transition nid NodeReadonly"

definition set_draining :: "string \<Rightarrow> topology \<Rightarrow> topology \<times> (topology_error + unit)" where
  "set_draining nid = transition nid NodeDraining"

definition set_active :: "string \<Rightarrow> topology \<Rightarrow> topology \<times> (topology_error + unit)" where
  "set_active nid = transition nid NodeActive"

definition node_heartbeat :: "int \<Rightarrow> string \<Rightarrow> topology \<Rightarrow> topology \<times> (topology_error + unit)" where
  "node_heartbeat now nid t =
     (case t nid of
        None \<Rightarrow> (t, Inl (NodeNotFound nid))
      | Some n \<Rightarrow> (t(nid \<mapsto> n\<lparr>ni_last_heartbeat := now\<rparr>), Inr ()))"

definition heartbeat_timeout :: int where
  "heartbeat_timeout = 30 * 10 ^ 9"

text \<open>A negative age does not convert to a \<open>Duration\<close>; the code then takes the largest one.\<close>

definition is_stale :: "int \<Rightarrow> node_info \<Rightarrow> bool" where
  "is_stale now n \<longleftrightarrow>
     (let age = now - ni_last_heartbeat n in (age < 0 \<or> heartbeat_timeout < age) \<and> ni_state n = NodeActive)"

definition evict_stale_nodes ::
  "(string, node_info) hash_order \<Rightarrow> (string \<Rightarrow> int) \<Rightarrow> topology \<Rightarrow> topology \<times> string list" where
  "evict_stale_nodes ord clock t =
     ((\<lambda>nid. map_option (\<lambda>n. if is_stale (clock nid) n then n\<lparr>ni_state := NodeDraining\<rparr> else n) (t nid)),
      map fst (filter (\<lambda>e. is_stale (clock (fst e)) (snd e)) (hm_entries ord t)))"

definition active_nodes_of_type :: "(string, node_info) hash_order \<Rightarrow> node_type \<Rightarrow> topology \<Rightarrow> node_info list" where
  "active_nodes_of_type ord ty t =
     filter (\<lambda>n. ni_node_type n = ty \<and> ni_state n = NodeActive) (map snd (hm_entries ord t))"

definition eligible_storage_nodes :: "(string, node_info) hash_order \<Rightarrow> topology \<Rightarrow> node_info list" where
  "eligible_storage_nodes ord t = active_nodes_of_type ord StorageNode t"

record topology_summary =
  ts_total :: nat
  ts_query_nodes :: nat
  ts_compute_nodes :: nat
  ts_storage_nodes :: nat
  ts_active_count :: nat
  ts_readonly_count :: nat
  ts_draining_count :: nat

definition summarize_node :: "node_info \<Rightarrow> topology_summary \<Rightarrow> topology_summary" where
  "summarize_node n s =
     (let s = (case ni_node_type n of
                 QueryNode \<Rightarrow> s\<lparr>ts_query_nodes := ts_query_nodes s + 1\<rparr>
               | ComputeNode \<Rightarrow> s\<lparr>ts_compute_nodes := ts_compute_nodes s + 1\<rparr>
               | StorageNode \<Rightarrow> s\<lparr>ts_storage_nodes := ts_storage_nodes s + 1\<rparr>)
      in case ni_state n of
           NodeActive \<Rightarrow> s\<lparr>ts_active_count := ts_active_count s + 1\<rparr>
         | NodeReadonly \<Rightarrow> s\<lparr>ts_readonly_count := ts_readonly_count s + 1\<rparr>
         | NodeDraining \<Rightarrow> s\<lparr>ts_draining_count := ts_draining_count s + 1\<rparr>)"

definition topology_summary_of :: "(string, node_info) hash_order \<Rightarrow> topology \<Rightarrow> topology_summary" where
  "topology_summary_of ord t =
     (let es = hm_entries ord t
      in (fold (\<lambda>e. summarize_node (snd e)) es
            \<lparr>ts_total = 0, ts_query_nodes = 0, ts_compute_nodes = 0, ts_storage_nodes = 0,
             ts_active_count = 0, ts_readonly_count = 0, ts_draining_count = 0\<rparr>)\<lparr>ts_total := length es\<rparr>)"

section \<open>Placement\<close>

datatype placement_strategy = RoundRobin | LeastLoaded

datatype placement_error = NoActiveNodes | TooFewNodes nat nat | NoActiveNodesForBuckets

definition by_node_id :: "node_info list \<Rightarrow> node_info list" where
  "by_node_id ns = sort_key ni_node_id ns"

definition select_nodes ::
  "(string, node_info) hash_order \<Rightarrow> placement_strategy \<Rightarrow> nat \<Rightarrow> topology \<Rightarrow> placement_error + node_info list" where
  "select_nodes ord strategy cnt t =
     (let active_sns = eligible_storage_nodes ord t
      in if active_sns = [] then Inl NoActiveNodes
         else if length active_sns < cnt then Inl (TooFewNodes cnt (length active_sns))
         else Inr (case strategy of
                     RoundRobin \<Rightarrow> take cnt (by_node_id active_sns)
                   | LeastLoaded \<Rightarrow> take cnt (by_node_id active_sns)))"

definition assign_buckets ::
  "(string, node_info) hash_order \<Rightarrow> nat \<Rightarrow> nat \<Rightarrow> topology \<Rightarrow> placement_error + string list list" where
  "assign_buckets ord bucket_count replica_count t =
     (let active_sns = eligible_storage_nodes ord t
      in if active_sns = [] then Inl NoActiveNodesForBuckets
         else (let sorted = by_node_id active_sns; n = length sorted
               in Inr (map (\<lambda>i. map (\<lambda>r. ni_node_id (sorted ! ((i + r) mod n))) [0..<min replica_count n])
                    [0..<bucket_count])))"

section \<open>The registry is consistent\<close>

text \<open>Every entry is stored under its own identifier; the operations keep that, whatever their order.\<close>

datatype topology_op =
    TRegister node_info
  | TRemove string
  | TTransition string node_state
  | THeartbeat int string
  | TEvict "string \<Rightarrow> int"

fun topology_step :: "(string, node_info) hash_order \<Rightarrow> topology_op \<Rightarrow> topology \<Rightarrow> topology" where
  "topology_step ord (TRegister n) t = register_node n t"
| "topology_step ord (TRemove nid) t = fst (remove_node nid t)"
| "topology_step ord (TTransition nid s) t = fst (transition nid s t)"
| "topology_step ord (THeartbeat now nid) t = fst (node_heartbeat now nid t)"
| "topology_step ord (TEvict clock) t = fst (evict_stale_nodes ord clock t)"

definition topology_ok :: "topology \<Rightarrow> bool" where
  "topology_ok t \<longleftrightarrow> finite (dom t) \<and> (\<forall>k n. t k = Some n \<longrightarrow> ni_node_id n = k)"

lemma topology_ok_step: "topology_ok t \<Longrightarrow> topology_ok (topology_step ord op t)"
proof (cases op)
  case (TEvict clock)
  have "dom (fst (evict_stale_nodes ord clock t)) = dom t" by (auto simp: evict_stale_nodes_def)
  moreover assume "topology_ok t"
  ultimately show ?thesis using TEvict by (auto simp: topology_ok_def) (auto simp: evict_stale_nodes_def)
qed (auto simp: topology_ok_def register_node_def remove_node_def transition_def node_heartbeat_def split: option.splits if_splits)

lemma topology_ok_run: "topology_ok (fold (topology_step ord) ops Map.empty)"
proof -
  have "topology_ok t \<Longrightarrow> topology_ok (fold (topology_step ord) ops t)" for t
    by (induction ops arbitrary: t) (simp_all add: topology_ok_step)
  moreover have "topology_ok Map.empty" by (simp add: topology_ok_def)
  ultimately show ?thesis .
qed

lemma mod_add_cancel:
  fixes i x y n :: nat
  assumes "(i + x) mod n = (i + y) mod n" "x < n" "y < n"
  shows "x = y"
  using assms
proof (induction x y rule: linorder_wlog)
  case (le x y)
  then have "n dvd (i + y) - (i + x)" by (metis add_le_cancel_left mod_eq_dvd_iff_nat)
  with le show ?case by (auto dest: dvd_imp_le)
qed simp

lemma eligible_nodes:
  assumes "hash_order_ok ord" "topology_ok t"
  shows "distinct (map ni_node_id (eligible_storage_nodes ord t))"
    and "n \<in> set (eligible_storage_nodes ord t) \<longleftrightarrow> t (ni_node_id n) = Some n \<and> is_active_storage n"
proof -
  have fin: "finite (dom t)" using assms(2) by (simp add: topology_ok_def)
  have ids: "ni_node_id (snd e) = fst e" if "e \<in> set (hm_entries ord t)" for e
    using that set_hm_entries [OF assms(1) fin, of "fst e" "snd e"] assms(2) by (simp add: topology_ok_def)
  then have eq: "map ni_node_id (map snd (hm_entries ord t)) = map fst (hm_entries ord t)" by simp
  have "distinct (map ni_node_id (map snd (hm_entries ord t)))"
    unfolding eq by (rule distinct_hm_entries [OF assms(1) fin])
  then show "distinct (map ni_node_id (eligible_storage_nodes ord t))"
    unfolding eligible_storage_nodes_def active_nodes_of_type_def by (rule distinct_map_filter)
  have "n \<in> snd ` set (hm_entries ord t) \<longleftrightarrow> t (ni_node_id n) = Some n"
  proof
    assume "n \<in> snd ` set (hm_entries ord t)"
    then obtain k where k: "(k, n) \<in> set (hm_entries ord t)" by force
    with ids [OF k] show "t (ni_node_id n) = Some n" by (simp add: set_hm_entries [OF assms(1) fin])
  next
    assume "t (ni_node_id n) = Some n"
    then have "(ni_node_id n, n) \<in> set (hm_entries ord t)" by (simp add: set_hm_entries [OF assms(1) fin])
    then show "n \<in> snd ` set (hm_entries ord t)" by force
  qed
  then show "n \<in> set (eligible_storage_nodes ord t) \<longleftrightarrow> t (ni_node_id n) = Some n \<and> is_active_storage n"
    by (auto simp: eligible_storage_nodes_def active_nodes_of_type_def is_active_storage_def)
qed

lemma eligible_ids:
  assumes "hash_order_ok ord" "topology_ok t"
  shows "set (map ni_node_id (eligible_storage_nodes ord t)) = {nid. \<exists>n. t nid = Some n \<and> is_active_storage n}" (is ?ids)
    and "length (eligible_storage_nodes ord t) = card {nid. \<exists>n. t nid = Some n \<and> is_active_storage n}"
proof -
  note el = eligible_nodes [OF assms]
  show ?ids
  proof (rule set_eqI)
    fix nid
    have "nid \<in> set (map ni_node_id (eligible_storage_nodes ord t)) \<longleftrightarrow>
        (\<exists>n. n \<in> set (eligible_storage_nodes ord t) \<and> ni_node_id n = nid)" by auto
    also have "\<dots> \<longleftrightarrow> (\<exists>n. t nid = Some n \<and> is_active_storage n)"
      unfolding el(2) using assms(2) by (auto simp: topology_ok_def)
    finally show "nid \<in> set (map ni_node_id (eligible_storage_nodes ord t)) \<longleftrightarrow>
        nid \<in> {nid. \<exists>n. t nid = Some n \<and> is_active_storage n}" by simp
  qed
  then show "length (eligible_storage_nodes ord t) = card {nid. \<exists>n. t nid = Some n \<and> is_active_storage n}"
    using distinct_card [OF el(1)] by simp
qed




text \<open>A heartbeat that lies in the future of the clock makes an active node stale at once.\<close>

lemma future_heartbeat_evicted:
  "is_stale 9 (node_info_new 10 nid StorageNode addr)"
  by (simp add: is_stale_def node_info_new_def)

end
