(* ===== verification/Rebalance.thy ===== *)
theory Rebalance
  imports Cluster
begin

text \<open>
  Rebalancing of shards (\<open>query-node/src/meta/rebalance/planner.rs\<close>, \<open>migrator.rs\<close>,
  \<open>coordinator.rs\<close>): the planner with its loop over donors, the four phases of a migration and
  one run of the coordinator. The loop is a partial function; it is proved to return and to hand
  out the surplus shards in order. The properties are about the distribution after a run.
\<close>

section \<open>The planner\<close>

record migration_plan =
  mp_shard_id :: uuid
  mp_from_sn :: string
  mp_to_sn :: string

type_synonym distribution = "uuid \<rightharpoonup> string"

definition div_ceil :: "nat \<Rightarrow> nat \<Rightarrow> nat" where
  "div_ceil a b = (a + b - 1) div b"

text \<open>The shards of every node, with an empty list for an eligible node that has none.\<close>

definition or_default :: "node_info \<Rightarrow> (string \<rightharpoonup> uuid list) \<Rightarrow> (string \<rightharpoonup> uuid list)" where
  "or_default n m = (case m (ni_node_id n) of None \<Rightarrow> m(ni_node_id n \<mapsto> []) | Some _ \<Rightarrow> m)"

definition build_sn_shards :: "(uuid \<times> string) list \<Rightarrow> node_info list \<Rightarrow> (string \<rightharpoonup> uuid list)" where
  "build_sn_shards entries eligible = fold (\<lambda>e. hm_push (snd e) (fst e)) entries (fold or_default eligible Map.empty)"

definition take_plans :: "string \<times> uuid list \<Rightarrow> string \<Rightarrow> nat \<Rightarrow> nat \<Rightarrow> migration_plan list" where
  "take_plans donor receiver cursor n =
     map (\<lambda>k. \<lparr>mp_shard_id = snd donor ! (length (snd donor) - 1 - cursor - k), mp_from_sn = fst donor,
               mp_to_sn = receiver\<rparr>) [0..<n]"

text \<open>The inner loop: the position among the donors, the shards already taken from the current
  donor and the number given to the receiver so far.\<close>

partial_function (option) give_loop ::
  "nat \<Rightarrow> (string \<times> uuid list) list \<Rightarrow> string \<Rightarrow> nat \<Rightarrow> nat \<Rightarrow> nat \<Rightarrow> nat \<Rightarrow> migration_plan list \<Rightarrow>
   (nat \<times> nat \<times> migration_plan list) option" where
  "give_loop target donors receiver needed di cursor given plans =
     (if given < needed \<and> di < length donors
      then (let donor = donors ! di;
                excess = length (snd donor) - target - cursor
            in if excess = 0 then give_loop target donors receiver needed (di + 1) 0 given plans
               else (let n = min excess (needed - given)
                     in give_loop target donors receiver needed di (cursor + n) (given + n)
                          (plans @ take_plans donor receiver cursor n)))
      else Some (di, cursor, plans))"

fun receivers_loop ::
  "nat \<Rightarrow> (string \<times> uuid list) list \<Rightarrow> (string \<times> uuid list) list \<Rightarrow> nat \<Rightarrow> nat \<Rightarrow> migration_plan list \<Rightarrow>
   migration_plan list option" where
  "receivers_loop target donors [] di cursor plans = Some plans"
| "receivers_loop target donors (r # rs) di cursor plans =
     (case give_loop target donors (fst r) (target - length (snd r)) di cursor 0 plans of
        None \<Rightarrow> None
      | Some (di', cursor', plans') \<Rightarrow> receivers_loop target donors rs di' cursor' plans')"

definition rebalance_plan ::
  "(uuid, string) hash_order \<Rightarrow> (string, uuid list) hash_order \<Rightarrow> distribution \<Rightarrow> node_info list \<Rightarrow>
   migration_plan list option" where
  "rebalance_plan ord_d ord_s dist eligible =
     (if eligible = [] then Some []
      else (let entries = hm_entries ord_d dist;
                target = div_ceil (length entries) (max (length eligible) 1);
                es = hm_entries ord_s (build_sn_shards entries eligible);
                donors = filter (\<lambda>e. target < length (snd e)) es;
                receivers = filter (\<lambda>e. length (snd e) < target) es
            in receivers_loop target donors receivers 0 0 []))"

section \<open>Migrations\<close>

datatype migration_state =
    Pending | Preparing | Copying | Syncing | Committing | MigrationDone | MigrationFailed string

record shard_migrator =
  sm_shard_id :: uuid
  sm_from_sn :: string
  sm_to_sn :: string
  sm_state :: migration_state

definition migrator_new :: "uuid \<Rightarrow> string \<Rightarrow> string \<Rightarrow> shard_migrator" where
  "migrator_new shard from to = \<lparr>sm_shard_id = shard, sm_from_sn = from, sm_to_sn = to, sm_state = Pending\<rparr>"

text \<open>The calls to the storage nodes are not written yet: each phase records its state and succeeds.\<close>

definition mig_prepare :: "shard_migrator \<Rightarrow> shard_migrator \<times> (string + unit)" where
  "mig_prepare m = (m\<lparr>sm_state := Preparing\<rparr>, Inr ())"

definition mig_copy_data :: "shard_migrator \<Rightarrow> shard_migrator \<times> (string + unit)" where
  "mig_copy_data m = (m\<lparr>sm_state := Copying\<rparr>, Inr ())"

definition mig_sync :: "shard_migrator \<Rightarrow> shard_migrator \<times> (string + unit)" where
  "mig_sync m = (m\<lparr>sm_state := Syncing\<rparr>, Inr ())"

definition mig_commit :: "shard_migrator \<Rightarrow> shard_migrator \<times> (string + unit)" where
  "mig_commit m = ((m\<lparr>sm_state := Committing\<rparr>)\<lparr>sm_state := MigrationDone\<rparr>, Inr ())"

definition mig_phase ::
  "(shard_migrator \<Rightarrow> shard_migrator \<times> (string + unit)) \<Rightarrow> (shard_migrator \<Rightarrow> shard_migrator \<times> (string + unit)) \<Rightarrow>
   shard_migrator \<Rightarrow> shard_migrator \<times> (string + unit)" where
  "mig_phase phase rest m =
     (case phase m of
        (m', Inl e) \<Rightarrow> (m'\<lparr>sm_state := MigrationFailed e\<rparr>, Inl e)
      | (m', Inr _) \<Rightarrow> rest m')"

definition mig_run :: "shard_migrator \<Rightarrow> shard_migrator \<times> (string + unit)" where
  "mig_run = mig_phase mig_prepare (mig_phase mig_copy_data (mig_phase mig_sync (mig_phase mig_commit (\<lambda>m. (m, Inr ())))))"

section \<open>The coordinator\<close>

definition execute_plan :: "migration_plan \<Rightarrow> distribution \<times> migration_state list \<Rightarrow> distribution \<times> migration_state list" where
  "execute_plan p dr =
     (case snd (mig_run (migrator_new (mp_shard_id p) (mp_from_sn p) (mp_to_sn p))) of
        Inr _ \<Rightarrow> ((fst dr)(mp_shard_id p \<mapsto> mp_to_sn p), snd dr @ [MigrationDone])
      | Inl e \<Rightarrow> (fst dr, snd dr @ [MigrationFailed e]))"

definition run_once ::
  "(string, node_info) hash_order \<Rightarrow> (uuid, string) hash_order \<Rightarrow> (string, uuid list) hash_order \<Rightarrow> topology \<Rightarrow>
   distribution \<Rightarrow> (distribution \<times> migration_state list) option" where
  "run_once ord_t ord_d ord_s topo dist =
     (case rebalance_plan ord_d ord_s dist (eligible_storage_nodes ord_t topo) of
        None \<Rightarrow> None
      | Some plans \<Rightarrow> if plans = [] then Some (dist, []) else Some (fold execute_plan plans (dist, [])))"

section \<open>The loop hands out the surplus in order\<close>

definition surplus_of :: "nat \<Rightarrow> string \<times> uuid list \<Rightarrow> (string \<times> uuid) list" where
  "surplus_of target d = map (Pair (fst d)) (take (length (snd d) - target) (rev (snd d)))"

definition surplus_from :: "nat \<Rightarrow> (string \<times> uuid list) list \<Rightarrow> nat \<Rightarrow> nat \<Rightarrow> (string \<times> uuid) list" where
  "surplus_from target donors di cursor =
     (if di < length donors
      then drop cursor (surplus_of target (donors ! di)) @ concat (map (surplus_of target) (drop (Suc di) donors))
      else [])"

definition plan_for :: "(string \<times> uuid) \<times> string \<Rightarrow> migration_plan" where
  "plan_for sr = \<lparr>mp_shard_id = snd (fst sr), mp_from_sn = fst (fst sr), mp_to_sn = snd sr\<rparr>"

lemma length_surplus_of [simp]: "length (surplus_of target d) = length (snd d) - target"
  by (simp add: surplus_of_def)

lemma surplus_from_next: "surplus_from target donors (Suc di) 0 = concat (map (surplus_of target) (drop (Suc di) donors))"
  by (simp add: surplus_from_def Cons_nth_drop_Suc [symmetric])

lemma take_plans_surplus:
  assumes "n \<le> length (snd d) - target - cursor"
  shows "take_plans d r cursor n = map (\<lambda>s. plan_for (s, r)) (take n (drop cursor (surplus_of target d)))"
  using assms by (intro nth_equalityI) (auto simp: take_plans_def surplus_of_def plan_for_def rev_nth)

lemma give_loop_surplus:
  "given \<le> needed \<Longrightarrow>
   \<exists>di' cursor'. give_loop target donors r needed di cursor given plans =
     Some (di', cursor', plans @ map (\<lambda>s. plan_for (s, r)) (take (needed - given) (surplus_from target donors di cursor))) \<and>
     surplus_from target donors di' cursor' = drop (needed - given) (surplus_from target donors di cursor)"
proof (induction "(length donors - di, needed - given)" arbitrary: di cursor given plans
    rule: wf_induct_rule [OF wf_lex_prod [OF wf_less_than wf_less_than]])
  case 1
  let ?d = "donors ! di"
  let ?ex = "length (snd ?d) - target - cursor"
  let ?all = "surplus_from target donors di cursor"
  show ?case
  proof (cases "given < needed \<and> di < length donors")
    case False
    then have "take (needed - given) ?all = [] \<and> drop (needed - given) ?all = ?all"
      using 1(2) by (auto simp: surplus_from_def)
    with False show ?thesis by (subst give_loop.simps) auto
  next
    case loop: True
    show ?thesis
    proof (cases "?ex = 0")
      case True
      then have "?all = surplus_from target donors (Suc di) 0"
        using loop by (simp add: surplus_from_next) (simp add: surplus_from_def)
      moreover have "length donors - Suc di < length donors - di" using loop by (simp add: diff_less_mono2)
      ultimately show ?thesis
        using 1(1) [of "Suc di" given 0 plans] 1(2) loop True by (subst give_loop.simps) (simp add: Let_def)
    next
      case False
      define n where "n = min ?ex (needed - given)"
      have n: "0 < n" "given + n \<le> needed" "n \<le> ?ex" using loop False by (auto simp: n_def)
      have split: "?all = take n (drop cursor (surplus_of target ?d)) @ surplus_from target donors di (cursor + n)"
      proof -
        have "drop cursor (surplus_of target ?d) = take n (drop cursor (surplus_of target ?d)) @ drop (cursor + n) (surplus_of target ?d)"
          using append_take_drop_id [of n "drop cursor (surplus_of target ?d)"] unfolding drop_drop add.commute [of cursor] by (rule sym)
        then show ?thesis using loop unfolding surplus_from_def by simp
      qed
      have len: "length (take n (drop cursor (surplus_of target ?d))) = n" using n(3) by simp
      have "needed - given = n + (needed - (given + n))" using n(2) by simp
      then have td: "take (needed - given) ?all =
            take n (drop cursor (surplus_of target ?d)) @ take (needed - (given + n)) (surplus_from target donors di (cursor + n))"
          "drop (needed - given) ?all = drop (needed - (given + n)) (surplus_from target donors di (cursor + n))"
        unfolding split using len by simp_all
      have step: "give_loop target donors r needed di cursor given plans =
          give_loop target donors r needed di (cursor + n) (given + n) (plans @ take_plans ?d r cursor n)"
        using loop False by (subst give_loop.simps) (simp add: Let_def n_def)
      show ?thesis
        unfolding step td take_plans_surplus [OF n(3)]
        using 1(1) [of di "given + n" "cursor + n" "plans @ map (\<lambda>s. plan_for (s, r)) (take n (drop cursor (surplus_of target ?d)))"] n loop
        by (simp add: append_assoc [symmetric] del: append_assoc)
    qed
  qed
qed

text \<open>The plans pair the surplus shards with the free places of the receivers.\<close>

definition demand :: "nat \<Rightarrow> (string \<times> uuid list) list \<Rightarrow> string list" where
  "demand target rs = concat (map (\<lambda>r. replicate (target - length (snd r)) (fst r)) rs)"

lemma receivers_loop_zip:
  "receivers_loop target donors rs di cursor plans =
     Some (plans @ map plan_for (zip (surplus_from target donors di cursor) (demand target rs)))"
proof (induction rs arbitrary: di cursor plans)
  case Nil
  then show ?case by (simp add: demand_def)
next
  case (Cons r rs)
  let ?n = "target - length (snd r)" and ?s = "surplus_from target donors di cursor"
  obtain di' cursor' where g: "give_loop target donors (fst r) ?n di cursor 0 plans =
      Some (di', cursor', plans @ map (\<lambda>s. plan_for (s, fst r)) (take ?n ?s))"
    and rest: "surplus_from target donors di' cursor' = drop ?n ?s"
    using give_loop_surplus [of 0 ?n target donors "fst r" di cursor plans] by auto
  have "zip ?s (demand target (r # rs)) = map (\<lambda>s. (s, fst r)) (take ?n ?s) @ zip (drop ?n ?s) (demand target rs)"
    unfolding demand_def by (simp add: zip_append2 zip_replicate2 min.commute take_map)
  with g Cons.IH show ?case by (simp add: rest comp_def)
qed


section \<open>What a plan moves\<close>

lemma or_default_lookup: "fold or_default ns m k = (if m k = None \<and> k \<in> ni_node_id ` set ns then Some [] else m k)"
  by (induction ns arbitrary: m) (auto simp: or_default_def split: option.splits)

lemma push_lookup:
  "fold (\<lambda>e. hm_push (snd e) (fst e)) es m k =
     (let mine = map fst (filter (\<lambda>e. snd e = k) es)
      in if mine = [] then m k else Some ((case m k of None \<Rightarrow> [] | Some xs \<Rightarrow> xs) @ mine))"
  by (induction es arbitrary: m) (auto simp: hm_push_def Let_def split: option.splits)

lemma sn_shards_lookup:
  "build_sn_shards es ns k =
     (let mine = map fst (filter (\<lambda>e. snd e = k) es)
      in if mine = [] \<and> k \<notin> ni_node_id ` set ns then None else Some mine)"
  by (auto simp: build_sn_shards_def push_lookup or_default_lookup Let_def)

lemma dom_sn_shards: "dom (build_sn_shards es ns) = ni_node_id ` set ns \<union> snd ` set es"
  by (force simp: sn_shards_lookup Let_def filter_empty_conv split: if_splits)

lemma distinct_surplus:
  assumes "distinct (map fst ds)" "\<And>d. d \<in> set ds \<Longrightarrow> distinct (snd d)"
    "\<And>d s. d \<in> set ds \<Longrightarrow> s \<in> set (snd d) \<Longrightarrow> dist s = Some (fst d)"
  shows "distinct (map snd (concat (map (surplus_of target) ds)))"
    and "x \<in> set (concat (map (surplus_of target) ds)) \<Longrightarrow> dist (snd x) = Some (fst x)"
proof -
  have holds: "dist (snd x) = Some (fst x)" if "x \<in> set (concat (map (surplus_of target) es))" "set es \<subseteq> set ds" for x es
    using that assms(3) by (auto simp: surplus_of_def dest!: in_set_takeD)
  then show "x \<in> set (concat (map (surplus_of target) ds)) \<Longrightarrow> dist (snd x) = Some (fst x)" by blast
  have src: "fst x \<in> fst ` set es" if "x \<in> set (concat (map (surplus_of target) es))" for x es
    using that by (force simp: surplus_of_def)
  have "distinct (map snd (concat (map (surplus_of target) es)))" if "set es \<subseteq> set ds" "distinct (map fst es)" for es
    using that
  proof (induction es)
    case (Cons d es)
    have "map snd (surplus_of target d) = take (length (snd d) - target) (rev (snd d))" by (simp add: surplus_of_def comp_def)
    then have one: "distinct (map snd (surplus_of target d))" using assms(2) Cons.prems by simp
    have "snd x \<noteq> snd y" if x: "x \<in> set (surplus_of target d)" and y: "y \<in> set (concat (map (surplus_of target) es))" for x y
    proof
      assume eq: "snd x = snd y"
      have "fst x = fst d" using x by (auto simp: surplus_of_def)
      moreover have "dist (snd x) = Some (fst x)" using holds [of x "[d]"] x Cons.prems by simp
      moreover have "dist (snd y) = Some (fst y)" using holds [OF y] Cons.prems by simp
      ultimately have "fst d \<in> fst ` set es" using src [OF y] eq by simp
      with Cons.prems show False by simp
    qed
    then have "snd ` set (surplus_of target d) \<inter> snd ` set (concat (map (surplus_of target) es)) = {}" by blast
    with one Cons show ?case by simp
  qed simp
  with assms(1) show "distinct (map snd (concat (map (surplus_of target) ds)))" by simp
qed

text \<open>The situation of one planning run: the entries of the distribution, the shards of every
  node, and the target.\<close>

definition planning :: "distribution \<Rightarrow> (string \<times> uuid list) list \<Rightarrow> bool" where
  "planning dist es \<longleftrightarrow>
     distinct (map fst es) \<and> (\<forall>e \<in> set es. distinct (snd e)) \<and>
     (\<forall>s k. dist s = Some k \<longleftrightarrow> (\<exists>sh. (k, sh) \<in> set es \<and> s \<in> set sh))"

definition spare :: "nat \<Rightarrow> (string \<times> uuid list) list \<Rightarrow> (string \<times> uuid) list" where
  "spare target es = concat (map (surplus_of target) es)"

lemma planning_holder: "planning dist es \<Longrightarrow> d \<in> set es \<Longrightarrow> s \<in> set (snd d) \<Longrightarrow> dist s = Some (fst d)"
  unfolding planning_def by (metis prod.collapse)

lemma spare_donors: "concat (map (surplus_of target) (filter (\<lambda>e. target < length (snd e)) es)) = spare target es"
  unfolding spare_def by (induction es) (auto simp: surplus_of_def)

lemma demand_receivers: "demand target (filter (\<lambda>e. length (snd e) < target) es) = demand target es"
  by (induction es) (auto simp: demand_def)

lemma distinct_spare:
  assumes "planning dist es"
  shows "distinct (map snd (spare target es))" and "x \<in> set (spare target es) \<Longrightarrow> dist (snd x) = Some (fst x)"
  unfolding spare_def
  by (rule distinct_surplus(1) [where dist = dist]; use assms planning_holder [OF assms] in \<open>auto simp: planning_def\<close>)
     (rule distinct_surplus(2) [where dist = dist]; use assms planning_holder [OF assms] in \<open>auto simp: planning_def\<close>)

lemma spare_node: "x \<in> set (spare target es) \<Longrightarrow> \<exists>sh. (fst x, sh) \<in> set es \<and> target < length sh"
  unfolding spare_donors [symmetric] by (force simp: surplus_of_def)

lemma demand_node: "k \<in> set (demand target es) \<Longrightarrow> \<exists>sh. (k, sh) \<in> set es \<and> length sh < target"
  by (force simp: demand_def split: if_splits)

lemma sum_lengths: "length (spare target es) + length es * target = length (demand target es) + length (concat (map snd es))"
proof (induction es)
  case (Cons e es)
  have "length (snd e) - target + target = target - length (snd e) + length (snd e)" by simp
  with Cons show ?case by (simp add: demand_def spare_def)
qed (simp add: demand_def spare_def)

lemma count_demand:
  assumes "planning dist es" "(k, sh) \<in> set es"
  shows "length (filter ((=) k) (demand target es)) = target - length sh"
proof -
  have "length (filter ((=) k) (demand target xs)) = (if k \<in> fst ` set xs then target - length sh else 0)"
    if "distinct (map fst xs)" "\<And>sh'. (k, sh') \<in> set xs \<Longrightarrow> sh' = sh" for xs
    using that
  proof (induction xs)
    case (Cons x xs)
    show ?case
    proof (cases "fst x = k")
      case True
      then have "snd x = sh" using Cons.prems(2) [of "snd x"] by (metis list.set_intros(1) prod.collapse)
      moreover have "k \<notin> fst ` set xs" using Cons.prems(1) True by auto
      ultimately show ?thesis using Cons True by (simp add: demand_def)
    next
      case False
      then show ?thesis using Cons by (auto simp: demand_def)
    qed
  qed (simp add: demand_def)
  moreover have "sh' = sh" if "(k, sh') \<in> set es" for sh'
    using that assms by (meson eq_key_imp_eq_value planning_def)
  moreover have "distinct (map fst es)" "k \<in> fst ` set es" using assms by (force simp: planning_def)+
  ultimately show ?thesis by simp
qed

section \<open>The distribution after a run\<close>

definition moves :: "nat \<Rightarrow> (string \<times> uuid list) list \<Rightarrow> (uuid \<times> string) list" where
  "moves target es = zip (map snd (spare target es)) (demand target es)"

lemma plan_for_moves:
  "map (\<lambda>p. (mp_shard_id p, mp_to_sn p)) (map plan_for (zip (spare target es) (demand target es))) = moves target es"
  by (rule nth_equalityI) (simp_all add: moves_def plan_for_def)

lemma mig_run_done: "mig_run m = (m\<lparr>sm_state := MigrationDone\<rparr>, Inr ())"
  by (simp add: mig_run_def mig_phase_def mig_prepare_def mig_copy_data_def mig_sync_def mig_commit_def)

lemma execute_plans:
  "fold execute_plan ps (d, rs) =
     (fold (\<lambda>e m. m(fst e \<mapsto> snd e)) (map (\<lambda>p. (mp_shard_id p, mp_to_sn p)) ps) d, rs @ replicate (length ps) MigrationDone)"
  by (induction ps arbitrary: d rs) (simp_all add: execute_plan_def mig_run_done)

lemma distinct_moves: "planning dist es \<Longrightarrow> distinct (map fst (moves target es))"
  using distinct_spare(1) [of dist es target] by (simp add: moves_def map_fst_zip_take)

lemma length_filter_zip_snd: "length (filter (\<lambda>e. P (snd e)) (zip xs ys)) \<le> length (filter P ys)"
  by (induction xs ys rule: list_induct2') auto

lemma card_after_moves:
  assumes "planning dist es" "(k, sh) \<in> set es" "length (spare target es) \<le> length (demand target es)"
  shows "card {s. (dist ++ map_of (moves target es)) s = Some k} \<le> target"
proof -
  let ?mv = "moves target es" and ?sur = "set (take (length sh - target) (rev sh))"
  have sh: "distinct sh" "s \<in> set sh \<longleftrightarrow> dist s = Some k" for s
    using assms(1,2) by (auto simp: planning_def) (metis eq_key_imp_eq_value)
  have moved: "map_of ?mv s \<noteq> None" if "s \<in> ?sur" for s
  proof -
    have "(k, s) \<in> set (spare target es)" using that assms(2) by (force simp: spare_def surplus_of_def)
    then have "s \<in> set (map fst ?mv)" using assms(3) by (force simp: moves_def map_fst_zip_take)
    then show ?thesis by (simp add: map_of_eq_None_iff)
  qed
  have "{s. (dist ++ map_of ?mv) s = Some k} \<subseteq> (set sh - ?sur) \<union> fst ` set (filter (\<lambda>e. snd e = k) ?mv)"
  proof
    fix s assume s: "s \<in> {s. (dist ++ map_of ?mv) s = Some k}"
    show "s \<in> (set sh - ?sur) \<union> fst ` set (filter (\<lambda>e. snd e = k) ?mv)"
    proof (cases "map_of ?mv s")
      case None
      with s moved [of s] show ?thesis by (auto simp: map_add_def sh(2))
    next
      case (Some r)
      with s have "(s, k) \<in> set ?mv" by (simp add: map_add_def map_of_SomeD)
      then show ?thesis by force
    qed
  qed
  then have c: "card {s. (dist ++ map_of ?mv) s = Some k} \<le> card (set sh - ?sur) + card (fst ` set (filter (\<lambda>e. snd e = k) ?mv))"
    by (meson List.finite_set card_Un_le card_mono finite_Diff finite_UnI finite_imageI order_trans)
  have c1: "card (set sh - ?sur) = length sh - (length sh - target)"
  proof -
    have "?sur \<subseteq> set sh" by (auto dest: in_set_takeD)
    moreover have "card ?sur = length sh - target" using sh(1) by (simp add: distinct_card)
    ultimately show ?thesis using sh(1) by (simp add: card_Diff_subset distinct_card)
  qed
  have c2: "card (fst ` set (filter (\<lambda>e. snd e = k) ?mv)) \<le> target - length sh"
  proof -
    have "card (fst ` set (filter (\<lambda>e. snd e = k) ?mv)) \<le> length (filter (\<lambda>e. snd e = k) ?mv)"
      by (meson List.finite_set card_image_le card_length order_trans)
    also have "\<dots> \<le> length (filter ((=) k) (demand target es))"
      using length_filter_zip_snd [of "(=) k" "map snd (spare target es)" "demand target es"]
      by (simp add: moves_def eq_commute)
    finally show ?thesis by (simp add: count_demand [OF assms(1,2)])
  qed
  from c c1 c2 show ?thesis by linarith
qed


section \<open>Properties\<close>

lemma planning_entries:
  assumes "hash_order_ok ord_d" "hash_order_ok ord_s" "finite (dom dist)"
    and es: "es = hm_entries ord_s (build_sn_shards (hm_entries ord_d dist) ns)"
  shows "planning dist es" "set (map fst es) = ni_node_id ` set ns \<union> ran dist"
    and "\<And>k sh. (k, sh) \<in> set es \<Longrightarrow> sh = map fst (filter (\<lambda>e. snd e = k) (hm_entries ord_d dist))"
proof -
  let ?en = "hm_entries ord_d dist"
  let ?m = "build_sn_shards ?en ns"
  have en: "(s, k) \<in> set ?en \<longleftrightarrow> dist s = Some k" for s k by (rule set_hm_entries [OF assms(1,3)])
  have ran: "snd ` set ?en = ran dist" using en by (force simp: ran_def)
  have fin: "finite (dom ?m)" unfolding dom_sn_shards by simp
  note look = set_hm_entries [OF assms(2) fin]
  show mine: "sh = map fst (filter (\<lambda>e. snd e = k) ?en)" if "(k, sh) \<in> set es" for k sh
    using that unfolding es look by (auto simp: sn_shards_lookup Let_def split: if_splits)
  have keys: "distinct (map fst es)" unfolding es by (rule distinct_hm_entries [OF assms(2) fin])
  have "set (map fst es) = dom ?m"
    unfolding es using look by (force simp: dom_def)
  then show "set (map fst es) = ni_node_id ` set ns \<union> ran dist" by (simp only: dom_sn_shards ran)
  have "distinct (map fst (filter P ?en))" for P
    by (rule distinct_map_filter [OF distinct_hm_entries [OF assms(1,3)]])
  moreover have "dist s = Some k \<longleftrightarrow> (\<exists>sh. (k, sh) \<in> set es \<and> s \<in> set sh)" for s k
  proof
    assume s: "dist s = Some k"
    then have "?m k = Some (map fst (filter (\<lambda>e. snd e = k) ?en))"
      using en [of s k] by (force simp: sn_shards_lookup Let_def filter_empty_conv)
    then show "\<exists>sh. (k, sh) \<in> set es \<and> s \<in> set sh"
      unfolding es look using s en [of s k] by force
  next
    assume "\<exists>sh. (k, sh) \<in> set es \<and> s \<in> set sh"
    then show "dist s = Some k" using mine en by fastforce
  qed
  ultimately show "planning dist es" unfolding planning_def using keys mine by (metis prod.collapse)
qed

lemma plan_is_zip:
  assumes "ns \<noteq> []"
  shows "rebalance_plan ord_d ord_s dist ns =
    (let es = hm_entries ord_s (build_sn_shards (hm_entries ord_d dist) ns);
         target = div_ceil (length (hm_entries ord_d dist)) (length ns)
     in Some (map plan_for (zip (spare target es) (demand target es))))"
proof -
  have "max (length ns) 1 = length ns" using assms by (cases ns) auto
  moreover have "surplus_from target ds 0 0 = concat (map (surplus_of target) ds)" for target ds
    by (cases ds) (simp_all add: surplus_from_def)
  ultimately show ?thesis
    using assms by (simp add: rebalance_plan_def Let_def receivers_loop_zip spare_donors demand_receivers)
qed

lemma div_ceil_covers: "0 < b \<Longrightarrow> a \<le> b * div_ceil a b"
proof -
  assume b: "0 < b"
  have "a + b - 1 = b * div_ceil a b + (a + b - 1) mod b" unfolding div_ceil_def by simp
  moreover have "(a + b - 1) mod b < b" using b by simp
  ultimately show ?thesis by linarith
qed

lemma length_planned_shards:
  assumes "planning dist es" "finite (dom dist)"
  shows "length (concat (map snd es)) \<le> card (dom dist)"
proof -
  have "map snd (spare 0 es) = concat (map (\<lambda>e. rev (snd e)) es)"
    by (simp add: spare_def surplus_of_def map_concat comp_def)
  moreover have "distinct (map snd (spare 0 es))" by (rule distinct_spare(1) [OF assms(1)])
  ultimately have "distinct (concat (map (\<lambda>e. rev (snd e)) es))" by simp
  then have "length (concat (map (\<lambda>e. rev (snd e)) es)) = card (set (concat (map (\<lambda>e. rev (snd e)) es)))"
    by (simp only: distinct_card)
  also have "\<dots> \<le> card (dom dist)"
    using planning_holder [OF assms(1)] by (intro card_mono assms(2)) force
  finally show ?thesis by (simp add: length_concat comp_def)
qed

text \<open>C26. Planning terminates with a sensible plan: for every distribution and every list of eligible
  nodes the loops of the planner return; the plan moves every shard at most once, each from the
  node that holds it to a different node.\<close>

theorem rebalance_plan_returns:
  assumes "hash_order_ok ord_d" and "hash_order_ok ord_s" and "finite (dom dist)"
  shows "\<exists>plans. rebalance_plan ord_d ord_s dist ns = Some plans \<and> distinct (map mp_shard_id plans) \<and>
    (\<forall>p \<in> set plans. dist (mp_shard_id p) = Some (mp_from_sn p) \<and> mp_to_sn p \<noteq> mp_from_sn p)"
proof (cases "ns = []")
  case True
  then show ?thesis by (simp add: rebalance_plan_def)
next
  case False
  define es where "es = hm_entries ord_s (build_sn_shards (hm_entries ord_d dist) ns)"
  define t where "t = div_ceil (length (hm_entries ord_d dist)) (length ns)"
  note pl = planning_entries(1) [OF assms es_def]
  let ?z = "zip (spare t es) (demand t es)"
  have "map mp_shard_id (map plan_for ?z) = map fst (moves t es)"
    using plan_for_moves [of t es, THEN arg_cong [where f = "map fst"]] by (simp add: comp_def)
  then have "distinct (map mp_shard_id (map plan_for ?z))" using distinct_moves [OF pl] by simp
  moreover have "dist (snd x) = Some (fst x) \<and> k \<noteq> fst x" if "(x, k) \<in> set ?z" for x k
  proof -
    have x: "x \<in> set (spare t es)" and k: "k \<in> set (demand t es)" using that by (auto dest: set_zip_leftD set_zip_rightD)
    obtain a b where "(fst x, a) \<in> set es" "t < length a" "(k, b) \<in> set es" "length b < t"
      using spare_node [OF x] demand_node [OF k] by blast
    moreover have "distinct (map fst es)" using pl by (simp add: planning_def)
    ultimately have "k \<noteq> fst x" by (metis eq_key_imp_eq_value less_asym)
    with distinct_spare(2) [OF pl x] show ?thesis by simp
  qed
  ultimately show ?thesis
    unfolding plan_is_zip [OF False] Let_def es_def [symmetric] t_def [symmetric]
    by (auto simp: plan_for_def)
qed

lemma run_once_moves:
  assumes "eligible_storage_nodes ord_t topo \<noteq> []"
    and "planning dist (hm_entries ord_s (build_sn_shards (hm_entries ord_d dist) (eligible_storage_nodes ord_t topo)))"
  shows "\<exists>rs. run_once ord_t ord_d ord_s topo dist = Some (dist ++ map_of (moves
      (div_ceil (length (hm_entries ord_d dist)) (length (eligible_storage_nodes ord_t topo)))
      (hm_entries ord_s (build_sn_shards (hm_entries ord_d dist) (eligible_storage_nodes ord_t topo)))), rs) \<and>
    list_all ((=) MigrationDone) rs"
proof -
  define es where "es = hm_entries ord_s (build_sn_shards (hm_entries ord_d dist) (eligible_storage_nodes ord_t topo))"
  define t where "t = div_ceil (length (hm_entries ord_d dist)) (length (eligible_storage_nodes ord_t topo))"
  let ?plans = "map plan_for (zip (spare t es) (demand t es))" and ?new = "dist ++ map_of (moves t es)"
  have ex: "fold execute_plan ?plans (dist, []) = (?new, replicate (length ?plans) MigrationDone)"
    unfolding execute_plans plan_for_moves fold_upd_map_of [OF distinct_moves [OF assms(2) [folded es_def]]] by simp
  have "(if ?plans = [] then Some (dist, []) else Some (fold execute_plan ?plans (dist, []))) =
      Some (?new, replicate (length ?plans) MigrationDone)"
  proof (cases "?plans = []")
    case True
    with ex show ?thesis unfolding True by simp
  next
    case False
    then show ?thesis unfolding ex by (rule if_not_P)
  qed
  then have "run_once ord_t ord_d ord_s topo dist = Some (?new, replicate (length ?plans) MigrationDone)"
    unfolding run_once_def plan_is_zip [OF assms(1)] Let_def es_def [symmetric] t_def [symmetric] option.case .
  then show ?thesis unfolding es_def t_def by (auto simp: list_all_iff)
qed

lemma spare_within_demand:
  assumes "planning dist es" "finite (dom dist)" "set (map fst es) = act"
    and "t = div_ceil (card (dom dist)) (card act)" "0 < card act"
  shows "length (spare t es) \<le> length (demand t es)"
proof -
  have "length es = card act" using assms(1,3) by (metis distinct_card length_map planning_def)
  moreover have "length (concat (map snd es)) \<le> card (dom dist)" by (rule length_planned_shards [OF assms(1,2)])
  moreover have "card (dom dist) \<le> card act * t" unfolding assms(4) by (rule div_ceil_covers [OF assms(5)])
  ultimately show ?thesis using sum_lengths [of t es] by simp
qed

text \<open>C25. A rebalancing run balances: when every shard is on an active storage node of the registry,
  one run of the coordinator reports every migration as done, keeps every shard on an active
  storage node, and leaves no node with more than the average number of shards rounded up.  The
  phases of a migration are those of the source, which change states and copy no data yet.\<close>

theorem rebalance_run_balances:
  assumes "hash_order_ok ord_t" and "hash_order_ok ord_d" and "hash_order_ok ord_s"
    and "topo = fold (topology_step ord_t) ops Map.empty" and "finite (dom dist)"
    and "\<forall>s k. dist s = Some k \<longrightarrow> (\<exists>n. topo k = Some n \<and> is_active_storage n)"
  shows "\<exists>dist' results. run_once ord_t ord_d ord_s topo dist = Some (dist', results) \<and>
    list_all ((=) MigrationDone) results \<and> dom dist' = dom dist \<and>
    (\<forall>s k. dist' s = Some k \<longrightarrow> (\<exists>n. topo k = Some n \<and> is_active_storage n)) \<and>
    (\<forall>k. card {s. dist' s = Some k} \<le> div_ceil (card (dom dist)) (card {k. \<exists>n. topo k = Some n \<and> is_active_storage n}))"
proof -
  let ?ns = "eligible_storage_nodes ord_t topo" and ?act = "{k. \<exists>n. topo k = Some n \<and> is_active_storage n}"
  have ok: "topology_ok topo" unfolding assms(4) by (rule topology_ok_run)
  note el = eligible_ids [OF assms(1) ok]
  show ?thesis
  proof (cases "?ns = []")
    case True
    then have "?act = {}" using el(1) by simp
    then have "dist = Map.empty" using assms(6) by (auto simp: fun_eq_iff) (metis option.exhaust)
    with True show ?thesis by (simp add: run_once_def rebalance_plan_def)
  next
    case False
    define es where "es = hm_entries ord_s (build_sn_shards (hm_entries ord_d dist) ?ns)"
    define t where "t = div_ceil (length (hm_entries ord_d dist)) (length ?ns)"
    note pl = planning_entries [OF assms(2,3,5) es_def]
    have n: "length (hm_entries ord_d dist) = card (dom dist)" "length ?ns = card ?act"
      using el length_hm_entries [OF assms(2,5)] by simp_all
    have ran: "ran dist \<subseteq> ?act" using assms(6) by (auto simp: ran_def)
    then have keys: "set (map fst es) = ?act" using pl(2) el(1) by auto
    let ?new = "dist ++ map_of (moves t es)"
    obtain rs where run: "run_once ord_t ord_d ord_s topo dist = Some (?new, rs)" "list_all ((=) MigrationDone) rs"
      using run_once_moves [OF False pl(1) [unfolded es_def]] unfolding es_def t_def by blast
    have sp: "length (spare t es) \<le> length (demand t es)"
      using False by (intro spare_within_demand [OF pl(1) assms(5) keys]) (simp_all add: t_def n(1) flip: n(2))
    have act: "k \<in> ?act" if "?new s = Some k" for s k
      using that ran demand_node [of k t es] keys
      by (force simp: map_add_Some_iff ran_def moves_def dest!: map_of_SomeD set_zip_rightD)
    have c: "card {s. ?new s = Some k} \<le> t" for k
    proof (cases "k \<in> ?act")
      case True
      then obtain sh where "(k, sh) \<in> set es" using keys by force
      from card_after_moves [OF pl(1) this sp] show ?thesis .
    next
      case False
      then have "?new s \<noteq> Some k" for s using act [of s k] by argo
      then show ?thesis by simp
    qed
    have dm: "dom ?new = dom dist"
      using distinct_spare(2) [OF pl(1)] by (force simp: moves_def dest!: map_of_SomeD set_zip_leftD)
    have "\<forall>k. card {s. ?new s = Some k} \<le> div_ceil (card (dom dist)) (card ?act)"
      using c unfolding t_def n by (rule allI)
    moreover have "\<forall>s k. ?new s = Some k \<longrightarrow> (\<exists>n. topo k = Some n \<and> is_active_storage n)"
      by (intro allI impI) (drule act, simp)
    ultimately show ?thesis using run dm by (intro exI conjI)
  qed
qed


section \<open>Witnesses and a removed node\<close>

definition sample_topology :: "topology_op list" where
  "sample_topology = [TRegister (node_info_new 0 ''sn-2'' StorageNode ''a''), TRegister (node_info_new 0 ''sn-3'' StorageNode ''b'')]"

lemma sample_topology_nodes:
  "fold (topology_step sorted_order) sample_topology Map.empty =
     [''sn-2'' \<mapsto> node_info_new 0 ''sn-2'' StorageNode ''a'', ''sn-3'' \<mapsto> node_info_new 0 ''sn-3'' StorageNode ''b'']"
  by (simp add: sample_topology_def register_node_def node_info_new_def)

lemma sample_eligible:
  "eligible_storage_nodes sorted_order (fold (topology_step sorted_order) sample_topology Map.empty) =
     [node_info_new 0 ''sn-2'' StorageNode ''a'', node_info_new 0 ''sn-3'' StorageNode ''b'']"
  unfolding sample_topology_nodes
  by (simp add: eligible_storage_nodes_def active_nodes_of_type_def hm_entries_def sorted_order_def node_info_new_def)

theorem rebalance_plan_returns_witness:
  "\<exists>plans. rebalance_plan sorted_order sorted_order [1 \<mapsto> ''sn-2'', 2 \<mapsto> ''sn-2''] [node_info_new 0 ''sn-3'' StorageNode ''b''] = Some plans \<and>
    distinct (map mp_shard_id plans) \<and>
    (\<forall>p \<in> set plans. [1 \<mapsto> ''sn-2'', 2 \<mapsto> ''sn-2''] (mp_shard_id p) = Some (mp_from_sn p) \<and> mp_to_sn p \<noteq> mp_from_sn p)"
  by (rule rebalance_plan_returns [OF sorted_order_ok sorted_order_ok]) simp

theorem rebalance_run_balances_witness:
  "let topo = fold (topology_step sorted_order) sample_topology Map.empty;
       dist = [1 \<mapsto> ''sn-2'', 2 \<mapsto> ''sn-2'']
   in \<exists>dist' results. run_once sorted_order sorted_order sorted_order topo dist = Some (dist', results) \<and>
    list_all ((=) MigrationDone) results \<and> dom dist' = dom dist \<and>
    (\<forall>s k. dist' s = Some k \<longrightarrow> (\<exists>n. topo k = Some n \<and> is_active_storage n)) \<and>
    (\<forall>k. card {s. dist' s = Some k} \<le> div_ceil (card (dom dist)) (card {k. \<exists>n. topo k = Some n \<and> is_active_storage n}))"
  unfolding Let_def
  by (rule rebalance_run_balances [OF sorted_order_ok sorted_order_ok sorted_order_ok refl])
     (auto simp: sample_topology_nodes is_active_storage_def node_info_new_def split: if_splits)

text \<open>A removed node still receives shards: the planner also counts the nodes that only occur in
  the distribution, so with one shard left on a node that is no longer registered, a run moves a
  further shard to that node instead of emptying it.\<close>

lemma rebalance_moves_to_removed_node:
  "\<exists>dist topo dist'. topo = fold (topology_step sorted_order) sample_topology Map.empty \<and> topo ''sn-1'' = None \<and>
     card {s. dist s = Some ''sn-1''} = 1 \<and>
     run_once sorted_order sorted_order sorted_order topo dist = Some (dist', [MigrationDone]) \<and>
     card {s. dist' s = Some ''sn-1''} = 2"
proof -
  let ?d = "[1 \<mapsto> ''sn-2'', 2 \<mapsto> ''sn-2'', 3 \<mapsto> ''sn-2'', 4 \<mapsto> ''sn-2'', 5 \<mapsto> ''sn-1''] :: distribution"
  let ?topo = "fold (topology_step sorted_order) sample_topology Map.empty"
  let ?ns = "eligible_storage_nodes sorted_order ?topo"
  have en: "hm_entries sorted_order ?d = [(1, ''sn-2''), (2, ''sn-2''), (3, ''sn-2''), (4, ''sn-2''), (5, ''sn-1'')]"
    by (simp add: hm_entries_def sorted_order_def word_le_nat_alt)
  have sn: "build_sn_shards (hm_entries sorted_order ?d) ?ns = [''sn-1'' \<mapsto> [5], ''sn-2'' \<mapsto> [1, 2, 3, 4], ''sn-3'' \<mapsto> []]"
    unfolding en sample_eligible by (rule ext) (simp add: sn_shards_lookup Let_def node_info_new_def)
  have es: "hm_entries sorted_order [''sn-1'' \<mapsto> [5], ''sn-2'' \<mapsto> [1, 2, 3, 4], ''sn-3'' \<mapsto> []] =
      [(''sn-1'', [5]), (''sn-2'', [1, 2, 3, 4]), (''sn-3'', [] :: uuid list)]"
    by (simp add: hm_entries_def sorted_order_def)
  have "rebalance_plan sorted_order sorted_order ?d ?ns =
      Some [\<lparr>mp_shard_id = 4, mp_from_sn = ''sn-2'', mp_to_sn = ''sn-1''\<rparr>]"
  proof -
    let ?es = "[(''sn-1'', [5]), (''sn-2'', [1, 2, 3, 4]), (''sn-3'', [] :: uuid list)]"
    have "length (hm_entries sorted_order ?d) = 5" "length ?ns = 2" unfolding en sample_eligible by simp_all
    then have "div_ceil (length (hm_entries sorted_order ?d)) (length ?ns) = 3" by (simp add: div_ceil_def)
    moreover have "?ns \<noteq> []" unfolding sample_eligible by simp
    moreover have "spare 3 ?es = [(''sn-2'', 4)]" by (simp add: spare_def surplus_of_def)
    moreover have "demand 3 ?es = ''sn-1'' # ''sn-1'' # replicate 3 ''sn-3''" by (simp add: demand_def numeral_2_eq_2)
    ultimately show ?thesis
      using plan_is_zip [of ?ns sorted_order sorted_order ?d] unfolding sn es Let_def by (simp add: plan_for_def)
  qed
  then have "run_once sorted_order sorted_order sorted_order ?topo ?d = Some (?d(4 \<mapsto> ''sn-1''), [MigrationDone])"
    by (simp add: run_once_def execute_plan_def mig_run_done)
  moreover have "{s. ?d s = Some ''sn-1''} = {5}" "{s. (?d(4 \<mapsto> ''sn-1'')) s = Some ''sn-1''} = {4, 5}"
    by (auto split: if_splits)
  then have "card {s. ?d s = Some ''sn-1''} = 1" "card {s. (?d(4 \<mapsto> ''sn-1'')) s = Some ''sn-1''} = 2" by simp_all
  moreover have "?topo ''sn-1'' = None" by (simp add: sample_topology_nodes)
  ultimately show ?thesis by blast
qed

end
