(* ===== verification/ShardMap.thy ===== *)
theory ShardMap
  imports Prelude
begin

text \<open>
  The shard map of the query node (\<open>query-node/src/meta/shard_map.rs\<close>): the choice of the replica
  to read, and a cache with a time to live in front of the replicated store. The property is a
  refinement: answered one at a time, the operations behave as if there were no cache. The
  section on interleavings shows what the two separate steps of a missed lookup allow.
\<close>

section \<open>Replicas\<close>

datatype replica_role = Leader | Follower

datatype replica_state = ReplicaNormal | CatchingUp | ReplicaOffline

record shard_replica =
  sr_sn_node_id :: string
  sr_sn_endpoint :: string
  sr_role :: replica_role
  sr_state :: replica_state
  sr_shard_dir :: string
  sr_lsn :: u64

record shard_entry =
  se_shard_id :: uuid
  se_replicas :: "shard_replica list"

text \<open>\<open>max_by_key\<close> returns the last of several maxima.\<close>

definition max_by_key :: "('a \<Rightarrow> 'b::linorder) \<Rightarrow> 'a list \<Rightarrow> 'a option" where
  "max_by_key f xs =
     (case xs of [] \<Rightarrow> None | x # ys \<Rightarrow> Some (fold (\<lambda>y b. if f b \<le> f y then y else b) ys x))"

definition best_replica :: "shard_entry \<Rightarrow> shard_replica option" where
  "best_replica e =
     (case find (\<lambda>r. sr_role r = Leader \<and> sr_state r = ReplicaNormal) (se_replicas e) of
        Some r \<Rightarrow> Some r
      | None \<Rightarrow>
          (case max_by_key sr_lsn (filter (\<lambda>r. sr_state r = ReplicaNormal) (se_replicas e)) of
             Some r \<Rightarrow> Some r
           | None \<Rightarrow> find (\<lambda>r. sr_state r \<noteq> ReplicaOffline) (se_replicas e)))"

section \<open>The map\<close>

text \<open>Instants are milliseconds of the monotonic clock.\<close>

definition cache_ttl :: nat where
  "cache_ttl = 500"

record cache_entry =
  ce_entry :: shard_entry
  ce_cached_at :: nat

record shard_map =
  sm_cache :: "uuid \<rightharpoonup> cache_entry"
  sm_backing :: "uuid \<rightharpoonup> shard_entry"

definition shard_map_new :: shard_map where
  "shard_map_new = \<lparr>sm_cache = Map.empty, sm_backing = Map.empty\<rparr>"

definition is_fresh :: "nat \<Rightarrow> cache_entry \<Rightarrow> bool" where
  "is_fresh now c \<longleftrightarrow> now - ce_cached_at c < cache_ttl"

definition shard_register :: "nat \<Rightarrow> shard_entry \<Rightarrow> shard_map \<Rightarrow> shard_map" where
  "shard_register now e m =
     m\<lparr>sm_backing := (sm_backing m)(se_shard_id e \<mapsto> e),
       sm_cache := (sm_cache m)(se_shard_id e \<mapsto> \<lparr>ce_entry = e, ce_cached_at = now\<rparr>)\<rparr>"

definition shard_invalidate :: "uuid \<Rightarrow> shard_map \<Rightarrow> shard_map" where
  "shard_invalidate sid m = m\<lparr>sm_cache := (sm_cache m)(sid := None)\<rparr>"

definition shard_invalidate_all :: "shard_map \<Rightarrow> shard_map" where
  "shard_invalidate_all m = m\<lparr>sm_cache := Map.empty\<rparr>"

datatype shard_error = ShardNotFound uuid | NoValidReplica uuid

definition fetch_from_raft :: "uuid \<Rightarrow> shard_map \<Rightarrow> shard_error + shard_entry" where
  "fetch_from_raft sid m = (case sm_backing m sid of None \<Rightarrow> Inl (ShardNotFound sid) | Some e \<Rightarrow> Inr e)"

definition cache_hit :: "nat \<Rightarrow> uuid \<Rightarrow> shard_map \<Rightarrow> shard_replica option" where
  "cache_hit now sid m =
     (case sm_cache m sid of
        None \<Rightarrow> None
      | Some c \<Rightarrow> if is_fresh now c then best_replica (ce_entry c) else None)"

definition store_cache :: "nat \<Rightarrow> uuid \<Rightarrow> shard_entry \<Rightarrow> shard_map \<Rightarrow> shard_map" where
  "store_cache now sid e m = m\<lparr>sm_cache := (sm_cache m)(sid \<mapsto> \<lparr>ce_entry = e, ce_cached_at = now\<rparr>)\<rparr>"

definition shard_lookup :: "nat \<Rightarrow> uuid \<Rightarrow> shard_map \<Rightarrow> shard_map \<times> (shard_error + string \<times> string)" where
  "shard_lookup now sid m =
     (case cache_hit now sid m of
        Some r \<Rightarrow> (m, Inr (sr_sn_endpoint r, sr_shard_dir r))
      | None \<Rightarrow>
          (case fetch_from_raft sid m of
             Inl err \<Rightarrow> (m, Inl err)
           | Inr e \<Rightarrow>
               (case best_replica e of
                  None \<Rightarrow> (m, Inl (NoValidReplica sid))
                | Some r \<Rightarrow> (store_cache now sid e m, Inr (sr_sn_endpoint r, sr_shard_dir r)))))"

definition get_shard_entry :: "nat \<Rightarrow> uuid \<Rightarrow> shard_map \<Rightarrow> shard_error + shard_entry" where
  "get_shard_entry now sid m =
     (case sm_cache m sid of
        Some c \<Rightarrow> if is_fresh now c then Inr (ce_entry c) else fetch_from_raft sid m
      | None \<Rightarrow> fetch_from_raft sid m)"

section \<open>The chosen replica\<close>

lemma max_by_key_Some: "max_by_key f xs = Some m \<Longrightarrow> m \<in> set xs \<and> (\<forall>x \<in> set xs. f x \<le> f m)"
proof -
  have "fold (\<lambda>y b. if f b \<le> f y then y else b) ys x \<in> insert x (set ys) \<and>
      (\<forall>y \<in> insert x (set ys). f y \<le> f (fold (\<lambda>y b. if f b \<le> f y then y else b) ys x))" for ys x
  proof (induction ys arbitrary: x)
    case (Cons y ys)
    from Cons.IH [of "if f x \<le> f y then y else x"] show ?case
      by (cases "f x \<le> f y") (auto intro: order_trans)
  qed simp
  then show "max_by_key f xs = Some m \<Longrightarrow> ?thesis" by (fastforce simp: max_by_key_def split: list.splits)
qed

lemma max_by_key_None [simp]: "max_by_key f xs = None \<longleftrightarrow> xs = []"
  by (simp add: max_by_key_def split: list.splits)

text \<open>The choice prefers a normal leader, then the normal replica with the highest sequence number,
  then any replica that is not offline; it fails only when all are offline.\<close>

lemma best_replica_choice:
  "case best_replica e of
     None \<Rightarrow> \<forall>r \<in> set (se_replicas e). sr_state r = ReplicaOffline
   | Some r \<Rightarrow> r \<in> set (se_replicas e) \<and> sr_state r \<noteq> ReplicaOffline \<and>
       (sr_state r \<noteq> ReplicaNormal \<longrightarrow> (\<forall>q \<in> set (se_replicas e). sr_state q \<noteq> ReplicaNormal)) \<and>
       (sr_role r \<noteq> Leader \<longrightarrow> (\<forall>q \<in> set (se_replicas e). sr_state q = ReplicaNormal \<longrightarrow>
          sr_role q \<noteq> Leader \<and> sr_lsn q \<le> sr_lsn r))"
proof -
  let ?rs = "se_replicas e"
  let ?lead = "find (\<lambda>r. sr_role r = Leader \<and> sr_state r = ReplicaNormal) ?rs"
  let ?norm = "filter (\<lambda>r. sr_state r = ReplicaNormal) ?rs"
  show ?thesis
  proof (cases ?lead)
    case (Some r)
    then have "best_replica e = Some r" by (simp add: best_replica_def)
    with Some show ?thesis by (auto simp: find_Some_iff)
  next
    case lead: None
    show ?thesis
    proof (cases "max_by_key sr_lsn ?norm")
      case (Some r)
      with lead have "best_replica e = Some r" by (simp add: best_replica_def)
      with lead max_by_key_Some [OF Some] show ?thesis by (auto simp: find_None_iff)
    next
      case None
      then have "\<forall>q \<in> set ?rs. sr_state q \<noteq> ReplicaNormal" by (simp add: filter_empty_conv)
      moreover have "best_replica e = find (\<lambda>r. sr_state r \<noteq> ReplicaOffline) ?rs"
        using lead None by (simp add: best_replica_def max_by_key_def)
      ultimately show ?thesis by (auto simp: find_Some_iff find_None_iff split: option.split)
    qed
  qed
qed

section \<open>The cache is transparent\<close>

datatype shard_op =
    OpRegister nat shard_entry
  | OpInvalidate uuid
  | OpInvalidateAll
  | OpLookup nat uuid
  | OpGetEntry nat uuid

datatype shard_answer = ADone | ALookup "shard_error + string \<times> string" | AEntry "shard_error + shard_entry"

fun shard_step :: "shard_op \<Rightarrow> shard_map \<Rightarrow> (shard_map \<times> shard_answer) option" where
  "shard_step (OpRegister now e) m = Some (shard_register now e m, ADone)"
| "shard_step (OpInvalidate sid) m = Some (shard_invalidate sid m, ADone)"
| "shard_step OpInvalidateAll m = Some (shard_invalidate_all m, ADone)"
| "shard_step (OpLookup now sid) m = Some (map_prod id ALookup (shard_lookup now sid m))"
| "shard_step (OpGetEntry now sid) m = Some (m, AEntry (get_shard_entry now sid m))"

text \<open>The specification has the store alone; the clock and the invalidations do not occur in it.\<close>

definition spec_fetch :: "uuid \<Rightarrow> (uuid \<rightharpoonup> shard_entry) \<Rightarrow> shard_error + shard_entry" where
  "spec_fetch sid b = (case b sid of None \<Rightarrow> Inl (ShardNotFound sid) | Some e \<Rightarrow> Inr e)"

definition spec_lookup :: "uuid \<Rightarrow> (uuid \<rightharpoonup> shard_entry) \<Rightarrow> shard_error + string \<times> string" where
  "spec_lookup sid b =
     (case spec_fetch sid b of
        Inl err \<Rightarrow> Inl err
      | Inr e \<Rightarrow> (case best_replica e of
                   None \<Rightarrow> Inl (NoValidReplica sid) | Some r \<Rightarrow> Inr (sr_sn_endpoint r, sr_shard_dir r)))"

fun spec_shard_step :: "shard_op \<Rightarrow> (uuid \<rightharpoonup> shard_entry) \<Rightarrow> (uuid \<rightharpoonup> shard_entry) \<times> shard_answer" where
  "spec_shard_step (OpRegister now e) b = (b(se_shard_id e \<mapsto> e), ADone)"
| "spec_shard_step (OpInvalidate sid) b = (b, ADone)"
| "spec_shard_step OpInvalidateAll b = (b, ADone)"
| "spec_shard_step (OpLookup now sid) b = (b, ALookup (spec_lookup sid b))"
| "spec_shard_step (OpGetEntry now sid) b = (b, AEntry (spec_fetch sid b))"

definition shard_rep :: "shard_map \<Rightarrow> (uuid \<rightharpoonup> shard_entry) \<Rightarrow> bool" where
  "shard_rep m b \<longleftrightarrow> sm_backing m = b \<and> (\<forall>sid c. sm_cache m sid = Some c \<longrightarrow> b sid = Some (ce_entry c))"

lemma cache_hit_spec:
  assumes "shard_rep m b" "cache_hit now sid m = Some r"
  shows "spec_lookup sid b = Inr (sr_sn_endpoint r, sr_shard_dir r)"
  using assms by (auto simp: shard_rep_def cache_hit_def spec_lookup_def spec_fetch_def split: option.splits if_splits)

lemma shard_lookup_sim:
  assumes "shard_rep m b"
  shows "snd (shard_lookup now sid m) = spec_lookup sid b" "shard_rep (fst (shard_lookup now sid m)) b"
proof -
  show "snd (shard_lookup now sid m) = spec_lookup sid b"
  proof (cases "cache_hit now sid m")
    case None
    with assms show ?thesis
      by (auto simp: shard_lookup_def spec_lookup_def spec_fetch_def fetch_from_raft_def shard_rep_def split: option.split)
  qed (simp add: shard_lookup_def cache_hit_spec [OF assms])
  show "shard_rep (fst (shard_lookup now sid m)) b"
    using assms by (auto simp: shard_lookup_def fetch_from_raft_def store_cache_def shard_rep_def split: option.split sum.split)
qed

interpretation shards: simulation shard_step spec_shard_step shard_rep
proof
  fix m b op assume rep: "shard_rep m b"
  show "\<exists>m'. shard_step op m = Some (m', snd (spec_shard_step op b)) \<and> shard_rep m' (fst (spec_shard_step op b))"
  proof (cases op)
    case (OpLookup now sid)
    then show ?thesis
      using shard_lookup_sim [OF rep, of now sid] by (cases "shard_lookup now sid m") simp
  next
    case (OpGetEntry now sid)
    have "get_shard_entry now sid m = spec_fetch sid b"
      using rep by (auto simp: get_shard_entry_def spec_fetch_def fetch_from_raft_def shard_rep_def split: option.split)
    with OpGetEntry rep show ?thesis by simp
  qed (use rep in \<open>auto simp: shard_rep_def shard_register_def shard_invalidate_def shard_invalidate_all_def\<close>)
qed

text \<open>C27. The shard cache is transparent: for every sequence of registrations, invalidations, lookups
  and entry reads, each run to its end before the next and at any instants, the answers are those of the replicated store without a cache:
  a lookup returns the best replica of the entry registered last, or the error that the store
  gives.\<close>

theorem shard_map_refines_store:
  "map_option snd (run_ops shard_step ops shard_map_new) = Some (snd (run_spec spec_shard_step ops Map.empty))"
  by (rule shards.run_answers) (simp add: shard_rep_def shard_map_new_def)

section \<open>Interleavings\<close>

text \<open>A missed lookup reads the store and writes the cache in two critical sections. A registration
  in between is overwritten in the cache by the entry read before it, and later lookups return the
  old replica until the entry expires.\<close>

lemma lookup_race_serves_old_entry:
  fixes old new :: shard_entry
  assumes "se_shard_id old = sid" "se_shard_id new = sid" "best_replica old = Some r"
  defines "m0 \<equiv> shard_invalidate sid (shard_register 0 old shard_map_new)"
  defines "m1 \<equiv> store_cache 1 sid old (shard_register 1 new m0)"
  shows "fetch_from_raft sid m0 = Inr old" "sm_backing m1 sid = Some new"
    "snd (shard_lookup 2 sid m1) = Inr (sr_sn_endpoint r, sr_shard_dir r)"
  using assms(1-3)
  by (simp_all add: m0_def m1_def fetch_from_raft_def shard_invalidate_def shard_register_def shard_map_new_def
      store_cache_def shard_lookup_def cache_hit_def is_fresh_def cache_ttl_def)

end
