(* ===== verification/SqlEval.thy ===== *)
theory SqlEval
  imports F64
begin

text \<open>
  Expressions of the query node's SELECT executor (\<open>query-node/src/executor/select_exec.rs\<close>): the
  syntax tree as far as the executor inspects it, JSON values, comparison, arithmetic, the scalar
  functions and the evaluation of an expression on a row. The SQL parser's tree is a third-party
  type; every constructor the executor does not match is an \<open>Other\<close>. The type \<open>'f\<close> stands for
  \<open>f64\<close>: its operations, the JSON text of a value, regular expressions, Unicode case mapping and the
  clock are fields of an environment. A slice inside a multi-byte character, which panics in
  \<open>DATE_FORMAT\<close>, is not distinguished.
\<close>

section \<open>Syntax and values\<close>

datatype sql_value =
    SNumber string
  | SSingleQuoted string
  | SDoubleQuoted string
  | SBoolean bool
  | SNull
  | SOtherValue string

datatype unary_op = UNot | UMinus | UOther

datatype bin_op =
    BEq | BNotEq | BLt | BLtEq | BGt | BGtEq | BAnd | BOr
  | BPlus | BMinus | BMultiply | BDivide | BStringConcat | BOther

text \<open>The arguments of a function are \<open>None\<close> when they are not a list.\<close>

datatype sql_expr =
    EIdentifier string
  | ECompound "string list"
  | EValue sql_value
  | EUnary unary_op sql_expr
  | EBinary sql_expr bin_op sql_expr
  | ELike sql_expr sql_expr bool
  | EIsNull sql_expr
  | EIsNotNull sql_expr
  | EInList sql_expr "sql_expr list" bool
  | EBetween sql_expr sql_expr sql_expr bool
  | ENested sql_expr
  | EFunction string "sql_arg list option" bool
  | ECase "sql_expr option" "sql_expr list" "sql_expr list" "sql_expr option"
  | EOther string
and sql_arg = AExpr sql_expr | AWildcard | AOther

text \<open>A JSON number is an integer of 64 bits, signed or unsigned, or a finite \<open>f64\<close>.\<close>

datatype 'f jnum = JInt int | JFloat 'f

datatype 'f json =
    JNull
  | JBool bool
  | JNum "'f jnum"
  | JStr string
  | JArray "'f json list"
  | JObject "(string \<times> 'f json) list"

type_synonym 'f sql_row = "string \<rightharpoonup> 'f json"

datatype 'f eval_result = EVal "'f json" | EBool bool | ENull

record 'f sql_env =
  f_of_int :: "int \<Rightarrow> 'f"
  f_sum_zero :: 'f
  f_add :: "'f \<Rightarrow> 'f \<Rightarrow> 'f"
  f_sub :: "'f \<Rightarrow> 'f \<Rightarrow> 'f"
  f_mul :: "'f \<Rightarrow> 'f \<Rightarrow> 'f"
  f_div :: "'f \<Rightarrow> 'f \<Rightarrow> 'f"
  f_neg :: "'f \<Rightarrow> 'f"
  f_min :: "'f \<Rightarrow> 'f \<Rightarrow> 'f"
  f_max :: "'f \<Rightarrow> 'f \<Rightarrow> 'f"
  f_cmp :: "'f \<Rightarrow> 'f \<Rightarrow> rust_ordering option"
  f_finite :: "'f \<Rightarrow> bool"
  f_fract_zero :: "'f \<Rightarrow> bool"
  f_small :: "'f \<Rightarrow> bool"
  f_to_i64 :: "'f \<Rightarrow> int"
  f_to_i32 :: "'f \<Rightarrow> int"
  f_pow10 :: "int \<Rightarrow> 'f"
  f_round :: "'f \<Rightarrow> 'f"
  f_parse :: "string \<Rightarrow> 'f option"
  f_sort_text :: "'f \<Rightarrow> string"
  i64_parse :: "string \<Rightarrow> int option"
  usize_parse :: "string \<Rightarrow> nat option"
  json_show :: "'f json \<Rightarrow> string"
  json_parse :: "string \<Rightarrow> 'f json option"
  expr_show :: "sql_expr \<Rightarrow> string"
  arg_show :: "sql_arg \<Rightarrow> string"
  to_lower :: "string \<Rightarrow> string"
  to_upper :: "string \<Rightarrow> string"
  re_escape :: "string \<Rightarrow> string"
  re_match :: "string \<Rightarrow> string \<Rightarrow> bool option"
  now_text :: string

section \<open>Values\<close>

fun as_bool :: "'f eval_result \<Rightarrow> bool" where
  "as_bool (EBool b) = b"
| "as_bool (EVal (JBool b)) = b"
| "as_bool ENull = False"
| "as_bool (EVal JNull) = False"
| "as_bool (EVal _) = True"

fun into_value :: "'f eval_result \<Rightarrow> 'f json" where
  "into_value (EVal v) = v"
| "into_value (EBool b) = JBool b"
| "into_value ENull = JNull"

definition is_null :: "'f eval_result \<Rightarrow> bool" where
  "is_null r \<longleftrightarrow> r = ENull \<or> r = EVal JNull"

definition num_as_f64 :: "'f sql_env \<Rightarrow> 'f jnum \<Rightarrow> 'f" where
  "num_as_f64 env n = (case n of JInt i \<Rightarrow> f_of_int env i | JFloat f \<Rightarrow> f)"

fun as_f64 :: "'f sql_env \<Rightarrow> 'f eval_result \<Rightarrow> 'f option" where
  "as_f64 env (EVal (JNum n)) = Some (num_as_f64 env n)"
| "as_f64 env (EVal (JStr s)) = f_parse env s"
| "as_f64 env _ = None"

text \<open>\<open>json!(x)\<close> of a float: not finite becomes null.\<close>

definition json_float :: "'f sql_env \<Rightarrow> 'f \<Rightarrow> 'f json" where
  "json_float env x = (if f_finite env x then JNum (JFloat x) else JNull)"

definition trim_backticks :: "string \<Rightarrow> string" where
  "trim_backticks s = (let d = dropWhile (\<lambda>c. c = CHR ''`'') in rev (d (rev (d s))))"

definition sql_value_to_json :: "'f sql_env \<Rightarrow> sql_value \<Rightarrow> 'f json" where
  "sql_value_to_json env v =
     (case v of
        SNumber s \<Rightarrow> (case i64_parse env s of
                        Some n \<Rightarrow> JNum (JInt n)
                      | None \<Rightarrow> (case f_parse env s of Some x \<Rightarrow> json_float env x | None \<Rightarrow> JStr s))
      | SSingleQuoted s \<Rightarrow> (case json_parse env s of Some j \<Rightarrow> j | None \<Rightarrow> JStr s)
      | SDoubleQuoted s \<Rightarrow> (case json_parse env s of Some j \<Rightarrow> j | None \<Rightarrow> JStr s)
      | SBoolean b \<Rightarrow> JBool b
      | SNull \<Rightarrow> JNull
      | SOtherValue s \<Rightarrow> JStr s)"

definition json_to_str :: "'f sql_env \<Rightarrow> 'f json \<Rightarrow> string" where
  "json_to_str env v = (case v of JStr s \<Rightarrow> s | JNull \<Rightarrow> [] | other \<Rightarrow> json_show env other)"

definition json_to_sort_str :: "'f sql_env \<Rightarrow> 'f json \<Rightarrow> string" where
  "json_to_sort_str env v =
     (case v of
        JNum n \<Rightarrow> f_sort_text env (num_as_f64 env n)
      | JStr s \<Rightarrow> (case f_parse env s of Some x \<Rightarrow> f_sort_text env x | None \<Rightarrow> s)
      | JBool b \<Rightarrow> (if b then ''true'' else ''false'')
      | JNull \<Rightarrow> []
      | other \<Rightarrow> json_show env other)"

definition f_eq :: "'f sql_env \<Rightarrow> 'f \<Rightarrow> 'f \<Rightarrow> bool" where
  "f_eq env a b \<longleftrightarrow> f_cmp env a b = Some Equal"

definition opt_f_eq :: "'f sql_env \<Rightarrow> 'f option \<Rightarrow> 'f option \<Rightarrow> bool" where
  "opt_f_eq env a b = (case (a, b) of (Some x, Some y) \<Rightarrow> f_eq env x y | (None, None) \<Rightarrow> True | _ \<Rightarrow> False)"

text \<open>Equality of JSON values compares floats as floats, also inside arrays and objects.\<close>

definition jnum_eq :: "'f sql_env \<Rightarrow> 'f jnum \<Rightarrow> 'f jnum \<Rightarrow> bool" where
  "jnum_eq env a b =
     (case (a, b) of (JInt i, JInt j) \<Rightarrow> i = j | (JFloat x, JFloat y) \<Rightarrow> f_eq env x y | _ \<Rightarrow> False)"

fun value_eq :: "'f sql_env \<Rightarrow> 'f json \<Rightarrow> 'f json \<Rightarrow> bool" where
  "value_eq env JNull b \<longleftrightarrow> b = JNull"
| "value_eq env (JBool x) b \<longleftrightarrow> b = JBool x"
| "value_eq env (JNum n) b \<longleftrightarrow> (case b of JNum m \<Rightarrow> jnum_eq env n m | _ \<Rightarrow> False)"
| "value_eq env (JStr s) b \<longleftrightarrow> b = JStr s"
| "value_eq env (JArray xs) b \<longleftrightarrow>
     (case b of JArray ys \<Rightarrow> length xs = length ys \<and> list_all (\<lambda>(f, y). f y) (zip (map (value_eq env) xs) ys) | _ \<Rightarrow> False)"
| "value_eq env (JObject kvs) b \<longleftrightarrow>
     (case b of JObject lws \<Rightarrow> map fst kvs = map fst lws \<and>
        list_all (\<lambda>(f, w). f (snd w)) (zip (map (\<lambda>(k, v). value_eq env v) kvs) lws) | _ \<Rightarrow> False)"

definition json_eq :: "'f sql_env \<Rightarrow> 'f json \<Rightarrow> 'f json \<Rightarrow> bool" where
  "json_eq env a b =
     (case (a, b) of
        (JNum na, JNum nb) \<Rightarrow> f_eq env (num_as_f64 env na) (num_as_f64 env nb)
      | (JStr sa, JNum nb) \<Rightarrow> opt_f_eq env (f_parse env sa) (Some (num_as_f64 env nb))
      | (JNum na, JStr sb) \<Rightarrow> opt_f_eq env (Some (num_as_f64 env na)) (f_parse env sb)
      | _ \<Rightarrow> value_eq env a b \<or> json_show env a = json_show env b)"

definition str_cmp :: "string \<Rightarrow> string \<Rightarrow> rust_ordering" where
  "str_cmp a b = (if a < b then Less else if a = b then Equal else Greater)"

definition bool_cmp :: "bool \<Rightarrow> bool \<Rightarrow> rust_ordering" where
  "bool_cmp a b = (if a = b then Equal else if b then Less else Greater)"

definition cmp_json :: "'f sql_env \<Rightarrow> 'f json \<Rightarrow> 'f json \<Rightarrow> rust_ordering" where
  "cmp_json env a b =
     (case (a, b) of
        (JNum na, JNum nb) \<Rightarrow> (case f_cmp env (num_as_f64 env na) (num_as_f64 env nb) of Some r \<Rightarrow> r | None \<Rightarrow> Equal)
      | (JStr sa, JStr sb) \<Rightarrow> str_cmp sa sb
      | (JBool x, JBool y) \<Rightarrow> bool_cmp x y
      | (JNull, JNull) \<Rightarrow> Equal
      | (JNull, _) \<Rightarrow> Less
      | (_, JNull) \<Rightarrow> Greater
      | _ \<Rightarrow> str_cmp (json_show env a) (json_show env b))"

definition cmp_vals :: "'f sql_env \<Rightarrow> 'f eval_result \<Rightarrow> 'f eval_result \<Rightarrow> rust_ordering" where
  "cmp_vals env a b = cmp_json env (into_value a) (into_value b)"

fun is_int_result :: "'f eval_result \<Rightarrow> bool" where
  "is_int_result (EVal (JNum (JInt _))) = True"
| "is_int_result _ = False"

definition numeric_op :: "'f sql_env \<Rightarrow> ('f \<Rightarrow> 'f \<Rightarrow> 'f) \<Rightarrow> 'f eval_result \<Rightarrow> 'f eval_result \<Rightarrow> 'f eval_result" where
  "numeric_op env op a b =
     (case (as_f64 env a, as_f64 env b) of
        (Some x, Some y) \<Rightarrow>
          (let result = op x y
           in if is_int_result a \<and> is_int_result b \<and> f_fract_zero env result \<and> f_small env result
              then EVal (JNum (JInt (f_to_i64 env result))) else EVal (json_float env result))
      | _ \<Rightarrow> ENull)"

definition f_div_or_zero :: "'f sql_env \<Rightarrow> 'f \<Rightarrow> 'f \<Rightarrow> 'f" where
  "f_div_or_zero env a b = (if f_eq env b (f_of_int env 0) then f_of_int env 0 else f_div env a b)"

definition like_match :: "'f sql_env \<Rightarrow> string \<Rightarrow> string \<Rightarrow> bool" where
  "like_match env s pattern =
     (let body = concat (map (\<lambda>c. if c = CHR ''%'' then ''.*'' else if c = CHR ''_'' then ''.'' else [c]) (re_escape env pattern))
      in case re_match env (''(?i)^'' @ body @ ''$'') s of Some b \<Rightarrow> b | None \<Rightarrow> False)"

definition eval_literal_as_usize :: "'f sql_env \<Rightarrow> sql_expr \<Rightarrow> nat option" where
  "eval_literal_as_usize env e = (case e of EValue (SNumber s) \<Rightarrow> usize_parse env s | _ \<Rightarrow> None)"

section \<open>Scalar functions\<close>

text \<open>The functions get the values of the plain expression arguments; \<open>None\<close> when there is no
  argument list.\<close>

definition split_on :: "char \<Rightarrow> string \<Rightarrow> string list" where
  "split_on c s = foldr (\<lambda>x acc. if x = c then [] # acc else (x # hd acc) # tl acc) s [[]]"

definition nth_or_empty :: "string list \<Rightarrow> nat \<Rightarrow> string" where
  "nth_or_empty xs i = (if i < length xs then xs ! i else [])"

text \<open>\<open>str::replace\<close> of a two-character pattern, left to right without overlaps.\<close>

fun replace2 :: "char \<Rightarrow> char \<Rightarrow> string \<Rightarrow> string \<Rightarrow> string" where
  "replace2 a b r (x # y # s) = (if x = a \<and> y = b then r @ replace2 a b r s else x # replace2 a b r (y # s))"
| "replace2 a b r s = s"

definition date_format :: "string \<Rightarrow> string \<Rightarrow> string" where
  "date_format date_str fmt_str =
     (let date_part = (if 10 \<le> length date_str then take 10 date_str else date_str);
          parts = split_on CHR ''-'' date_part;
          y = nth_or_empty parts 0; m = nth_or_empty parts 1; d = nth_or_empty parts 2
      in replace2 CHR ''%'' CHR ''y'' (if 4 \<le> length y then drop 2 y else y)
           (replace2 CHR ''%'' CHR ''d'' d (replace2 CHR ''%'' CHR ''m'' m (replace2 CHR ''%'' CHR ''Y'' y fmt_str))))"

definition sql_round :: "'f sql_env \<Rightarrow> 'f \<Rightarrow> int \<Rightarrow> 'f eval_result" where
  "sql_round env n decimals =
     (let factor = f_pow10 env decimals;
          result = f_div env (f_round env (f_mul env n factor)) factor
      in if decimals \<le> 0 \<and> f_fract_zero env result then EVal (JNum (JInt (f_to_i64 env result)))
         else EVal (json_float env result))"

definition eval_function :: "'f sql_env \<Rightarrow> string \<Rightarrow> 'f eval_result list option \<Rightarrow> 'f eval_result" where
  "eval_function env fname args =
     (let name = to_upper env fname;
          vals = (case args of None \<Rightarrow> [] | Some vs \<Rightarrow> vs);
          text = (\<lambda>r. json_to_str env (into_value r))
      in if name = ''UPPER'' then (case vals of [] \<Rightarrow> ENull | v # _ \<Rightarrow> EVal (JStr (to_upper env (text v))))
         else if name = ''LOWER'' then (case vals of [] \<Rightarrow> ENull | v # _ \<Rightarrow> EVal (JStr (to_lower env (text v))))
         else if name = ''LENGTH'' \<or> name = ''CHAR_LENGTH''
         then (case vals of [] \<Rightarrow> ENull | v # _ \<Rightarrow> EVal (JNum (JInt (int (length (text v))))))
         else if name = ''NOW'' \<or> name = ''CURRENT_TIMESTAMP'' \<or> name = ''SYSDATE'' then EVal (JStr (now_text env))
         else if name = ''COALESCE'' then (case find (\<lambda>v. \<not> is_null v) vals of None \<Rightarrow> ENull | Some v \<Rightarrow> v)
         else if name = ''IF''
         then (if 3 \<le> length vals then (if as_bool (vals ! 0) then vals ! 1 else vals ! 2) else ENull)
         else if name = ''CONCAT'' then EVal (JStr (concat (map text vals)))
         else if name = ''ROUND''
         then (case vals of [] \<Rightarrow> ENull
               | v # rest \<Rightarrow>
                   (case as_f64 env v of
                      None \<Rightarrow> ENull
                    | Some n \<Rightarrow>
                        sql_round env n (f_to_i32 env (case rest of [] \<Rightarrow> f_of_int env 0
                          | d # _ \<Rightarrow> (case as_f64 env d of None \<Rightarrow> f_of_int env 0 | Some x \<Rightarrow> x)))))
         else if name = ''DATE_FORMAT''
         then (if 2 \<le> length vals then EVal (JStr (date_format (text (vals ! 0)) (text (vals ! 1)))) else ENull)
         else ENull)"

section \<open>Evaluation\<close>

definition eval_binary :: "'f sql_env \<Rightarrow> bin_op \<Rightarrow> 'f eval_result \<Rightarrow> 'f eval_result \<Rightarrow> 'f eval_result" where
  "eval_binary env op l r =
     (case op of
        BEq \<Rightarrow> EBool (json_eq env (into_value l) (into_value r))
      | BNotEq \<Rightarrow> EBool (\<not> json_eq env (into_value l) (into_value r))
      | BLt \<Rightarrow> EBool (cmp_vals env l r = Less)
      | BLtEq \<Rightarrow> EBool (cmp_vals env l r \<noteq> Greater)
      | BGt \<Rightarrow> EBool (cmp_vals env l r = Greater)
      | BGtEq \<Rightarrow> EBool (cmp_vals env l r \<noteq> Less)
      | BAnd \<Rightarrow> EBool (as_bool l \<and> as_bool r)
      | BOr \<Rightarrow> EBool (as_bool l \<or> as_bool r)
      | BPlus \<Rightarrow> numeric_op env (f_add env) l r
      | BMinus \<Rightarrow> numeric_op env (f_sub env) l r
      | BMultiply \<Rightarrow> numeric_op env (f_mul env) l r
      | BDivide \<Rightarrow> numeric_op env (f_div_or_zero env) l r
      | BStringConcat \<Rightarrow> EVal (JStr (json_to_str env (into_value l) @ json_to_str env (into_value r)))
      | BOther \<Rightarrow> ENull)"

definition lookup_col :: "string list \<Rightarrow> 'f sql_row \<Rightarrow> 'f eval_result" where
  "lookup_col ks r = (case List.map_filter r ks of [] \<Rightarrow> ENull | v # _ \<Rightarrow> EVal v)"

definition join_dots :: "string list \<Rightarrow> string" where
  "join_dots ps = (case ps of [] \<Rightarrow> [] | p # rest \<Rightarrow> p @ concat (map (\<lambda>q. ''.'' @ q) rest))"

definition last_or_empty :: "string list \<Rightarrow> string" where
  "last_or_empty ps = (if ps = [] then [] else last ps)"

text \<open>The keys under which an identifier is looked up, in order.\<close>

definition compound_keys :: "string list \<Rightarrow> string list" where
  "compound_keys parts = (let ts = map trim_backticks parts in [join_dots ts, last_or_empty ts])"

fun case_first :: "('f eval_result \<Rightarrow> bool) \<Rightarrow> ('f eval_result \<times> 'f eval_result) list \<Rightarrow> 'f eval_result option" where
  "case_first P [] = None"
| "case_first P ((c, r) # cs) = (if P c then Some r else case_first P cs)"

definition pick_case :: "'f sql_env \<Rightarrow> 'f eval_result option \<Rightarrow> ('f eval_result \<times> 'f eval_result) list \<Rightarrow>
    'f eval_result option \<Rightarrow> 'f eval_result" where
  "pick_case env operand branches els =
     (let test = (case operand of Some v \<Rightarrow> (\<lambda>c. json_eq env (into_value c) (into_value v)) | None \<Rightarrow> as_bool)
      in case case_first test branches of
           Some r \<Rightarrow> r
         | None \<Rightarrow> (case els of Some r \<Rightarrow> r | None \<Rightarrow> ENull))"

fun eval_expr :: "'f sql_env \<Rightarrow> sql_expr \<Rightarrow> 'f sql_row \<Rightarrow> 'f eval_result" and
  eval_arg :: "'f sql_env \<Rightarrow> sql_arg \<Rightarrow> 'f sql_row \<Rightarrow> 'f eval_result option" where
  "eval_expr env (EIdentifier ident) row = lookup_col [trim_backticks ident] row"
| "eval_expr env (ECompound parts) row = lookup_col (compound_keys parts) row"
| "eval_expr env (EValue v) row = EVal (sql_value_to_json env v)"
| "eval_expr env (EUnary op e) row =
     (let inner = eval_expr env e row
      in case op of
           UNot \<Rightarrow> EBool (\<not> as_bool inner)
         | UMinus \<Rightarrow> (case as_f64 env inner of None \<Rightarrow> ENull | Some n \<Rightarrow> EVal (json_float env (f_neg env n)))
         | UOther \<Rightarrow> inner)"
| "eval_expr env (EBinary l op r) row = eval_binary env op (eval_expr env l row) (eval_expr env r row)"
| "eval_expr env (ELike e p negated) row =
     (let matched = like_match env (json_to_str env (into_value (eval_expr env e row)))
                      (json_to_str env (into_value (eval_expr env p row)))
      in EBool (if negated then \<not> matched else matched))"
| "eval_expr env (EIsNull e) row = EBool (is_null (eval_expr env e row))"
| "eval_expr env (EIsNotNull e) row = EBool (\<not> is_null (eval_expr env e row))"
| "eval_expr env (EInList e es negated) row =
     (let v = into_value (eval_expr env e row);
          found = list_ex (\<lambda>x. json_eq env v (into_value x)) (map (\<lambda>x. eval_expr env x row) es)
      in EBool (if negated then \<not> found else found))"
| "eval_expr env (EBetween e lo hi negated) row =
     (let v = eval_expr env e row;
          in_range = (cmp_vals env v (eval_expr env lo row) \<noteq> Less \<and> cmp_vals env v (eval_expr env hi row) \<noteq> Greater)
      in EBool (if negated then \<not> in_range else in_range))"
| "eval_expr env (ENested e) row = eval_expr env e row"
| "eval_expr env (EFunction name args distinct_args) row =
     eval_function env name (map_option (\<lambda>as. List.map_filter id (map (\<lambda>a. eval_arg env a row) as)) args)"
| "eval_expr env (ECase operand conds results els) row =
     pick_case env (map_option (\<lambda>e. eval_expr env e row) operand)
       (zip (map (\<lambda>c. eval_expr env c row) conds) (map (\<lambda>r. eval_expr env r row) results))
       (map_option (\<lambda>e. eval_expr env e row) els)"
| "eval_expr env (EOther s) row = ENull"
| "eval_arg env (AExpr e) row = Some (eval_expr env e row)"
| "eval_arg env AWildcard row = None"
| "eval_arg env AOther row = None"

section \<open>Columns of an expression\<close>

text \<open>The walk of \<open>collect_expr_cols\<close>; it does not descend into \<open>IS NULL\<close> tests.\<close>

fun collect_expr_cols :: "'f sql_env \<Rightarrow> sql_expr \<Rightarrow> string list" and
  collect_arg_cols :: "'f sql_env \<Rightarrow> sql_arg \<Rightarrow> string list" where
  "collect_expr_cols env (EIdentifier i) = [to_lower env (trim_backticks i)]"
| "collect_expr_cols env (ECompound parts) = (if parts = [] then [] else [to_lower env (trim_backticks (last parts))])"
| "collect_expr_cols env (EBinary l op r) = collect_expr_cols env l @ collect_expr_cols env r"
| "collect_expr_cols env (EUnary op e) = collect_expr_cols env e"
| "collect_expr_cols env (EBetween e lo hi n) = collect_expr_cols env e @ collect_expr_cols env lo @ collect_expr_cols env hi"
| "collect_expr_cols env (EInList e es n) = collect_expr_cols env e @ concat (map (collect_expr_cols env) es)"
| "collect_expr_cols env (ELike e p n) = collect_expr_cols env e @ collect_expr_cols env p"
| "collect_expr_cols env (EFunction name args d) = (case args of None \<Rightarrow> [] | Some as \<Rightarrow> concat (map (collect_arg_cols env) as))"
| "collect_expr_cols env (ENested e) = collect_expr_cols env e"
| "collect_expr_cols env (ECase operand conds results els) =
     (case operand of None \<Rightarrow> [] | Some e \<Rightarrow> collect_expr_cols env e) @ concat (map (collect_expr_cols env) conds) @
     concat (map (collect_expr_cols env) results) @ (case els of None \<Rightarrow> [] | Some e \<Rightarrow> collect_expr_cols env e)"
| "collect_expr_cols env _ = []"
| "collect_arg_cols env (AExpr e) = collect_expr_cols env e"
| "collect_arg_cols env AWildcard = []"
| "collect_arg_cols env AOther = []"

fun split_and_conjuncts :: "sql_expr \<Rightarrow> sql_expr list" where
  "split_and_conjuncts (EBinary l BAnd r) = split_and_conjuncts l @ split_and_conjuncts r"
| "split_and_conjuncts (ENested e) = split_and_conjuncts e"
| "split_and_conjuncts e = [e]"

definition simple_col_name :: "sql_expr \<Rightarrow> string option" where
  "simple_col_name e =
     (case e of
        EIdentifier i \<Rightarrow> Some (trim_backticks i)
      | ECompound parts \<Rightarrow> (if parts = [] then None else Some (trim_backticks (last parts)))
      | _ \<Rightarrow> None)"

fun extract_eq_conditions :: "sql_expr \<Rightarrow> (string \<times> string) list" where
  "extract_eq_conditions (EBinary l BEq r) =
     (case (simple_col_name l, simple_col_name r) of (Some a, Some b) \<Rightarrow> [(a, b)] | _ \<Rightarrow> [])"
| "extract_eq_conditions (EBinary l BAnd r) = extract_eq_conditions l @ extract_eq_conditions r"
| "extract_eq_conditions (ENested e) = extract_eq_conditions e"
| "extract_eq_conditions _ = []"

lemma conjuncts_hold:
  "as_bool (eval_expr env e row) \<longleftrightarrow> list_all (\<lambda>c. as_bool (eval_expr env c row)) (split_and_conjuncts e)"
  by (induction e rule: split_and_conjuncts.induct) (simp_all add: eval_binary_def)

text \<open>An expression whose columns the walk visits: no \<open>IS NULL\<close> test, and every qualified name has
  a last part, which lowercasing the whole name keeps behind a dot.\<close>

fun visited :: "'f sql_env \<Rightarrow> sql_expr \<Rightarrow> bool" and visited_arg :: "'f sql_env \<Rightarrow> sql_arg \<Rightarrow> bool" where
  "visited env (ECompound parts) \<longleftrightarrow>
     parts \<noteq> [] \<and> (length parts = 1 \<or>
       suffix (''.'' @ to_lower env (trim_backticks (last parts))) (to_lower env (join_dots (map trim_backticks parts))))"
| "visited env (EUnary op e) \<longleftrightarrow> visited env e"
| "visited env (EBinary l op r) \<longleftrightarrow> visited env l \<and> visited env r"
| "visited env (ELike e p n) \<longleftrightarrow> visited env e \<and> visited env p"
| "visited env (EIsNull e) \<longleftrightarrow> False"
| "visited env (EIsNotNull e) \<longleftrightarrow> False"
| "visited env (EInList e es n) \<longleftrightarrow> visited env e \<and> list_all id (map (visited env) es)"
| "visited env (EBetween e lo hi n) \<longleftrightarrow> visited env e \<and> visited env lo \<and> visited env hi"
| "visited env (ENested e) \<longleftrightarrow> visited env e"
| "visited env (EFunction name args d) \<longleftrightarrow> (case args of None \<Rightarrow> True | Some as \<Rightarrow> list_all id (map (visited_arg env) as))"
| "visited env (ECase operand conds results els) \<longleftrightarrow>
     (case operand of None \<Rightarrow> True | Some e \<Rightarrow> visited env e) \<and> list_all id (map (visited env) conds) \<and>
     list_all id (map (visited env) results) \<and> (case els of None \<Rightarrow> True | Some e \<Rightarrow> visited env e)"
| "visited env _ \<longleftrightarrow> True"
| "visited_arg env (AExpr e) \<longleftrightarrow> visited env e"
| "visited_arg env AWildcard \<longleftrightarrow> True"
| "visited_arg env AOther \<longleftrightarrow> True"

definition key_needed :: "'f sql_env \<Rightarrow> string list \<Rightarrow> string \<Rightarrow> bool" where
  "key_needed env cols k \<longleftrightarrow>
     (let kl = to_lower env k in kl \<in> set cols \<or> list_ex (\<lambda>n. suffix (''.'' @ n) kl) cols)"

definition agree :: "'f sql_env \<Rightarrow> string list \<Rightarrow> 'f sql_row \<Rightarrow> 'f sql_row \<Rightarrow> bool" where
  "agree env cols r r' \<longleftrightarrow> (\<forall>k. key_needed env cols k \<longrightarrow> r k = r' k)"

lemma agree_simps [simp]:
  "agree env [] r r'"
  "agree env (a @ b) r r' \<longleftrightarrow> agree env a r r' \<and> agree env b r r'"
  "agree env (concat cs) r r' \<longleftrightarrow> (\<forall>c \<in> set cs. agree env c r r')"
  by (auto simp: agree_def key_needed_def Let_def list_ex_iff)

lemma agree_mono: "agree env b r r' \<Longrightarrow> set a \<subseteq> set b \<Longrightarrow> agree env a r r'"
  by (auto simp: agree_def key_needed_def Let_def list_ex_iff)

lemma lookup_col_cong: "(\<And>k. k \<in> set ks \<Longrightarrow> r k = r' k) \<Longrightarrow> lookup_col ks r = lookup_col ks r'"
proof -
  assume "\<And>k. k \<in> set ks \<Longrightarrow> r k = r' k"
  then have "List.map_filter r ks = List.map_filter r' ks"
    by (induction ks) (simp_all split: option.split)
  then show ?thesis by (simp add: lookup_col_def)
qed

lemma compound_keys_needed:
  assumes "visited env (ECompound parts)" "k \<in> set (compound_keys parts)"
  shows "key_needed env (collect_expr_cols env (ECompound parts)) k"
proof -
  have ne: "parts \<noteq> []" using assms(1) by simp
  then have l: "last_or_empty (map trim_backticks parts) = trim_backticks (last parts)"
    by (simp add: last_or_empty_def last_map)
  consider "k = trim_backticks (last parts)" | "k = join_dots (map trim_backticks parts)"
    using assms(2) l by (auto simp: compound_keys_def Let_def)
  then show ?thesis
  proof cases
    case 1
    then show ?thesis using ne by (simp add: key_needed_def)
  next
    case 2
    show ?thesis
    proof (cases "length parts = 1")
      case True
      then obtain p where "parts = [p]" by (cases parts) auto
      with 2 show ?thesis by (simp add: key_needed_def join_dots_def)
    next
      case False
      with 2 ne assms(1) show ?thesis by (auto simp: key_needed_def Let_def)
    qed
  qed
qed

text \<open>The value of a visited expression depends only on the columns the walk collects.\<close>

lemma eval_expr_cong:
  shows "visited env e \<Longrightarrow> agree env (collect_expr_cols env e) r r' \<Longrightarrow> eval_expr env e r = eval_expr env e r'"
    and "visited_arg env a \<Longrightarrow> agree env (collect_arg_cols env a) r r' \<Longrightarrow> eval_arg env a r = eval_arg env a r'"
proof (induction env e r and env a r rule: eval_expr_eval_arg.induct)
  case (1 env i row)
  then show ?case by (auto simp: agree_def key_needed_def intro!: lookup_col_cong)
next
  case (2 env parts row)
  then show ?case unfolding eval_expr.simps agree_def by (intro lookup_col_cong) (metis compound_keys_needed)
next
  case (9 env e es negated row)
  then have "map (\<lambda>x. eval_expr env x row) es = map (\<lambda>x. eval_expr env x r') es"
    by (auto simp: list_all_iff)
  moreover have "eval_expr env e row = eval_expr env e r'" using 9 by simp
  ultimately show ?case by (simp add: Let_def cong: map_cong)
next
  case (12 env name args d row)
  show ?case
  proof (cases args)
    case (Some as)
    with 12 have "map (\<lambda>a. eval_arg env a row) as = map (\<lambda>a. eval_arg env a r') as"
      by (auto simp: list_all_iff)
    then have "List.map_filter id (map (\<lambda>a. eval_arg env a row) as) = List.map_filter id (map (\<lambda>a. eval_arg env a r') as)"
      by (rule arg_cong)
    with Some show ?thesis by (simp only: eval_expr.simps option.map)
  qed simp
next
  case (13 env operand conds results els row)
  have "map (\<lambda>x. eval_expr env x row) conds = map (\<lambda>x. eval_expr env x r') conds"
    using 13 by (auto simp: list_all_iff)
  moreover have "map (\<lambda>x. eval_expr env x row) results = map (\<lambda>x. eval_expr env x r') results"
    using 13 by (auto simp: list_all_iff)
  moreover have "map_option (\<lambda>e. eval_expr env e row) operand = map_option (\<lambda>e. eval_expr env e r') operand"
    using 13 by (cases operand) auto
  moreover have "map_option (\<lambda>e. eval_expr env e row) els = map_option (\<lambda>e. eval_expr env e r') els"
    using 13 by (cases els) auto
  ultimately show ?case by (simp only: eval_expr.simps)
qed (simp_all add: Let_def)

end
