(* ===== verification/SqlSelect.thy ===== *)
theory SqlSelect
  imports SqlEval
begin

text \<open>
  The in-memory row store (\<open>query-node/src/executor/mem_store.rs\<close>) and the SELECT executor over it
  (\<open>query-node/src/executor/select_exec.rs\<close>): joins, predicate pushdown and column pruning, grouping
  and aggregates, projection, HAVING, ORDER BY and LIMIT. The SQL parser and the clients of the other
  nodes are arguments; \<open>ord\<close> is the iteration order of a row's hash map. Only ASCII white space
  separates words in the table-name extraction, and the diagnostic output is left out.
\<close>

section \<open>Row store\<close>

type_synonym 'f mem_store = "string \<rightharpoonup> 'f sql_row list"

definition ms_insert :: "string \<Rightarrow> 'f sql_row \<Rightarrow> 'f mem_store \<Rightarrow> 'f mem_store" where
  "ms_insert table row m = hm_push table row m"

definition ms_scan :: "'f mem_store \<Rightarrow> string \<Rightarrow> 'f sql_row list" where
  "ms_scan m table = (case m table of None \<Rightarrow> [] | Some rows \<Rightarrow> rows)"

definition ms_row_count :: "'f mem_store \<Rightarrow> string \<Rightarrow> nat" where
  "ms_row_count m table = (case m table of None \<Rightarrow> 0 | Some rows \<Rightarrow> length rows)"

definition ms_drop_table :: "string \<Rightarrow> 'f mem_store \<Rightarrow> 'f mem_store" where
  "ms_drop_table table m = m(table := None)"

definition ms_table_exists :: "'f mem_store \<Rightarrow> string \<Rightarrow> bool" where
  "ms_table_exists m table \<longleftrightarrow> m table \<noteq> None"

definition ms_replace :: "string \<Rightarrow> 'f sql_row list \<Rightarrow> 'f mem_store \<Rightarrow> 'f mem_store" where
  "ms_replace table rows m = fold (ms_insert table) rows (ms_drop_table table m)"

lemma ms_scan_insert:
  "ms_scan (ms_insert t r m) t' = (if t = t' then ms_scan m t' @ [r] else ms_scan m t')"
  by (simp add: ms_scan_def ms_insert_def hm_push_def)

lemma ms_scan_inserts:
  "ms_scan (fold (ms_insert t) rs m) t' = (if t = t' then ms_scan m t' @ rs else ms_scan m t')"
  by (induction rs arbitrary: m) (simp_all add: ms_scan_insert)

lemma ms_scan_replace: "ms_scan (ms_replace t rs m) t' = (if t = t' then rs else ms_scan m t')"
  by (simp add: ms_replace_def ms_scan_inserts) (simp add: ms_scan_def ms_drop_table_def)

lemma ms_row_count_scan: "ms_row_count m t = length (ms_scan m t)"
  by (simp add: ms_row_count_def ms_scan_def split: option.split)

section \<open>Statements\<close>

datatype select_item =
    UnnamedExpr sql_expr
  | ExprWithAlias sql_expr string
  | Wildcard
  | QualifiedWildcard string

text \<open>A table: the parts of its name, the name as the parser prints it, and its alias.\<close>

datatype table_factor = FTable "string list" string "string option" | FOther

datatype join_constraint = JOn sql_expr | JOtherConstraint

datatype join_operator =
    JInner join_constraint
  | JLeftOuter join_constraint
  | JRightOuter join_constraint
  | JCross
  | JOtherJoin

record join_clause =
  jc_relation :: table_factor
  jc_operator :: join_operator

record from_item =
  fi_relation :: table_factor
  fi_joins :: "join_clause list"

datatype group_by_expr = GroupExprs "sql_expr list" | GroupAll

record order_expr =
  oe_expr :: sql_expr
  oe_asc :: "bool option"

record select_query =
  sq_projection :: "select_item list"
  sq_from :: "from_item list"
  sq_selection :: "sql_expr option"
  sq_group_by :: group_by_expr
  sq_having :: "sql_expr option"
  sq_distinct :: bool
  sq_order_by :: "order_expr list option"
  sq_limit :: "sql_expr option"

datatype sql_statement = QuerySelect select_query | QueryOther | NotQuery

record 'f select_result =
  sr_columns :: "string list"
  sr_rows :: "'f json list list"

datatype select_error =
    ParseError string
  | EmptyQuery
  | NotASelect
  | UnsupportedBody
  | UnsupportedJoinTable

section \<open>Names and headers\<close>

definition join_commas :: "string list \<Rightarrow> string" where
  "join_commas ps = (case ps of [] \<Rightarrow> [] | p # rest \<Rightarrow> p @ concat (map (\<lambda>q. '','' @ q) rest))"

definition expr_to_col_name :: "'f sql_env \<Rightarrow> sql_expr \<Rightarrow> string" where
  "expr_to_col_name env e =
     (case e of
        EIdentifier i \<Rightarrow> trim_backticks i
      | ECompound parts \<Rightarrow> (if parts = [] then [] else trim_backticks (last parts))
      | EFunction name args d \<Rightarrow>
          name @ ''('' @ (case args of Some as \<Rightarrow> join_commas (map (arg_show env) as) | None \<Rightarrow> []) @ '')''
      | _ \<Rightarrow> expr_show env e)"

definition select_item_header :: "'f sql_env \<Rightarrow> select_item \<Rightarrow> string" where
  "select_item_header env item =
     (case item of
        UnnamedExpr e \<Rightarrow> expr_to_col_name env e
      | ExprWithAlias e alias \<Rightarrow> alias
      | Wildcard \<Rightarrow> ''*''
      | QualifiedWildcard name \<Rightarrow> name @ ''.*'')"

fun item_expr :: "select_item \<Rightarrow> sql_expr option" where
  "item_expr (UnnamedExpr e) = Some e"
| "item_expr (ExprWithAlias e a) = Some e"
| "item_expr _ = None"

section \<open>Pushdown and pruning\<close>

definition keys_lower :: "'f sql_env \<Rightarrow> 'f sql_row \<Rightarrow> string set" where
  "keys_lower env r = to_lower env ` dom r"

definition conjunct_applicable :: "'f sql_env \<Rightarrow> string set \<Rightarrow> sql_expr \<Rightarrow> bool" where
  "conjunct_applicable env available c \<longleftrightarrow>
     (let needed = collect_expr_cols env c
      in needed \<noteq> [] \<and>
         list_all (\<lambda>col. col \<in> available \<or> (\<exists>k \<in> available. suffix (''.'' @ col) k)) needed)"

definition apply_partial_where :: "'f sql_env \<Rightarrow> sql_expr list \<Rightarrow> 'f sql_row list \<Rightarrow> 'f sql_row list" where
  "apply_partial_where env conjuncts rows =
     (if rows = [] \<or> conjuncts = [] then rows
      else let available = keys_lower env (hd rows);
               applicable = filter (conjunct_applicable env available) conjuncts
           in if applicable = [] then rows
              else filter (\<lambda>row. list_all (\<lambda>c. as_bool (eval_expr env c row)) applicable) rows)"

definition collect_query_needed_cols :: "'f sql_env \<Rightarrow> select_query \<Rightarrow> string list option" where
  "collect_query_needed_cols env q =
     (if list_ex (\<lambda>i. item_expr i = None) (sq_projection q) then None
      else Some (concat (map (collect_expr_cols env)
        (List.map_filter item_expr (sq_projection q) @
         (case sq_selection q of Some e \<Rightarrow> [e] | None \<Rightarrow> []) @
         (case sq_group_by q of GroupExprs es \<Rightarrow> es | GroupAll \<Rightarrow> []) @
         (case sq_order_by q of Some obs \<Rightarrow> map oe_expr obs | None \<Rightarrow> []) @
         (case sq_having q of Some e \<Rightarrow> [e] | None \<Rightarrow> [])))))"

definition retain_keys :: "(string \<Rightarrow> bool) \<Rightarrow> 'f sql_row \<Rightarrow> 'f sql_row" where
  "retain_keys P r = (\<lambda>k. if P k then r k else None)"

definition project_to_needed_cols :: "'f sql_env \<Rightarrow> string list \<Rightarrow> 'f sql_row list \<Rightarrow> 'f sql_row list" where
  "project_to_needed_cols env needed rows =
     (if needed = [] \<or> rows = [] then rows
      else let keep = {k \<in> dom (hd rows). key_needed env needed k}
           in if keep = {} then rows else map (retain_keys (\<lambda>k. k \<in> keep)) rows)"

definition prune :: "'f sql_env \<Rightarrow> sql_expr list \<Rightarrow> string list option \<Rightarrow> 'f sql_row list \<Rightarrow> 'f sql_row list" where
  "prune env conjuncts needed rows =
     (let r = apply_partial_where env conjuncts rows
      in case needed of Some nc \<Rightarrow> project_to_needed_cols env nc r | None \<Rightarrow> r)"

section \<open>Joins\<close>

type_synonym 'f row_order = "(string, 'f json) hash_order"

definition alias_key :: "string \<Rightarrow> string \<Rightarrow> string" where
  "alias_key alias k = alias @ ''.'' @ k"

definition add_alias :: "'f row_order \<Rightarrow> string option \<Rightarrow> 'f sql_row \<Rightarrow> 'f sql_row" where
  "add_alias ord alias row =
     (case alias of
        None \<Rightarrow> row
      | Some a \<Rightarrow> fold (\<lambda>k r. r(alias_key a k := r k)) (ord row) row)"

definition merge_entry :: "string option \<Rightarrow> string \<times> 'f json \<Rightarrow> 'f sql_row \<Rightarrow> 'f sql_row" where
  "merge_entry alias kv m =
     (case kv of (k, v) \<Rightarrow>
        let m' = (case m k of None \<Rightarrow> m(k \<mapsto> v) | Some _ \<Rightarrow> m)
        in case alias of Some a \<Rightarrow> m'(alias_key a k \<mapsto> v) | None \<Rightarrow> m')"

definition merge_rows :: "'f row_order \<Rightarrow> string option \<Rightarrow> 'f sql_row \<Rightarrow> 'f sql_row \<Rightarrow> 'f sql_row" where
  "merge_rows ord alias left right = fold (merge_entry alias) (hm_entries ord right) left"

definition cross_join_tables :: "'f row_order \<Rightarrow> 'f sql_row list \<Rightarrow> 'f sql_row list \<Rightarrow> string option \<Rightarrow> 'f sql_row list" where
  "cross_join_tables ord left right alias = concat (map (\<lambda>l. map (merge_rows ord alias l) right) left)"

definition right_index_of :: "'f sql_env \<Rightarrow> string \<Rightarrow> 'f sql_row list \<Rightarrow> (string \<rightharpoonup> nat list)" where
  "right_index_of env right_col right =
     fold (\<lambda>i m. case (right ! i) right_col of
        Some v \<Rightarrow> hm_push (json_to_sort_str env v) i m | None \<Rightarrow> m) [0..<length right] Map.empty"

definition join_key_of :: "'f sql_env \<Rightarrow> string \<Rightarrow> 'f sql_row \<Rightarrow> string" where
  "join_key_of env left_col row = (case row left_col of Some v \<Rightarrow> json_to_sort_str env v | None \<Rightarrow> [])"

definition hash_join_tables :: "'f sql_env \<Rightarrow> 'f row_order \<Rightarrow> 'f sql_row list \<Rightarrow> 'f sql_row list \<Rightarrow>
    string \<Rightarrow> string \<Rightarrow> string option \<Rightarrow> 'f sql_row list" where
  "hash_join_tables env ord left right left_col right_col alias =
     (let right_index = right_index_of env right_col right
      in concat (map (\<lambda>l. case right_index (join_key_of env left_col l) of
           Some idxs \<Rightarrow> map (\<lambda>i. merge_rows ord alias l (right ! i)) idxs
         | None \<Rightarrow> []) left))"

fun on_expr :: "join_operator \<Rightarrow> sql_expr option" where
  "on_expr (JInner (JOn e)) = Some e"
| "on_expr (JLeftOuter (JOn e)) = Some e"
| "on_expr (JRightOuter (JOn e)) = Some e"
| "on_expr _ = None"

fun is_left_join :: "join_operator \<Rightarrow> bool" where
  "is_left_join (JLeftOuter _) = True"
| "is_left_join _ = False"

definition join_row :: "'f sql_env \<Rightarrow> 'f row_order \<Rightarrow> join_operator \<Rightarrow> string option \<Rightarrow> 'f sql_row list \<Rightarrow>
    'f sql_row \<Rightarrow> 'f sql_row list" where
  "join_row env ord oper alias right left =
     (let joined = filter (\<lambda>m. case on_expr oper of Some e \<Rightarrow> as_bool (eval_expr env e m) | None \<Rightarrow> True)
                     (map (merge_rows ord alias left) right)
      in if is_left_join oper \<and> joined = [] then [left] else joined)"

fun apply_joins :: "'f sql_env \<Rightarrow> 'f row_order \<Rightarrow> 'f mem_store \<Rightarrow> join_clause list \<Rightarrow> 'f sql_row list \<Rightarrow>
    select_error + 'f sql_row list" where
  "apply_joins env ord store [] rows = Inr rows"
| "apply_joins env ord store (j # js) rows =
     (case jc_relation j of
        FOther \<Rightarrow> Inl UnsupportedJoinTable
      | FTable parts shown alias \<Rightarrow>
          apply_joins env ord store js
            (concat (map (join_row env ord (jc_operator j) alias (ms_scan store shown)) rows)))"

definition first_keys :: "'f sql_row list \<Rightarrow> string set" where
  "first_keys rows = (if rows = [] then {} else dom (hd rows))"

fun find_join_key :: "(string \<times> string) list \<Rightarrow> string set \<Rightarrow> string set \<Rightarrow> (string \<times> string) option" where
  "find_join_key [] known right_cols = None"
| "find_join_key ((a, b) # conds) known right_cols =
     (if a \<in> known \<and> b \<in> right_cols then Some (a, b)
      else if b \<in> known \<and> a \<in> right_cols then Some (b, a)
      else find_join_key conds known right_cols)"

section \<open>Aggregates\<close>

definition agg_names :: "string list" where
  "agg_names = [''COUNT'', ''SUM'', ''AVG'', ''MIN'', ''MAX'']"

definition is_aggregate :: "'f sql_env \<Rightarrow> sql_expr \<Rightarrow> bool" where
  "is_aggregate env e = (case e of EFunction name args d \<Rightarrow> to_upper env name \<in> set agg_names | _ \<Rightarrow> False)"

fun contains_aggregate :: "'f sql_env \<Rightarrow> sql_expr \<Rightarrow> bool" where
  "contains_aggregate env (EFunction n a d) = is_aggregate env (EFunction n a d)"
| "contains_aggregate env (EBinary l op r) = (contains_aggregate env l \<or> contains_aggregate env r)"
| "contains_aggregate env (EUnary op e) = contains_aggregate env e"
| "contains_aggregate env (ENested e) = contains_aggregate env e"
| "contains_aggregate env _ = False"

fun arg_expr :: "sql_arg \<Rightarrow> sql_expr option" where
  "arg_expr (AExpr e) = Some e"
| "arg_expr _ = None"

definition first_arg_expr :: "sql_arg list option \<Rightarrow> sql_expr option" where
  "first_arg_expr args =
     (case args of None \<Rightarrow> None
      | Some as \<Rightarrow> (case List.map_filter arg_expr as of [] \<Rightarrow> None | e # _ \<Rightarrow> Some e))"

fun distinct_count :: "string set \<Rightarrow> string list \<Rightarrow> nat" where
  "distinct_count seen [] = 0"
| "distinct_count seen (k # ks) =
     (if k \<in> seen then distinct_count seen ks else Suc (distinct_count (insert k seen) ks))"

definition agg_vals :: "'f sql_env \<Rightarrow> sql_expr \<Rightarrow> 'f sql_row list \<Rightarrow> 'f list" where
  "agg_vals env e rows = List.map_filter (\<lambda>r. as_f64 env (eval_expr env e r)) rows"

definition agg_count :: "'f sql_env \<Rightarrow> sql_arg list option \<Rightarrow> bool \<Rightarrow> 'f sql_row list \<Rightarrow> nat" where
  "agg_count env args is_distinct rows =
     (case first_arg_expr args of
        None \<Rightarrow> length rows
      | Some e \<Rightarrow>
          if (case args of Some as \<Rightarrow> AWildcard \<in> set as | None \<Rightarrow> False) then length rows
          else if is_distinct
          then distinct_count {} (map (\<lambda>r. json_to_sort_str env (into_value (eval_expr env e r)))
                 (filter (\<lambda>r. into_value (eval_expr env e r) \<noteq> JNull) rows))
          else length (filter (\<lambda>r. \<not> is_null (eval_expr env e r)) rows))"

definition eval_aggregate :: "'f sql_env \<Rightarrow> sql_expr \<Rightarrow> 'f sql_row list \<Rightarrow> 'f json" where
  "eval_aggregate env expr rows =
     (case expr of
        EFunction fname args is_distinct \<Rightarrow>
          (let name = to_upper env fname;
               vals = (case first_arg_expr args of Some e \<Rightarrow> agg_vals env e rows | None \<Rightarrow> []);
               total_of = foldl (f_add env) (f_sum_zero env)
           in if name = ''COUNT'' then JNum (JInt (int (agg_count env args is_distinct rows)))
              else if vals = [] then JNull
              else if name = ''SUM'' then json_float env (total_of vals)
              else if name = ''AVG'' then json_float env (f_div env (total_of vals) (f_of_int env (int (length vals))))
              else if name = ''MIN'' then json_float env (foldl (f_min env) (hd vals) (tl vals))
              else if name = ''MAX'' then json_float env (foldl (f_max env) (hd vals) (tl vals))
              else JNull)
      | _ \<Rightarrow> JNull)"

fun eval_aggregate_expr :: "'f sql_env \<Rightarrow> sql_expr \<Rightarrow> 'f sql_row list \<Rightarrow> 'f json" where
  "eval_aggregate_expr env (EBinary l op r) rows =
     (let lv = EVal (eval_aggregate_expr env l rows); rv = EVal (eval_aggregate_expr env r rows)
      in into_value (case op of
           BPlus \<Rightarrow> numeric_op env (f_add env) lv rv
         | BMinus \<Rightarrow> numeric_op env (f_sub env) lv rv
         | BMultiply \<Rightarrow> numeric_op env (f_mul env) lv rv
         | BDivide \<Rightarrow> numeric_op env (f_div_or_zero env) lv rv
         | _ \<Rightarrow> ENull))"
| "eval_aggregate_expr env (ENested e) rows = eval_aggregate_expr env e rows"
| "eval_aggregate_expr env (EValue v) rows = sql_value_to_json env v"
| "eval_aggregate_expr env e rows =
     (if is_aggregate env e then eval_aggregate env e rows
      else case rows of [] \<Rightarrow> JNull | r # _ \<Rightarrow> into_value (eval_expr env e r))"

section \<open>Grouping and projection\<close>

definition row_group_key :: "'f sql_env \<Rightarrow> string list \<Rightarrow> 'f sql_row \<Rightarrow> string list" where
  "row_group_key env group_keys row = map (\<lambda>k. join_key_of env k row) group_keys"

text \<open>The cells one select item contributes to the row of a group.\<close>

definition group_cells :: "'f sql_env \<Rightarrow> string list \<Rightarrow> string list \<Rightarrow> 'f sql_row list \<Rightarrow> select_item \<Rightarrow> 'f json list" where
  "group_cells env group_keys key_vals group_rows item =
     (case item_expr item of
        Some expr \<Rightarrow>
          if is_aggregate env expr then [eval_aggregate env expr group_rows]
          else (let col = expr_to_col_name env expr;
                    v = (case group_rows of [] \<Rightarrow> None | r # _ \<Rightarrow> r col)
                in [case v of
                      Some x \<Rightarrow> x
                    | None \<Rightarrow> (case List.find (\<lambda>(k, s). k = col) (zip group_keys key_vals) of
                                 Some (k, s) \<Rightarrow> JStr s | None \<Rightarrow> JNull)])
      | None \<Rightarrow> (if item = Wildcard then map JStr key_vals else [JNull]))"

definition execute_group_by :: "'f sql_env \<Rightarrow> select_item list \<Rightarrow> 'f sql_row list \<Rightarrow> string list \<Rightarrow> 'f select_result" where
  "execute_group_by env items rows group_keys =
     (let groups = group_by_key (row_group_key env group_keys) rows
      in \<lparr>sr_columns = map (select_item_header env) items,
          sr_rows = map (\<lambda>(key_vals, group_rows). concat (map (group_cells env group_keys key_vals group_rows) items))
                      (hm_entries sorted_order groups)\<rparr>)"

definition sorted_cells :: "'f sql_row \<Rightarrow> 'f json list" where
  "sorted_cells row = map (\<lambda>k. the (row k)) (sorted_list_of_set (dom row))"

fun distinct_rows :: "'f sql_env \<Rightarrow> string set \<Rightarrow> 'f json list list \<Rightarrow> 'f json list list" where
  "distinct_rows env seen [] = []"
| "distinct_rows env seen (r # rs) =
     (let key = (case map (json_show env) r of [] \<Rightarrow> [] | p # ps \<Rightarrow> p @ concat (map (\<lambda>q. CHR 0x00 # q) ps))
      in if key \<in> seen then distinct_rows env seen rs else r # distinct_rows env (insert key seen) rs)"

definition project_cell :: "'f sql_env \<Rightarrow> 'f sql_row \<Rightarrow> select_item \<Rightarrow> 'f json" where
  "project_cell env row item =
     (case item_expr item of
        Some e \<Rightarrow> (if is_aggregate env e then JNull else into_value (eval_expr env e row))
      | None \<Rightarrow> JNull)"

definition project_rows :: "'f sql_env \<Rightarrow> select_item list \<Rightarrow> 'f sql_row list \<Rightarrow> bool \<Rightarrow> 'f select_result" where
  "project_rows env items rows distinct_on =
     (let has_wildcard = (Wildcard \<in> set items);
          col_names = (if has_wildcard
                       then (case rows of r # _ \<Rightarrow> sorted_list_of_set (dom r) | [] \<Rightarrow> [''*''])
                       else map (select_item_header env) items);
          result = map (\<lambda>row. if has_wildcard then sorted_cells row else map (project_cell env row) items) rows;
          any_agg = (\<not> has_wildcard \<and> list_ex (\<lambda>i. case item_expr i of Some e \<Rightarrow> contains_aggregate env e | None \<Rightarrow> False) items)
      in if any_agg
         then \<lparr>sr_columns = col_names,
               sr_rows = [map (\<lambda>i. case item_expr i of Some e \<Rightarrow> eval_aggregate_expr env e rows | None \<Rightarrow> JNull) items]\<rparr>
         else \<lparr>sr_columns = col_names, sr_rows = (if distinct_on then distinct_rows env {} result else result)\<rparr>)"

section \<open>HAVING, ORDER BY, LIMIT\<close>

definition having_row :: "'f sql_env \<Rightarrow> string list \<Rightarrow> 'f json list \<Rightarrow> 'f sql_row" where
  "having_row env cols vals = fold (\<lambda>(c, v) m. m(c \<mapsto> v, to_lower env c \<mapsto> v)) (zip cols vals) Map.empty"

definition apply_having :: "'f sql_env \<Rightarrow> sql_expr \<Rightarrow> 'f select_result \<Rightarrow> 'f select_result" where
  "apply_having env e res =
     res\<lparr>sr_rows := filter (\<lambda>vals. as_bool (eval_expr env e (having_row env (sr_columns res) vals))) (sr_rows res)\<rparr>"

text \<open>The stable \<open>sort_by\<close>; its result is specified when the comparison is a total preorder.\<close>

fun insort_by :: "('a \<Rightarrow> 'a \<Rightarrow> rust_ordering) \<Rightarrow> 'a \<Rightarrow> 'a list \<Rightarrow> 'a list" where
  "insort_by cmp x [] = [x]"
| "insort_by cmp x (y # ys) = (if cmp x y = Greater then y # insort_by cmp x ys else x # y # ys)"

definition sort_by :: "('a \<Rightarrow> 'a \<Rightarrow> rust_ordering) \<Rightarrow> 'a list \<Rightarrow> 'a list" where
  "sort_by cmp xs = foldr (insort_by cmp) xs []"

fun rev_ordering :: "rust_ordering \<Rightarrow> rust_ordering" where
  "rev_ordering Less = Greater"
| "rev_ordering Equal = Equal"
| "rev_ordering Greater = Less"

definition get_cell :: "nat \<Rightarrow> 'f json list \<Rightarrow> 'f json" where
  "get_cell i row = (if i < length row then row ! i else JNull)"

definition cmp_rows_at :: "'f sql_env \<Rightarrow> nat \<Rightarrow> bool \<Rightarrow> 'f json list \<Rightarrow> 'f json list \<Rightarrow> rust_ordering" where
  "cmp_rows_at env i asc a b =
     (let r = cmp_json env (get_cell i a) (get_cell i b) in if asc then r else rev_ordering r)"

definition index_where :: "('a \<Rightarrow> bool) \<Rightarrow> 'a list \<Rightarrow> nat option" where
  "index_where P xs = (let n = length (takeWhile (\<lambda>x. \<not> P x) xs) in if n < length xs then Some n else None)"

definition order_index :: "'f sql_env \<Rightarrow> string list \<Rightarrow> sql_expr \<Rightarrow> nat option" where
  "order_index env cols e =
     (case e of
        EValue (SNumber n) \<Rightarrow>
          (case usize_parse env n of Some p \<Rightarrow> (if 0 < p then Some (p - 1) else None) | None \<Rightarrow> None)
      | other \<Rightarrow>
          (let col_name = expr_to_col_name env other
           in case index_where (\<lambda>c. to_lower env c = to_lower env col_name) cols of
                Some i \<Rightarrow> Some i
              | None \<Rightarrow> index_where (\<lambda>c. c = col_name) cols))"

definition order_asc :: "order_expr \<Rightarrow> bool" where
  "order_asc ob = (case oe_asc ob of Some b \<Rightarrow> b | None \<Rightarrow> True)"

definition apply_order_by :: "'f sql_env \<Rightarrow> order_expr list \<Rightarrow> 'f select_result \<Rightarrow> 'f select_result" where
  "apply_order_by env order_by res =
     fold (\<lambda>ob r. case order_index env (sr_columns r) (oe_expr ob) of
        Some i \<Rightarrow> r\<lparr>sr_rows := sort_by (cmp_rows_at env i (order_asc ob)) (sr_rows r)\<rparr>
      | None \<Rightarrow> r) (rev order_by) res"

definition apply_limit :: "'f sql_env \<Rightarrow> sql_expr \<Rightarrow> 'f select_result \<Rightarrow> 'f select_result" where
  "apply_limit env e res =
     (case eval_literal_as_usize env e of Some n \<Rightarrow> res\<lparr>sr_rows := take n (sr_rows res)\<rparr> | None \<Rightarrow> res)"

section \<open>The executor\<close>

fun factor_table :: "table_factor \<Rightarrow> string option" where
  "factor_table (FTable parts shown alias) = Some (last_or_empty parts)"
| "factor_table FOther = None"

fun factor_alias :: "table_factor \<Rightarrow> string option" where
  "factor_alias (FTable parts shown alias) = alias"
| "factor_alias FOther = None"

definition select_without_from :: "'f sql_env \<Rightarrow> select_query \<Rightarrow> 'f select_result" where
  "select_without_from env q =
     \<lparr>sr_columns = map (select_item_header env) (sq_projection q),
      sr_rows = [map (\<lambda>i. case item_expr i of Some e \<Rightarrow> into_value (eval_expr env e Map.empty) | None \<Rightarrow> JNull)
                   (sq_projection q)]\<rparr>"

definition query_conjuncts :: "select_query \<Rightarrow> sql_expr list" where
  "query_conjuncts q = (case sq_selection q of Some e \<Rightarrow> split_and_conjuncts e | None \<Rightarrow> [])"

definition query_eq_conds :: "select_query \<Rightarrow> (string \<times> string) list" where
  "query_eq_conds q = (case sq_selection q of Some e \<Rightarrow> extract_eq_conditions e | None \<Rightarrow> [])"

definition joins_step :: "'f sql_env \<Rightarrow> 'f row_order \<Rightarrow> 'f mem_store \<Rightarrow> ('f sql_row list \<Rightarrow> 'f sql_row list) \<Rightarrow>
    join_clause list \<Rightarrow> 'f sql_row list \<Rightarrow> select_error + 'f sql_row list" where
  "joins_step env ord store pr joins rows =
     (if joins = [] then Inr rows
      else case apply_joins env ord store joins rows of Inl e \<Rightarrow> Inl e | Inr joined \<Rightarrow> Inr (pr joined))"

text \<open>The loop over the further tables of a comma-separated FROM.\<close>

fun join_extra_from :: "'f sql_env \<Rightarrow> 'f row_order \<Rightarrow> 'f mem_store \<Rightarrow> ('f sql_row list \<Rightarrow> 'f sql_row list) \<Rightarrow>
    (string \<times> string) list \<Rightarrow> from_item list \<Rightarrow> 'f sql_row list \<Rightarrow> select_error + 'f sql_row list" where
  "join_extra_from env ord store pr eq_conds [] rows = Inr rows"
| "join_extra_from env ord store pr eq_conds (f # fs) rows =
     (case factor_table (fi_relation f) of
        None \<Rightarrow> join_extra_from env ord store pr eq_conds fs rows
      | Some table \<Rightarrow>
          (let right_rows = ms_scan store table;
               alias = factor_alias (fi_relation f);
               joined = (case find_join_key eq_conds (first_keys rows) (first_keys right_rows) of
                           Some (lc, rc) \<Rightarrow> hash_join_tables env ord rows right_rows lc rc alias
                         | None \<Rightarrow> cross_join_tables ord rows right_rows alias)
           in case joins_step env ord store pr (fi_joins f) (pr joined) of
                Inl e \<Rightarrow> Inl e
              | Inr rows' \<Rightarrow> join_extra_from env ord store pr eq_conds fs rows'))"

definition where_filter :: "'f sql_env \<Rightarrow> select_query \<Rightarrow> 'f sql_row list \<Rightarrow> 'f sql_row list" where
  "where_filter env q rows =
     (case sq_selection q of Some e \<Rightarrow> filter (\<lambda>r. as_bool (eval_expr env e r)) rows | None \<Rightarrow> rows)"

definition group_by_cols :: "'f sql_env \<Rightarrow> select_query \<Rightarrow> string list" where
  "group_by_cols env q = (case sq_group_by q of GroupExprs es \<Rightarrow> map (expr_to_col_name env) es | GroupAll \<Rightarrow> [])"

text \<open>What happens to the rows once the tables are joined.\<close>

definition finish_select :: "'f sql_env \<Rightarrow> select_query \<Rightarrow> 'f sql_row list \<Rightarrow> 'f select_result" where
  "finish_select env q joined =
     (let rows = where_filter env q joined;
          result = (if group_by_cols env q = [] then project_rows env (sq_projection q) rows (sq_distinct q)
                    else execute_group_by env (sq_projection q) rows (group_by_cols env q));
          result = (case sq_having q of Some e \<Rightarrow> apply_having env e result | None \<Rightarrow> result);
          result = (case sq_order_by q of Some obs \<Rightarrow> apply_order_by env obs result | None \<Rightarrow> result)
      in case sq_limit q of Some e \<Rightarrow> apply_limit env e result | None \<Rightarrow> result)"

definition run_select :: "'f sql_env \<Rightarrow> 'f row_order \<Rightarrow> 'f mem_store \<Rightarrow> select_query \<Rightarrow> select_error + 'f select_result" where
  "run_select env ord store q =
     (case sq_from q of
        [] \<Rightarrow> Inr (select_without_from env q)
      | f # fs \<Rightarrow>
          (let table = (case factor_table (fi_relation f) of Some t \<Rightarrow> t | None \<Rightarrow> []);
               base_rows = map (add_alias ord (factor_alias (fi_relation f))) (ms_scan store table);
               pr = prune env (query_conjuncts q) (collect_query_needed_cols env q)
           in case joins_step env ord store pr (fi_joins f) (pr base_rows) of
                Inl e \<Rightarrow> Inl e
              | Inr rows \<Rightarrow>
                  (case join_extra_from env ord store pr (query_eq_conds q) fs rows of
                     Inl e \<Rightarrow> Inl e
                   | Inr rows' \<Rightarrow> Inr (finish_select env q rows'))))"

definition execute_select_sync :: "'f sql_env \<Rightarrow> 'f row_order \<Rightarrow> (string \<Rightarrow> string + sql_statement list) \<Rightarrow>
    'f mem_store \<Rightarrow> string \<Rightarrow> select_error + 'f select_result" where
  "execute_select_sync env ord parse_sql store sql =
     (case parse_sql sql of
        Inl e \<Rightarrow> Inl (ParseError e)
      | Inr [] \<Rightarrow> Inl EmptyQuery
      | Inr (NotQuery # _) \<Rightarrow> Inl NotASelect
      | Inr (QueryOther # _) \<Rightarrow> Inl UnsupportedBody
      | Inr (QuerySelect q # _) \<Rightarrow> run_select env ord store q)"

section \<open>Table names and remote rows\<close>

definition is_ws :: "char \<Rightarrow> bool" where
  "is_ws c \<longleftrightarrow> c \<in> {CHR '' '', CHR 0x09, CHR 0x0A, CHR 0x0B, CHR 0x0C, CHR 0x0D}"

definition trim_ws_start :: "string \<Rightarrow> string" where
  "trim_ws_start s = dropWhile is_ws s"

definition trim_ws :: "string \<Rightarrow> string" where
  "trim_ws s = rev (dropWhile is_ws (rev (dropWhile is_ws s)))"

fun find_sub :: "string \<Rightarrow> string \<Rightarrow> nat option" where
  "find_sub pat [] = (if pat = [] then Some 0 else None)"
| "find_sub pat (c # s) = (if prefix pat (c # s) then Some 0 else map_option Suc (find_sub pat s))"

definition from_patterns :: "string list" where
  "from_patterns = ['' from '', CHR 0x0A # ''from '', CHR 0x09 # ''from '']"

definition clause_patterns :: "string list" where
  "clause_patterns = concat (map (\<lambda>w. ['' '' @ w @ '' '', CHR 0x0A # w @ '' ''])
     [''where'', ''group'', ''order'', ''having'', ''limit'', ''join''])"

definition segment_table :: "string \<Rightarrow> string option" where
  "segment_table seg =
     (let name = trim_backticks (takeWhile (\<lambda>c. \<not> is_ws c) (trim_ws seg))
      in if name = [] \<or> hd name = CHR ''('' then None else Some name)"

definition quick_extract_all_tables :: "'f sql_env \<Rightarrow> string \<Rightarrow> string list" where
  "quick_extract_all_tables env sql =
     (let lower = to_lower env sql
      in case List.map_filter (\<lambda>pat. map_option (\<lambda>p. p + length pat) (find_sub pat lower)) from_patterns of
           [] \<Rightarrow> []
         | p # _ \<Rightarrow>
             (let after_from = trim_ws_start (drop p lower);
                  ends = List.map_filter (\<lambda>kw. find_sub kw after_from) clause_patterns;
                  end_pos = (case ends of [] \<Rightarrow> length after_from | e # es \<Rightarrow> foldl min e es)
              in List.map_filter segment_table (split_on CHR '','' (take end_pos after_from))))"

text \<open>Rows of the storage nodes replace the table in the store; an empty answer leaves it.\<close>

definition sn_refresh :: "(string \<Rightarrow> 'f sql_row list option) \<Rightarrow> string \<Rightarrow> 'f mem_store \<times> bool \<Rightarrow> 'f mem_store \<times> bool" where
  "sn_refresh scan_all_rows table st =
     (case scan_all_rows table of
        None \<Rightarrow> st
      | Some rows \<Rightarrow> (if rows = [] then fst st else ms_replace table rows (fst st), True))"

definition cn_rows :: "string list \<Rightarrow> 'f json list list \<Rightarrow> 'f sql_row list" where
  "cn_rows cols rows = map (\<lambda>r. hm_collect (zip cols r)) rows"

definition execute_select :: "'f sql_env \<Rightarrow> 'f row_order \<Rightarrow> (string \<Rightarrow> string + sql_statement list) \<Rightarrow> nat \<Rightarrow>
    (string \<Rightarrow> 'f sql_row list option) \<Rightarrow> (string \<Rightarrow> string \<Rightarrow> 'f select_result option) \<Rightarrow> bool \<Rightarrow>
    string \<Rightarrow> 'f mem_store \<Rightarrow> 'f mem_store \<times> (select_error + 'f select_result)" where
  "execute_select env ord parse_sql sn_count scan_all_rows cn_select cn_has_compute sql store =
     (let all_tables = quick_extract_all_tables env sql;
          (store1, any_sn_hit) = (if all_tables \<noteq> [] \<and> 0 < sn_count
             then fold (sn_refresh scan_all_rows) all_tables (store, False) else (store, False));
          store2 = (if any_sn_hit then store1
            else case all_tables of
              [] \<Rightarrow> store1
            | table # _ \<Rightarrow>
                (if cn_has_compute
                 then (case cn_select sql table of
                         Some r \<Rightarrow> ms_replace table (cn_rows (sr_columns r) (sr_rows r)) store1
                       | None \<Rightarrow> store1)
                 else store1))
      in (store2, execute_select_sync env ord parse_sql store2 sql))"

section \<open>Pruning does not change a query over one table\<close>

lemma conjuncts_of_where:
  "sq_selection q = Some e \<Longrightarrow> as_bool (eval_expr env e r) \<Longrightarrow> c \<in> set (query_conjuncts q) \<Longrightarrow> as_bool (eval_expr env c r)"
  using conjuncts_hold [of env e r] by (simp add: query_conjuncts_def list_all_iff)

lemma apply_partial_where_transparent:
  "where_filter env q (apply_partial_where env (query_conjuncts q) rows) = where_filter env q rows"
proof (cases "sq_selection q")
  case None
  then show ?thesis by (simp add: apply_partial_where_def query_conjuncts_def)
next
  case (Some e)
  then show ?thesis
    by (auto simp: where_filter_def apply_partial_where_def Let_def list_all_iff
        intro!: filter_cong dest: conjuncts_of_where)
qed

lemma apply_partial_where_sub: "set (apply_partial_where env cs rows) \<subseteq> set rows"
  by (auto simp: apply_partial_where_def Let_def)

definition same_columns :: "'f sql_row list \<Rightarrow> bool" where
  "same_columns rows \<longleftrightarrow> (\<forall>r \<in> set rows. dom r = dom (hd rows))"

lemma same_columns_sub: "same_columns rows \<Longrightarrow> set rows' \<subseteq> set rows \<Longrightarrow> same_columns rows'"
proof -
  assume s: "same_columns rows" "set rows' \<subseteq> set rows"
  have "dom r = dom (hd rows')" if "r \<in> set rows'" for r
  proof -
    have "hd rows' \<in> set rows'" using that by (cases rows') auto
    then have in_rows: "hd rows' \<in> set rows" "r \<in> set rows" using s(2) that by auto
    then have "dom (hd rows') = dom (hd rows)" "dom r = dom (hd rows)"
      using s(1) [unfolded same_columns_def, rule_format, OF in_rows(1)]
        s(1) [unfolded same_columns_def, rule_format, OF in_rows(2)] by simp_all
    then show ?thesis by simp
  qed
  then show ?thesis by (simp add: same_columns_def)
qed

lemma project_to_needed_cols_agree:
  assumes "same_columns rows"
  shows "\<exists>g. project_to_needed_cols env nc rows = map g rows \<and> (\<forall>r \<in> set rows. agree env nc (g r) r)"
proof (cases "project_to_needed_cols env nc rows = rows")
  case True
  then show ?thesis by (intro exI [of _ id]) (simp_all add: agree_def)
next
  case False
  define g where "g = (retain_keys (\<lambda>k. k \<in> {k \<in> dom (hd rows). key_needed env nc k}) :: 'a sql_row \<Rightarrow> _)"
  have "project_to_needed_cols env nc rows = map g rows"
    using False unfolding project_to_needed_cols_def g_def Let_def by (auto split: if_splits)
  moreover have "agree env nc (g r) r" if "r \<in> set rows" for r
  proof -
    have "dom r = dom (hd rows)" using assms that by (simp add: same_columns_def)
    then have "r k = None" if "k \<notin> dom (hd rows)" for k using that by auto
    then show ?thesis unfolding agree_def g_def retain_keys_def by (auto simp del: domIff)
  qed
  ultimately show ?thesis by blast
qed

section \<open>Results depend on the needed columns only\<close>

fun plain_col :: "sql_expr \<Rightarrow> bool" where
  "plain_col (EIdentifier i) \<longleftrightarrow> True"
| "plain_col (ECompound ps) \<longleftrightarrow> ps \<noteq> []"
| "plain_col _ \<longleftrightarrow> False"

lemma plain_col_agree:
  "plain_col e \<Longrightarrow> agree env (collect_expr_cols env e) r r' \<Longrightarrow> r (expr_to_col_name env e) = r' (expr_to_col_name env e)"
  by (cases e) (auto simp: expr_to_col_name_def agree_def key_needed_def Let_def)

lemma first_arg_visited:
  assumes "visited env (EFunction n args d)" "first_arg_expr args = Some e"
  shows "visited env e" "set (collect_expr_cols env e) \<subseteq> set (collect_expr_cols env (EFunction n args d))"
proof -
  obtain as a where as: "args = Some as" and a: "a \<in> set as" "arg_expr a = Some e"
  proof -
    from assms(2) obtain as es where 1: "args = Some as" "List.map_filter arg_expr as = e # es"
      by (auto simp: first_arg_expr_def split: option.splits list.splits)
    then have "e \<in> set (List.map_filter arg_expr as)" by simp
    then obtain a where "a \<in> set as" "arg_expr a = Some e" by (auto simp: List.map_filter_def)
    with 1(1) show thesis by (rule that)
  qed
  have "a = AExpr e" using a(2) by (cases a) auto
  with a(1) as assms(1) show "visited env e" "set (collect_expr_cols env e) \<subseteq> set (collect_expr_cols env (EFunction n args d))"
    by (auto simp: list_all_iff)
qed

definition rows_agree :: "'f sql_env \<Rightarrow> string list \<Rightarrow> ('f sql_row \<Rightarrow> 'f sql_row) \<Rightarrow> 'f sql_row list \<Rightarrow> bool" where
  "rows_agree env cols g rows \<longleftrightarrow> (\<forall>r \<in> set rows. agree env cols (g r) r)"

lemma rows_agree_mono: "rows_agree env b g rows \<Longrightarrow> set a \<subseteq> set b \<Longrightarrow> rows_agree env a g rows"
  unfolding rows_agree_def by (blast intro: agree_mono)

lemma eval_rows_agree:
  "visited env e \<Longrightarrow> rows_agree env (collect_expr_cols env e) g rows \<Longrightarrow> r \<in> set rows \<Longrightarrow>
     eval_expr env e (g r) = eval_expr env e r"
  unfolding rows_agree_def by (blast intro: eval_expr_cong)

lemma filter_map_cong: "(\<And>r. r \<in> set rows \<Longrightarrow> P (g r) = P r) \<Longrightarrow> filter P (map g rows) = map g (filter P rows)"
  by (induction rows) auto

lemma map_filter_map_cong:
  "(\<And>r. r \<in> set rows \<Longrightarrow> h (g r) = h r) \<Longrightarrow> List.map_filter h (map g rows) = List.map_filter h rows"
  by (induction rows) (auto split: option.split)

lemma eval_aggregate_cong:
  assumes "visited env e" "rows_agree env (collect_expr_cols env e) g rows"
  shows "eval_aggregate env e (map g rows) = eval_aggregate env e rows"
proof (cases e)
  case (EFunction n args d)
  show ?thesis
  proof (cases "first_arg_expr args")
    case None
    then have "agg_count env args d (map g rows) = agg_count env args d rows" by (simp add: agg_count_def)
    with None show ?thesis by (simp add: EFunction eval_aggregate_def Let_def)
  next
    case (Some x)
    have x: "eval_expr env x (g r) = eval_expr env x r" if "r \<in> set rows" for r
      using assms first_arg_visited [OF _ Some] EFunction that by (blast intro: eval_rows_agree rows_agree_mono)
    have "agg_vals env x (map g rows) = agg_vals env x rows"
      unfolding agg_vals_def by (rule map_filter_map_cong) (simp add: x)
    moreover have "agg_count env args d (map g rows) = agg_count env args d rows"
    proof -
      have "map (\<lambda>r. json_to_sort_str env (into_value (eval_expr env x r)))
          (map g (filter (\<lambda>r. into_value (eval_expr env x r) \<noteq> JNull) rows)) =
        map (\<lambda>r. json_to_sort_str env (into_value (eval_expr env x r)))
          (filter (\<lambda>r. into_value (eval_expr env x r) \<noteq> JNull) rows)"
        by (simp add: x)
      then show ?thesis
        by (simp add: agg_count_def Some filter_map_cong [where g = g] x del: map_map)
    qed
    ultimately show ?thesis by (simp only: EFunction eval_aggregate_def Some sql_expr.case option.case)
  qed
qed (simp_all add: eval_aggregate_def)

lemma aggregate_or_first_cong:
  assumes "visited env e" "rows_agree env (collect_expr_cols env e) g rows"
  shows "(if is_aggregate env e then eval_aggregate env e (map g rows)
      else case map g rows of [] \<Rightarrow> JNull | r # _ \<Rightarrow> into_value (eval_expr env e r)) =
    (if is_aggregate env e then eval_aggregate env e rows
      else case rows of [] \<Rightarrow> JNull | r # _ \<Rightarrow> into_value (eval_expr env e r))"
proof -
  have "(case map g rows of [] \<Rightarrow> JNull | r # _ \<Rightarrow> into_value (eval_expr env e r)) =
      (case rows of [] \<Rightarrow> JNull | r # _ \<Rightarrow> into_value (eval_expr env e r))"
    using eval_rows_agree [OF assms] by (cases rows) simp_all
  then show ?thesis by (simp only: eval_aggregate_cong [OF assms])
qed
 
lemma eval_aggregate_expr_cong:
  "visited env e \<Longrightarrow> rows_agree env (collect_expr_cols env e) g rows \<Longrightarrow>
     eval_aggregate_expr env e (map g rows) = eval_aggregate_expr env e rows"
proof (induction env e rows rule: eval_aggregate_expr.induct)
  case (1 env l op r rows)
  have "rows_agree env (collect_expr_cols env l) g rows" "rows_agree env (collect_expr_cols env r) g rows"
    using 1 by (auto intro: rows_agree_mono)
  moreover have "visited env l" "visited env r" using 1 by simp_all
  ultimately have "eval_aggregate_expr env l (map g rows) = eval_aggregate_expr env l rows"
      "eval_aggregate_expr env r (map g rows) = eval_aggregate_expr env r rows"
    using 1 by blast+
  then show ?case by (simp only: eval_aggregate_expr.simps)
next
  case (2 env e rows)
  then show ?case by simp
next
  case (3 env v rows)
  then show ?case by simp
qed (simp_all only: eval_aggregate_expr.simps aggregate_or_first_cong)

lemma project_rows_cong:
  assumes vis: "\<And>i. i \<in> set items \<Longrightarrow> \<exists>e. item_expr i = Some e \<and> visited env e \<and> set (collect_expr_cols env e) \<subseteq> set cols"
    and agr: "rows_agree env cols g rows"
  shows "project_rows env items (map g rows) d = project_rows env items rows d"
proof -
  have ag: "rows_agree env (collect_expr_cols env e) g rows" "visited env e"
    if "i \<in> set items" "item_expr i = Some e" for i e
    using vis [OF that(1)] that(2) rows_agree_mono [OF agr] by auto
  have nowild: "Wildcard \<notin> set items" using vis by fastforce
  have "project_cell env (g r) i = project_cell env r i" if "r \<in> set rows" "i \<in> set items" for r i
    using eval_rows_agree [OF ag(2,1) that(1)] that(2) by (simp add: project_cell_def split: option.split)
  then have "map (\<lambda>r. map (project_cell env r) items) (map g rows) = map (\<lambda>r. map (project_cell env r) items) rows"
    by simp
  moreover have "map (\<lambda>i. case item_expr i of Some e \<Rightarrow> eval_aggregate_expr env e (map g rows) | None \<Rightarrow> JNull) items =
      map (\<lambda>i. case item_expr i of Some e \<Rightarrow> eval_aggregate_expr env e rows | None \<Rightarrow> JNull) items"
    using ag by (simp add: eval_aggregate_expr_cong split: option.split)
  ultimately show ?thesis using nowild unfolding project_rows_def Let_def by (simp only: if_False simp_thms)
qed

lemma group_by_key_map:
  "(\<And>x. x \<in> set xs \<Longrightarrow> f (g x) = f x) \<Longrightarrow> group_by_key f (map g xs) = (\<lambda>k. map_option (map g) (group_by_key f xs k))"
  by (rule ext) (simp add: group_by_key_lookup filter_map comp_def cong: filter_cong)

lemma group_rows_hm_entries:
  "hm_entries sorted_order (\<lambda>k. map_option (map g) (m k)) = map (\<lambda>(k, xs). (k, map g xs)) (hm_entries sorted_order m)"
  if "finite (dom m)" for m :: "'k::linorder \<rightharpoonup> 'a list"
proof -
  have "dom (\<lambda>k. map_option (map g) (m k)) = dom m" by auto
  moreover have "the (map_option (map g) (m k)) = map g (the (m k))" if "k \<in> set (sorted_list_of_set (dom m))" for k
    using that \<open>finite (dom m)\<close> by (auto simp: domIff)
  ultimately show ?thesis by (simp add: hm_entries_def sorted_order_def)
qed

definition groupable :: "'f sql_env \<Rightarrow> select_item list \<Rightarrow> bool" where
  "groupable env items \<longleftrightarrow> list_all (\<lambda>i. case item_expr i of Some e \<Rightarrow> is_aggregate env e \<or> plain_col e | None \<Rightarrow> True) items"

lemma group_cells_cong:
  assumes "item_expr i = Some e" "visited env e" "is_aggregate env e \<or> plain_col e"
    and "rows_agree env (collect_expr_cols env e) g rows"
  shows "group_cells env ks key (map g rows) i = group_cells env ks key rows i"
proof (cases "is_aggregate env e")
  case True
  with assms show ?thesis by (simp add: group_cells_def eval_aggregate_cong)
next
  case False
  have "(case map g rows of [] \<Rightarrow> None | r # _ \<Rightarrow> r (expr_to_col_name env e)) =
      (case rows of [] \<Rightarrow> None | r # _ \<Rightarrow> r (expr_to_col_name env e))"
  proof (cases rows)
    case (Cons r rs)
    then have "g r (expr_to_col_name env e) = r (expr_to_col_name env e)"
      using assms False by (intro plain_col_agree) (auto simp: rows_agree_def)
    with Cons show ?thesis by simp
  qed simp
  with False assms(1) show ?thesis unfolding group_cells_def Let_def by (simp only: option.case if_False)
qed

lemma row_group_key_cong:
  assumes "list_all plain_col es" "rows_agree env cols g rows" "r \<in> set rows"
    and "\<And>e. e \<in> set es \<Longrightarrow> set (collect_expr_cols env e) \<subseteq> set cols"
  shows "row_group_key env (map (expr_to_col_name env) es) (g r) = row_group_key env (map (expr_to_col_name env) es) r"
proof -
  have "g r (expr_to_col_name env e) = r (expr_to_col_name env e)" if "e \<in> set es" for e
  proof (rule plain_col_agree)
    show "plain_col e" using assms(1) that by (simp add: list_all_iff)
    have "agree env cols (g r) r" using assms(2,3) by (simp add: rows_agree_def)
    then show "agree env (collect_expr_cols env e) (g r) r" using assms(4) [OF that] by (rule agree_mono)
  qed
  then show ?thesis by (simp add: row_group_key_def join_key_of_def)
qed

lemma execute_group_by_cong:
  assumes vis: "\<And>i. i \<in> set items \<Longrightarrow> \<exists>e. item_expr i = Some e \<and> visited env e \<and> set (collect_expr_cols env e) \<subseteq> set cols"
    and grp: "groupable env items"
    and es: "list_all plain_col es" "\<And>e. e \<in> set es \<Longrightarrow> set (collect_expr_cols env e) \<subseteq> set cols"
    and agr: "rows_agree env cols g rows"
  shows "execute_group_by env items (map g rows) (map (expr_to_col_name env) es) =
    execute_group_by env items rows (map (expr_to_col_name env) es)"
proof -
  let ?ks = "map (expr_to_col_name env) es"
  let ?m = "group_by_key (row_group_key env ?ks) rows"
  have "group_by_key (row_group_key env ?ks) (map g rows) = (\<lambda>k. map_option (map g) (?m k))"
    using row_group_key_cong [OF es(1) agr _ es(2)] by (intro group_by_key_map) blast
  moreover have fin: "finite (dom ?m)" by (simp add: dom_group_by_key)
  moreover have "concat (map (group_cells env ?ks k (map g xs)) items) = concat (map (group_cells env ?ks k xs) items)"
    if "(k, xs) \<in> set (hm_entries sorted_order ?m)" for k xs
  proof -
    have "?m k = Some xs" using that fin by (simp add: set_hm_entries sorted_order_ok)
    then have sub: "set xs \<subseteq> set rows" by (auto simp: group_by_key_lookup split: if_splits)
    have "group_cells env ?ks k (map g xs) i = group_cells env ?ks k xs i" if i: "i \<in> set items" for i
    proof -
      obtain e where e: "item_expr i = Some e" "visited env e" "set (collect_expr_cols env e) \<subseteq> set cols"
        using vis [OF i] by blast
      moreover have "is_aggregate env e \<or> plain_col e" using grp i e(1) by (auto simp: groupable_def list_all_iff)
      moreover have "rows_agree env (collect_expr_cols env e) g xs"
        using rows_agree_mono [OF agr e(3)] sub by (auto simp: rows_agree_def)
      ultimately show ?thesis by (intro group_cells_cong)
    qed
    then have "map (group_cells env ?ks k (map g xs)) items = map (group_cells env ?ks k xs) items" by simp
    then show ?thesis by (rule arg_cong)
  qed
  ultimately show ?thesis
    unfolding execute_group_by_def Let_def by (simp add: group_rows_hm_entries [OF fin] case_prod_beta del: map_concat)
qed

text \<open>The expressions whose columns the pruning has to keep.\<close>

definition query_exprs :: "select_query \<Rightarrow> sql_expr list" where
  "query_exprs q = List.map_filter item_expr (sq_projection q) @ (case sq_selection q of Some e \<Rightarrow> [e] | None \<Rightarrow> [])"

definition query_groups :: "select_query \<Rightarrow> sql_expr list" where
  "query_groups q = (case sq_group_by q of GroupExprs es \<Rightarrow> es | GroupAll \<Rightarrow> [])"

definition prunable :: "'f sql_env \<Rightarrow> select_query \<Rightarrow> bool" where
  "prunable env q \<longleftrightarrow> list_all (visited env) (query_exprs q) \<and>
     (query_groups q = [] \<or> list_all plain_col (query_groups q) \<and> groupable env (sq_projection q))"

lemma needed_cols_cover:
  assumes "collect_query_needed_cols env q = Some nc"
  shows "i \<in> set (sq_projection q) \<Longrightarrow> \<exists>e. item_expr i = Some e"
    and "e \<in> set (query_exprs q) \<union> set (query_groups q) \<Longrightarrow> set (collect_expr_cols env e) \<subseteq> set nc"
  using assms by (auto simp: collect_query_needed_cols_def query_exprs_def query_groups_def list_ex_iff
      split: if_splits option.splits group_by_expr.splits)

lemma finish_select_cong:
  assumes nc: "collect_query_needed_cols env q = Some nc" and pr: "prunable env q" and agr: "rows_agree env nc g rows"
  shows "finish_select env q (map g rows) = finish_select env q rows"
proof -
  have vis: "\<exists>e. item_expr i = Some e \<and> visited env e \<and> set (collect_expr_cols env e) \<subseteq> set nc" if i: "i \<in> set (sq_projection q)" for i
  proof -
    obtain e where e: "item_expr i = Some e" using needed_cols_cover(1) [OF nc i] by blast
    then have "e \<in> set (query_exprs q)" using i by (force simp: query_exprs_def List.map_filter_def)
    with e pr needed_cols_cover(2) [OF nc, of e] show ?thesis by (auto simp: prunable_def list_all_iff)
  qed
  have "where_filter env q (map g rows) = map g (where_filter env q rows)"
  proof (cases "sq_selection q")
    case (Some e)
    then have e: "e \<in> set (query_exprs q)" by (simp add: query_exprs_def)
    have "visited env e" using pr e by (auto simp: prunable_def list_all_iff)
    moreover have "rows_agree env (collect_expr_cols env e) g rows"
      using e needed_cols_cover(2) [OF nc, of e] by (blast intro: rows_agree_mono [OF agr])
    ultimately show ?thesis by (simp add: where_filter_def Some filter_map_cong eval_rows_agree)
  qed (simp add: where_filter_def)
  moreover have agr': "rows_agree env nc g (where_filter env q rows)"
    using agr by (auto simp: rows_agree_def where_filter_def split: option.splits)
  moreover have "project_rows env (sq_projection q) (map g (where_filter env q rows)) d =
      project_rows env (sq_projection q) (where_filter env q rows) d" for d
    by (rule project_rows_cong [OF vis agr'])
  moreover have "execute_group_by env (sq_projection q) (map g (where_filter env q rows)) (group_by_cols env q) =
      execute_group_by env (sq_projection q) (where_filter env q rows) (group_by_cols env q)" if "group_by_cols env q \<noteq> []"
  proof -
    have cols: "group_by_cols env q = map (expr_to_col_name env) (query_groups q)"
      by (simp add: group_by_cols_def query_groups_def split: group_by_expr.split)
    then have "query_groups q \<noteq> []" using that by auto
    then have "list_all plain_col (query_groups q)" "groupable env (sq_projection q)" using pr by (auto simp: prunable_def)
    then show ?thesis unfolding cols
      using needed_cols_cover(2) [OF nc] by (intro execute_group_by_cong [OF vis _ _ _ agr']) auto
  qed
  ultimately show ?thesis unfolding finish_select_def by (simp cong: if_cong)
qed

lemma prune_transparent:
  assumes "same_columns rows" "prunable env q"
  shows "finish_select env q (prune env (query_conjuncts q) (collect_query_needed_cols env q) rows) = finish_select env q rows"
proof -
  let ?rows = "apply_partial_where env (query_conjuncts q) rows"
  have pw: "finish_select env q ?rows = finish_select env q rows"
    unfolding finish_select_def by (simp only: apply_partial_where_transparent)
  show ?thesis
  proof (cases "collect_query_needed_cols env q")
    case None
    with pw show ?thesis by (simp add: prune_def)
  next
    case (Some nc)
    have "same_columns ?rows" using assms(1) apply_partial_where_sub by (rule same_columns_sub)
    then obtain g where g: "project_to_needed_cols env nc ?rows = map g ?rows" "\<And>r. r \<in> set ?rows \<Longrightarrow> agree env nc (g r) r"
      using project_to_needed_cols_agree [of ?rows env nc] by blast
    have "finish_select env q (map g ?rows) = finish_select env q ?rows"
      using g(2) by (intro finish_select_cong [OF Some assms(2)]) (simp add: rows_agree_def)
    with Some pw g(1) show ?thesis by (simp add: prune_def)
  qed
qed


text \<open>An environment to run queries in: floats are integers, nothing is parsed as JSON or as a
  number beside a few literals, and case is ignored.\<close>

definition ref_env :: "int sql_env" where
  "ref_env =
     \<lparr>f_of_int = id, f_sum_zero = 0, f_add = (+), f_sub = (-), f_mul = (*), f_div = (div), f_neg = uminus,
      f_min = min, f_max = max,
      f_cmp = (\<lambda>a b. Some (if a < b then Less else if a = b then Equal else Greater)),
      f_finite = (\<lambda>_. True), f_fract_zero = (\<lambda>_. True), f_small = (\<lambda>_. True), f_to_i64 = id, f_to_i32 = id,
      f_pow10 = (\<lambda>_. 1), f_round = id, f_parse = (\<lambda>_. None), f_sort_text = (\<lambda>_. ''n''),
      i64_parse = (\<lambda>s. Some (int (length s))), usize_parse = (\<lambda>s. Some (length s)),
      json_show = (\<lambda>v. case v of JNull \<Rightarrow> ''null'' | JStr s \<Rightarrow> CHR 0x22 # s @ [CHR 0x22] | _ \<Rightarrow> ''j''), json_parse = (\<lambda>_. None), expr_show = (\<lambda>_. ''e''), arg_show = (\<lambda>_. ''a''),
      to_lower = id, to_upper = id, re_escape = id, re_match = (\<lambda>_ _. None), now_text = []\<rparr>"

definition base_query :: "select_item list \<Rightarrow> string \<Rightarrow> select_query" where
  "base_query items table =
     \<lparr>sq_projection = items, sq_from = [\<lparr>fi_relation = FTable [table] table None, fi_joins = []\<rparr>], sq_selection = None,
      sq_group_by = GroupAll, sq_having = None, sq_distinct = False, sq_order_by = None, sq_limit = None\<rparr>"



section \<open>Shape of a result\<close>

lemma set_distinct_rows: "set (distinct_rows env seen rs) \<subseteq> set rs"
  by (induction rs arbitrary: seen) (auto simp: Let_def split: if_splits)

lemma set_insort_by: "set (insort_by cmp x xs) = insert x (set xs)"
  by (induction xs) auto

lemma mset_insort_by: "mset (insort_by cmp x xs) = add_mset x (mset xs)"
  by (induction xs) auto

lemma mset_sort_by [simp]: "mset (sort_by cmp xs) = mset xs"
  by (induction xs) (simp_all add: sort_by_def mset_insort_by)

lemma set_sort_by [simp]: "set (sort_by cmp xs) = set xs"
  by (metis mset_sort_by set_mset_mset)

lemma apply_order_by_Nil: "apply_order_by env [] res = res"
  by (simp add: apply_order_by_def)

lemma apply_order_by_Cons:
  "apply_order_by env (ob # obs) res =
     (let r = apply_order_by env obs res
      in case order_index env (sr_columns r) (oe_expr ob) of
           Some i \<Rightarrow> r\<lparr>sr_rows := sort_by (cmp_rows_at env i (order_asc ob)) (sr_rows r)\<rparr>
         | None \<Rightarrow> r)"
  by (simp add: apply_order_by_def Let_def)

lemma apply_order_by_shape:
  "sr_columns (apply_order_by env obs res) = sr_columns res \<and> mset (sr_rows (apply_order_by env obs res)) = mset (sr_rows res)"
  by (induction obs) (simp_all add: apply_order_by_Nil apply_order_by_Cons Let_def split: option.split)

definition rectangular :: "string list \<Rightarrow> 'f select_result \<Rightarrow> bool" where
  "rectangular cols res \<longleftrightarrow> sr_columns res = cols \<and> (\<forall>row \<in> set (sr_rows res). length row = length cols)"

lemma project_rows_rectangular:
  assumes "Wildcard \<notin> set items"
  shows "rectangular (map (select_item_header env) items) (project_rows env items rows d)"
  using assms set_distinct_rows [of env "{}" "map (\<lambda>row. map (project_cell env row) items) rows"]
  by (auto simp: rectangular_def project_rows_def Let_def)

lemma group_cells_one: "item \<noteq> Wildcard \<Longrightarrow> length (group_cells env ks key rows item) = 1"
  by (simp add: group_cells_def Let_def split: option.split)

lemma group_by_rectangular:
  assumes "Wildcard \<notin> set items"
  shows "rectangular (map (select_item_header env) items) (execute_group_by env items rows ks)"
proof -
  have "length (concat (map (group_cells env ks key xs) items)) = length items" for key xs
    using assms by (induction items) (auto simp: group_cells_one)
  then show ?thesis by (auto simp: rectangular_def execute_group_by_def Let_def)
qed

lemma finish_select_rectangular:
  assumes "Wildcard \<notin> set (sq_projection q)"
  shows "rectangular (map (select_item_header env) (sq_projection q)) (finish_select env q rows)"
proof -
  let ?R = "rectangular (map (select_item_header env) (sq_projection q))"
  have hav: "?R (apply_having env e res)" if "?R res" for e res
    using that by (simp add: rectangular_def apply_having_def)
  have ord: "?R (apply_order_by env obs res)" if "?R res" for obs res
    using that apply_order_by_shape [of env obs res] mset_eq_setD by (fastforce simp: rectangular_def)
  have lim: "?R (apply_limit env e res)" if "?R res" for e res
    using that by (auto simp: rectangular_def apply_limit_def dest: in_set_takeD split: option.split)
  show ?thesis
    unfolding finish_select_def Let_def
    by (auto intro!: hav ord lim project_rows_rectangular [OF assms] group_by_rectangular [OF assms] split: option.split)
qed

text \<open>C19. A SELECT that names its columns returns a rectangular result: the header has one name per
  select item, and every row of the result, from every branch of the executor, has one value per
  header.\<close>

theorem select_result_rectangular:
  assumes "Wildcard \<notin> set (sq_projection q)" "run_select env ord store q = Inr res"
  shows "sr_columns res = map (select_item_header env) (sq_projection q) \<and>
    (\<forall>row \<in> set (sr_rows res). length row = length (sr_columns res))"
  using assms finish_select_rectangular [OF assms(1), of env]
  by (auto simp: run_select_def select_without_from_def rectangular_def Let_def split: list.splits sum.splits)

theorem select_result_rectangular_witness:
  "sr_columns (select_without_from ref_env ((base_query [UnnamedExpr (EValue SNull), UnnamedExpr (EIdentifier ''a'')] ''t'')\<lparr>sq_from := []\<rparr>)) =
     [''e'', ''a''] \<and>
   length (hd (sr_rows (select_without_from ref_env ((base_query [UnnamedExpr (EValue SNull), UnnamedExpr (EIdentifier ''a'')] ''t'')\<lparr>sq_from := []\<rparr>)))) = 2"
proof -
  let ?q = "(base_query [UnnamedExpr (EValue SNull), UnnamedExpr (EIdentifier ''a'')] ''t'')\<lparr>sq_from := []\<rparr>"
  have "sr_columns (select_without_from ref_env ?q) = map (select_item_header ref_env) (sq_projection ?q) \<and>
      (\<forall>row \<in> set (sr_rows (select_without_from ref_env ?q)). length row = length (sr_columns (select_without_from ref_env ?q)))"
    by (rule select_result_rectangular [where ord = sorted_order and store = Map.empty])
       (simp_all add: run_select_def base_query_def)
  then show ?thesis
    by (simp add: select_without_from_def base_query_def select_item_header_def expr_to_col_name_def trim_backticks_def ref_env_def)
qed

end
