(* ===== verification/SqlQueries.thy ===== *)
theory SqlQueries
  imports SqlSelect
begin

text \<open>
  What SELECT results satisfy (\<open>query-node/src/executor/select_exec.rs\<close>): ORDER BY over several keys,
  the hash join of a comma-separated FROM against the cross join, GROUP BY as a partition, and the
  queries on which pruning and HAVING lose rows.
\<close>

section \<open>ORDER BY\<close>

definition total_cmp_on :: "('a \<Rightarrow> 'a \<Rightarrow> rust_ordering) \<Rightarrow> 'a set \<Rightarrow> bool" where
  "total_cmp_on cmp S \<longleftrightarrow>
     (\<forall>a \<in> S. \<forall>b \<in> S. cmp b a = rev_ordering (cmp a b)) \<and>
     (\<forall>a \<in> S. \<forall>b \<in> S. \<forall>c \<in> S. cmp a b \<noteq> Greater \<longrightarrow> cmp b c \<noteq> Greater \<longrightarrow> cmp a c \<noteq> Greater)"

lemma total_cmp_on_sub: "total_cmp_on cmp S \<Longrightarrow> T \<subseteq> S \<Longrightarrow> total_cmp_on cmp T"
  unfolding total_cmp_on_def by (meson subsetD)

fun lex_cmp :: "('a \<Rightarrow> 'a \<Rightarrow> rust_ordering) list \<Rightarrow> 'a \<Rightarrow> 'a \<Rightarrow> rust_ordering" where
  "lex_cmp [] a b = Equal"
| "lex_cmp (c # cs) a b = (case c a b of Equal \<Rightarrow> lex_cmp cs a b | r \<Rightarrow> r)"

lemma lex_cmp_first: "lex_cmp (c # cs) a b \<noteq> Greater \<Longrightarrow> c a b \<noteq> Greater"
  by (cases "c a b") auto

lemma insort_by_lex:
  assumes "total_cmp_on cmp (insert x (set ys))" "sorted_wrt (\<lambda>a b. lex_cmp (cmp # cs) a b \<noteq> Greater) ys"
    and "\<And>y. y \<in> set ys \<Longrightarrow> lex_cmp cs x y \<noteq> Greater"
  shows "sorted_wrt (\<lambda>a b. lex_cmp (cmp # cs) a b \<noteq> Greater) (insort_by cmp x ys)"
  using assms
proof (induction ys)
  case (Cons y ys)
  show ?case
  proof (cases "cmp x y = Greater")
    case True
    then have "cmp y x = Less" using Cons.prems(1) by (auto simp: total_cmp_on_def)
    moreover have "sorted_wrt (\<lambda>a b. lex_cmp (cmp # cs) a b \<noteq> Greater) (insort_by cmp x ys)"
      using Cons.prems by (intro Cons.IH) (auto intro: total_cmp_on_sub)
    ultimately show ?thesis using True Cons.prems(2) by (auto simp: set_insort_by)
  next
    case False
    have "lex_cmp (cmp # cs) x z \<noteq> Greater" if z: "z \<in> set (y # ys)" for z
    proof -
      have yz: "z = y \<or> cmp y z \<noteq> Greater" using z Cons.prems(2) lex_cmp_first by fastforce
      have "cmp x z \<noteq> Greater"
      proof (cases "z = y")
        case F: False
        then have "cmp y z \<noteq> Greater" using yz by simp
        with False z Cons.prems(1) show ?thesis unfolding total_cmp_on_def by (meson insertI1 insertI2 list.set_intros(1))
      qed (use False in simp)
      with Cons.prems(3) [OF z] show ?thesis by (cases "cmp x z") auto
    qed
    with False Cons.prems(2) show ?thesis by simp
  qed
qed simp

lemma sort_by_lex:
  assumes "total_cmp_on cmp (set xs)" "sorted_wrt (\<lambda>a b. lex_cmp cs a b \<noteq> Greater) xs"
  shows "sorted_wrt (\<lambda>a b. lex_cmp (cmp # cs) a b \<noteq> Greater) (sort_by cmp xs)"
  using assms
proof (induction xs)
  case (Cons x xs)
  have "sort_by cmp (x # xs) = insort_by cmp x (sort_by cmp xs)" by (simp add: sort_by_def)
  moreover have "sorted_wrt (\<lambda>a b. lex_cmp (cmp # cs) a b \<noteq> Greater) (sort_by cmp xs)"
    using Cons.prems by (intro Cons.IH) (auto intro: total_cmp_on_sub)
  then have "sorted_wrt (\<lambda>a b. lex_cmp (cmp # cs) a b \<noteq> Greater) (insort_by cmp x (sort_by cmp xs))"
    using Cons.prems by (intro insort_by_lex) auto
  ultimately show ?case by simp
qed (simp add: sort_by_def)

definition order_keys :: "'f sql_env \<Rightarrow> string list \<Rightarrow> order_expr list \<Rightarrow> ('f json list \<Rightarrow> 'f json list \<Rightarrow> rust_ordering) list" where
  "order_keys env cols obs =
     List.map_filter (\<lambda>ob. map_option (\<lambda>i. cmp_rows_at env i (order_asc ob)) (order_index env cols (oe_expr ob))) obs"

lemma in_set_map_filter: "y \<in> set (List.map_filter f xs) \<longleftrightarrow> (\<exists>x \<in> set xs. f x = Some y)"
  by (induction xs) (auto split: option.split)

lemma apply_order_by_sorted:
  assumes "\<And>cmp. cmp \<in> set (order_keys env (sr_columns res) obs) \<Longrightarrow> total_cmp_on cmp (set (sr_rows res))"
  shows "sorted_wrt (\<lambda>a b. lex_cmp (order_keys env (sr_columns res) obs) a b \<noteq> Greater) (sr_rows (apply_order_by env obs res))"
  using assms
proof (induction obs)
  case Nil
  then show ?case by (simp add: order_keys_def List.map_filter_def sorted_wrt_iff_nth_less)
next
  case (Cons ob obs)
  let ?r = "apply_order_by env obs res"
  have sh: "sr_columns ?r = sr_columns res" "set (sr_rows ?r) = set (sr_rows res)"
    using apply_order_by_shape [of env obs res] mset_eq_setD by blast+
  have keys: "order_keys env (sr_columns res) (ob # obs) =
      (case order_index env (sr_columns res) (oe_expr ob) of
         Some i \<Rightarrow> cmp_rows_at env i (order_asc ob) # order_keys env (sr_columns res) obs
       | None \<Rightarrow> order_keys env (sr_columns res) obs)"
    by (simp add: order_keys_def split: option.split)
  have ih: "sorted_wrt (\<lambda>a b. lex_cmp (order_keys env (sr_columns res) obs) a b \<noteq> Greater) (sr_rows ?r)"
    using Cons.prems by (intro Cons.IH) (auto simp: keys split: option.splits)
  show ?case
  proof (cases "order_index env (sr_columns res) (oe_expr ob)")
    case None
    with ih sh keys show ?thesis by (simp add: apply_order_by_Cons Let_def)
  next
    case (Some i)
    then have "total_cmp_on (cmp_rows_at env i (order_asc ob)) (set (sr_rows ?r))"
      using Cons.prems by (simp add: keys sh)
    from sort_by_lex [OF this ih] Some sh keys show ?thesis by (simp add: apply_order_by_Cons Let_def del: lex_cmp.simps)
  qed
qed

text \<open>Columns whose cells are null or of one scalar type compare totally.\<close>

datatype json_kind = KBool | KNum | KStr

fun of_kind :: "'f sql_env \<Rightarrow> json_kind \<Rightarrow> 'f json \<Rightarrow> bool" where
  "of_kind env k JNull \<longleftrightarrow> True"
| "of_kind env k (JBool _) \<longleftrightarrow> k = KBool"
| "of_kind env k (JNum n) \<longleftrightarrow> k = KNum \<and> f_finite env (num_as_f64 env n)"
| "of_kind env k (JStr _) \<longleftrightarrow> k = KStr"
| "of_kind env k _ \<longleftrightarrow> False"

definition f64_order_ok :: "'f sql_env \<Rightarrow> bool" where
  "f64_order_ok env \<longleftrightarrow> (\<forall>a b. f_finite env a \<longrightarrow> f_finite env b \<longrightarrow> f_cmp env a b \<noteq> None) \<and>
     total_cmp_on (\<lambda>a b. the (f_cmp env a b)) {a. f_finite env a}"

definition f_ordering :: "'f sql_env \<Rightarrow> 'f \<Rightarrow> 'f \<Rightarrow> rust_ordering" where
  "f_ordering env a b = (case f_cmp env a b of Some r \<Rightarrow> r | None \<Rightarrow> Equal)"

lemma f_ordering_total:
  assumes "f64_order_ok env"
  shows "f_finite env a \<Longrightarrow> f_finite env b \<Longrightarrow> f_ordering env b a = rev_ordering (f_ordering env a b)"
    and "f_finite env a \<Longrightarrow> f_finite env b \<Longrightarrow> f_finite env c \<Longrightarrow> f_ordering env a b \<noteq> Greater \<Longrightarrow>
      f_ordering env b c \<noteq> Greater \<Longrightarrow> f_ordering env a c \<noteq> Greater"
proof -
  have eq: "f_ordering env x y = the (f_cmp env x y)" if "f_finite env x" "f_finite env y" for x y
  proof -
    have "f_cmp env x y \<noteq> None" using assms that unfolding f64_order_ok_def by blast
    then show ?thesis by (auto simp: f_ordering_def)
  qed
  have tot: "total_cmp_on (\<lambda>a b. the (f_cmp env a b)) {a. f_finite env a}" using assms by (simp add: f64_order_ok_def)
  show "f_finite env a \<Longrightarrow> f_finite env b \<Longrightarrow> f_ordering env b a = rev_ordering (f_ordering env a b)"
    using tot [unfolded total_cmp_on_def, THEN conjunct1, rule_format, of a b] by (simp add: eq)
  show "f_finite env a \<Longrightarrow> f_finite env b \<Longrightarrow> f_finite env c \<Longrightarrow> f_ordering env a b \<noteq> Greater \<Longrightarrow>
      f_ordering env b c \<noteq> Greater \<Longrightarrow> f_ordering env a c \<noteq> Greater"
    using tot [unfolded total_cmp_on_def, THEN conjunct2, rule_format, of a b c] by (simp add: eq)
qed

lemma str_cmp_total: "str_cmp b a = rev_ordering (str_cmp a b)"
  "str_cmp a b \<noteq> Greater \<Longrightarrow> str_cmp b c \<noteq> Greater \<Longrightarrow> str_cmp a c \<noteq> Greater"
  by (auto simp: str_cmp_def split: if_splits)

lemma bool_cmp_total: "bool_cmp b a = rev_ordering (bool_cmp a b)"
  "bool_cmp a b \<noteq> Greater \<Longrightarrow> bool_cmp b c \<noteq> Greater \<Longrightarrow> bool_cmp a c \<noteq> Greater"
  by (auto simp: bool_cmp_def split: if_splits)

lemma cmp_json_cases:
  "cmp_json env JNull b = (if b = JNull then Equal else Less)"
  "b \<noteq> JNull \<Longrightarrow> cmp_json env b JNull = Greater"
  "cmp_json env (JNum m) (JNum n) = f_ordering env (num_as_f64 env m) (num_as_f64 env n)"
  "cmp_json env (JStr s) (JStr t) = str_cmp s t"
  "cmp_json env (JBool p) (JBool q) = bool_cmp p q"
  by (cases b; simp add: cmp_json_def f_ordering_def; fail)+

lemma cmp_json_total:
  assumes "f64_order_ok env" "\<And>v. v \<in> S \<Longrightarrow> of_kind env k v"
  shows "total_cmp_on (cmp_json env) S"
proof -
  have "cmp_json env b a = rev_ordering (cmp_json env a b)" if "of_kind env k a" "of_kind env k b" for a b
    using that by (cases a; cases b)
      (auto simp: cmp_json_cases intro: f_ordering_total(1) [OF assms(1)] str_cmp_total(1) bool_cmp_total(1))
  moreover have "cmp_json env a c \<noteq> Greater"
    if "of_kind env k a" "of_kind env k b" "of_kind env k c" "cmp_json env a b \<noteq> Greater" "cmp_json env b c \<noteq> Greater" for a b c
    using that by (cases a; cases b; cases c)
      (auto simp: cmp_json_cases dest: f_ordering_total(2) [OF assms(1)] str_cmp_total(2) bool_cmp_total(2))
  ultimately show ?thesis using assms(2) unfolding total_cmp_on_def by blast
qed

lemma cmp_rows_total:
  assumes "total_cmp_on (cmp_json env) (get_cell i ` R)"
  shows "total_cmp_on (cmp_rows_at env i asc) R"
proof -

  have anti: "cmp_json env (get_cell i b) (get_cell i a) = rev_ordering (cmp_json env (get_cell i a) (get_cell i b))"
    if "a \<in> R" "b \<in> R" for a b using assms [unfolded total_cmp_on_def, THEN conjunct1] that by blast
  have trans: "cmp_json env (get_cell i a) (get_cell i b) \<noteq> Greater \<Longrightarrow> cmp_json env (get_cell i b) (get_cell i c) \<noteq> Greater \<Longrightarrow>
      cmp_json env (get_cell i a) (get_cell i c) \<noteq> Greater" if "a \<in> R" "b \<in> R" "c \<in> R" for a b c
    using assms that unfolding total_cmp_on_def by blast
  show ?thesis
  proof (cases asc)
    case True
    then have "cmp_rows_at env i asc a b = cmp_json env (get_cell i a) (get_cell i b)" for a b
      by (simp add: cmp_rows_at_def)
    then show ?thesis unfolding total_cmp_on_def by (metis anti trans)
  next
    case False
    have "cmp_rows_at env i asc a b = cmp_json env (get_cell i b) (get_cell i a)" if "a \<in> R" "b \<in> R" for a b
      using anti [OF that] False by (simp add: cmp_rows_at_def)
    then show ?thesis unfolding total_cmp_on_def by (metis anti trans)
  qed
qed

definition sortable_columns :: "'f sql_env \<Rightarrow> 'f select_result \<Rightarrow> order_expr list \<Rightarrow> bool" where
  "sortable_columns env res obs \<longleftrightarrow>
     (\<forall>ob \<in> set obs. \<forall>i. order_index env (sr_columns res) (oe_expr ob) = Some i \<longrightarrow>
        (\<exists>k. \<forall>row \<in> set (sr_rows res). of_kind env k (get_cell i row)))"

text \<open>The order of a result, without the comparator of the code: null before every value, false
  before true, numbers by their float values and strings by their bytes; rows are compared by the
  first ordered column in which they differ.\<close>

fun cell_before :: "'f sql_env \<Rightarrow> 'f json \<Rightarrow> 'f json \<Rightarrow> bool" where
  "cell_before env JNull y \<longleftrightarrow> y \<noteq> JNull"
| "cell_before env (JBool p) (JBool q) \<longleftrightarrow> \<not> p \<and> q"
| "cell_before env (JNum m) (JNum n) \<longleftrightarrow> f_cmp env (num_as_f64 env m) (num_as_f64 env n) = Some Less"
| "cell_before env (JStr s) (JStr t) \<longleftrightarrow> s < t"
| "cell_before env _ _ \<longleftrightarrow> False"

fun row_in_order :: "'f sql_env \<Rightarrow> (nat \<times> bool) list \<Rightarrow> 'f json list \<Rightarrow> 'f json list \<Rightarrow> bool" where
  "row_in_order env [] a b \<longleftrightarrow> True"
| "row_in_order env ((i, descending) # ks) a b \<longleftrightarrow>
     (let x = get_cell i (if descending then b else a); y = get_cell i (if descending then a else b)
      in cell_before env x y \<or> \<not> cell_before env y x \<and> row_in_order env ks a b)"

definition order_columns :: "'f sql_env \<Rightarrow> string list \<Rightarrow> order_expr list \<Rightarrow> (nat \<times> bool) list" where
  "order_columns env cols obs =
     List.map_filter (\<lambda>ob. map_option (\<lambda>i. (i, oe_asc ob = Some False)) (order_index env cols (oe_expr ob))) obs"

lemma cmp_json_before:
  assumes "f64_order_ok env" "of_kind env k a" "of_kind env k b"
  shows "cmp_json env a b = (if cell_before env a b then Less else if cell_before env b a then Greater else Equal)"
proof (cases "\<exists>m n. a = JNum m \<and> b = JNum n")
  case True
  then obtain m n where mn: "a = JNum m" "b = JNum n" by blast
  with assms(2,3) have fin: "f_finite env (num_as_f64 env m)" "f_finite env (num_as_f64 env n)" by simp_all
  note f_ordering_total(1) [OF assms(1) fin]
  moreover have "f_cmp env (num_as_f64 env m) (num_as_f64 env n) \<noteq> None" "f_cmp env (num_as_f64 env n) (num_as_f64 env m) \<noteq> None"
    using assms(1) fin unfolding f64_order_ok_def by blast+
  ultimately show ?thesis
    by (cases "the (f_cmp env (num_as_f64 env m) (num_as_f64 env n))")
      (auto simp: mn cmp_json_cases(3) f_ordering_def)
next
  case False
  with assms(2,3) show ?thesis by (cases a; cases b) (auto simp: cmp_json_cases str_cmp_def bool_cmp_def)
qed

lemma cell_before_asym:
  assumes "f64_order_ok env" "of_kind env k a" "of_kind env k b"
  shows "cell_before env a b \<Longrightarrow> \<not> cell_before env b a"
  using cmp_json_total [OF assms(1), of "{a, b}" k] cmp_json_before [OF assms] cmp_json_before [OF assms(1,3,2)] assms(2,3)
  unfolding total_cmp_on_def by (auto split: if_splits)

lemma lex_cmp_in_order:
  assumes "f64_order_ok env" "sortable_columns env res obs" "a \<in> set (sr_rows res)" "b \<in> set (sr_rows res)"
  shows "lex_cmp (order_keys env (sr_columns res) obs) a b \<noteq> Greater \<longleftrightarrow>
    row_in_order env (order_columns env (sr_columns res) obs) a b"
  using assms(2)
proof (induction obs)
  case (Cons ob obs)
  then have ih: "lex_cmp (order_keys env (sr_columns res) obs) a b \<noteq> Greater \<longleftrightarrow>
      row_in_order env (order_columns env (sr_columns res) obs) a b"
    by (simp add: sortable_columns_def)
  show ?case
  proof (cases "order_index env (sr_columns res) (oe_expr ob)")
    case (Some i)
    with Cons.prems obtain k where kind: "\<forall>row \<in> set (sr_rows res). of_kind env k (get_cell i row)"
      unfolding sortable_columns_def by (meson list.set_intros(1))
    have cmp: "cmp_rows_at env i (order_asc ob) a b =
        (let r = if cell_before env (get_cell i a) (get_cell i b) then Less
           else if cell_before env (get_cell i b) (get_cell i a) then Greater else Equal
         in if oe_asc ob = Some False then rev_ordering r else r)"
      using cmp_json_before [OF assms(1), of k "get_cell i a" "get_cell i b"] kind assms(3,4)
      by (auto simp: cmp_rows_at_def order_asc_def Let_def split: option.split)
    have "\<not> (cell_before env (get_cell i a) (get_cell i b) \<and> cell_before env (get_cell i b) (get_cell i a))"
      using cell_before_asym [OF assms(1), of k] kind assms(3,4) by blast
    with ih Some show ?thesis by (auto simp: order_keys_def order_columns_def cmp Let_def)
  qed (use ih in \<open>simp add: order_keys_def order_columns_def\<close>)
qed (simp add: order_keys_def order_columns_def)



section \<open>Hash join\<close>

lemma right_index_lookup:
  "right_index_of env c right key =
     (let is = filter (\<lambda>i. \<exists>v. (right ! i) c = Some v \<and> json_to_sort_str env v = key) [0..<length right]
      in if is = [] then None else Some is)"
proof -
  have "fold (\<lambda>i m. case (right ! i) c of Some v \<Rightarrow> hm_push (json_to_sort_str env v) i m | None \<Rightarrow> m) is Map.empty key =
      (let js = filter (\<lambda>i. \<exists>v. (right ! i) c = Some v \<and> json_to_sort_str env v = key) is
       in if js = [] then None else Some js)" for "is"
    by (induction "is" rule: rev_induct) (auto simp: hm_push_def Let_def split: option.split)
  then show ?thesis by (simp add: right_index_of_def)
qed

definition key_matches :: "'f sql_env \<Rightarrow> string \<Rightarrow> string \<Rightarrow> 'f sql_row \<Rightarrow> 'f sql_row \<Rightarrow> bool" where
  "key_matches env lc rc l r \<longleftrightarrow> (case r rc of Some v \<Rightarrow> json_to_sort_str env v = join_key_of env lc l | None \<Rightarrow> False)"

lemma map_nth_filter: "map (\<lambda>i. f (xs ! i)) (filter (\<lambda>i. P (xs ! i)) [0..<length xs]) = map f (filter P xs)"
proof -
  have "map (\<lambda>i. f (xs ! i)) (filter (\<lambda>i. P (xs ! i)) [0..<length xs]) = map f (filter P (map ((!) xs) [0..<length xs]))"
    by (simp add: filter_map comp_def)
  then show ?thesis by (simp only: map_nth)
qed

lemma hash_join_rows:
  "hash_join_tables env ord left right lc rc alias =
     concat (map (\<lambda>l. map (merge_rows ord alias l) (filter (key_matches env lc rc l) right)) left)"
proof -
  have "(case right_index_of env rc right (join_key_of env lc l) of
        Some idxs \<Rightarrow> map (\<lambda>i. merge_rows ord alias l (right ! i)) idxs | None \<Rightarrow> []) =
      map (merge_rows ord alias l) (filter (key_matches env lc rc l) right)" for l
  proof -
    have km: "(\<lambda>i. \<exists>v. (right ! i) rc = Some v \<and> json_to_sort_str env v = join_key_of env lc l) =
        (\<lambda>i. key_matches env lc rc l (right ! i))"
      by (auto simp: key_matches_def fun_eq_iff split: option.split)
    show ?thesis
      unfolding right_index_lookup Let_def km by (subst map_nth_filter [symmetric]) auto
  qed
  then show ?thesis by (simp add: hash_join_tables_def)
qed

lemma merge_entry_other: "(\<And>a. alias = Some a \<Longrightarrow> c \<noteq> alias_key a k) \<Longrightarrow>
    merge_entry alias (k, v) m c = (if c = k \<and> m c = None then Some v else m c)"
  by (auto simp: merge_entry_def Let_def split: option.split)

lemma merge_entries_other:
  assumes "\<And>a kv. alias = Some a \<Longrightarrow> kv \<in> set kvs \<Longrightarrow> c \<noteq> alias_key a (fst kv)"
  shows "fold (merge_entry alias) kvs m c = (case m c of Some v \<Rightarrow> Some v | None \<Rightarrow> map_of kvs c)"
  using assms
proof (induction kvs arbitrary: m)
  case (Cons kv kvs)
  obtain k v where kv: "kv = (k, v)" by (cases kv)
  have "merge_entry alias (k, v) m c = (if c = k \<and> m c = None then Some v else m c)"
    by (rule merge_entry_other) (use Cons.prems [of _ kv] kv in simp)
  with Cons show ?case by (auto simp: kv split: option.split)
qed (simp split: option.split)

definition unaliased :: "string option \<Rightarrow> 'f sql_row \<Rightarrow> string \<Rightarrow> bool" where
  "unaliased alias right c \<longleftrightarrow> (case alias of Some a \<Rightarrow> \<forall>k \<in> dom right. c \<noteq> alias_key a k | None \<Rightarrow> True)"

lemma merge_rows_lookup:
  assumes "hash_order_ok ord" "finite (dom right)" "unaliased alias right c"
  shows "merge_rows ord alias left right c = (case left c of Some v \<Rightarrow> Some v | None \<Rightarrow> right c)"
proof -
  have "c \<noteq> alias_key a (fst kv)" if "alias = Some a" "kv \<in> set (hm_entries ord right)" for a kv
  proof -
    have "fst kv \<in> dom right" using that(2) assms(1,2) set_hm_entries [of ord right "fst kv" "snd kv"] by auto
    with that(1) assms(3) show ?thesis by (simp add: unaliased_def)
  qed
  then show ?thesis
    unfolding merge_rows_def by (simp add: merge_entries_other map_of_hm_entries [OF assms(1,2)] cong: option.case_cong)
qed

text \<open>The equality of columns \<open>a\<close> and \<open>b\<close> in WHERE, with \<open>a\<close> a column of the left rows and \<open>b\<close> one of
  the right rows only.\<close>

definition joins_on :: "string option \<Rightarrow> string \<Rightarrow> string \<Rightarrow> 'f sql_row list \<Rightarrow> 'f sql_row list \<Rightarrow> bool" where
  "joins_on alias a b left right \<longleftrightarrow>
     (\<forall>l \<in> set left. a \<in> dom l \<and> b \<notin> dom l) \<and>
     (\<forall>r \<in> set right. finite (dom r) \<and> b \<in> dom r \<and> unaliased alias r a \<and> unaliased alias r b)"

definition equal_keys_agree :: "'f sql_env \<Rightarrow> string \<Rightarrow> string \<Rightarrow> 'f sql_row list \<Rightarrow> 'f sql_row list \<Rightarrow> bool" where
  "equal_keys_agree env a b left right \<longleftrightarrow>
     (\<forall>l \<in> set left. \<forall>r \<in> set right. \<forall>v w. l a = Some v \<longrightarrow> r b = Some w \<longrightarrow> json_eq env v w \<longrightarrow>
        json_to_sort_str env w = json_to_sort_str env v)"

text \<open>C18. The hash join of a comma-separated FROM gives what the cross join gives once WHERE has run:
  when WHERE contains the equality of a column of the rows joined so far with a column of the new
  table, and equal values of these columns have the same index text, the rows left after WHERE are the
  same, in the same order.\<close>

theorem hash_join_equals_cross_join:
  assumes "hash_order_ok ord" "joins_on alias (trim_backticks a) (trim_backticks b) left right"
    and "equal_keys_agree env (trim_backticks a) (trim_backticks b) left right"
    and "EBinary (EIdentifier a) BEq (EIdentifier b) \<in> set (query_conjuncts q)"
  shows "where_filter env q (hash_join_tables env ord left right (trim_backticks a) (trim_backticks b) alias) =
    where_filter env q (cross_join_tables ord left right alias)"
proof -
  let ?a = "trim_backticks a" and ?b = "trim_backticks b"
  obtain e where e: "sq_selection q = Some e" using assms(4) by (cases "sq_selection q") (auto simp: query_conjuncts_def)
  have "key_matches env ?a ?b l r" if l: "l \<in> set left" and r: "r \<in> set right"
    and w: "as_bool (eval_expr env e (merge_rows ord alias l r))" for l r
  proof -
    obtain v w where v: "l ?a = Some v" and w': "r ?b = Some w" and n: "l ?b = None"
      using assms(2) l r by (fastforce simp: joins_on_def)
    have u: "finite (dom r)" "unaliased alias r ?a" "unaliased alias r ?b" using assms(2) r by (auto simp: joins_on_def)
    have "as_bool (eval_expr env (EBinary (EIdentifier a) BEq (EIdentifier b)) (merge_rows ord alias l r))"
      using conjuncts_of_where [OF e w assms(4)] .
    then have "json_eq env v w"
      by (simp add: eval_binary_def lookup_col_def merge_rows_lookup [OF assms(1) u(1)] u v w' n)
    then show ?thesis using assms(3) l r v w' unfolding equal_keys_agree_def key_matches_def join_key_of_def by auto
  qed
  then have "filter (\<lambda>m. as_bool (eval_expr env e m)) (map (merge_rows ord alias l) (filter (key_matches env ?a ?b l) right)) =
      filter (\<lambda>m. as_bool (eval_expr env e m)) (map (merge_rows ord alias l) right)" if "l \<in> set left" for l
    using that by (auto simp: filter_map comp_def intro!: arg_cong [where f = "map _"] filter_cong)
  then have "map (\<lambda>l. filter (\<lambda>m. as_bool (eval_expr env e m)) (map (merge_rows ord alias l) (filter (key_matches env ?a ?b l) right))) left =
      map (\<lambda>l. filter (\<lambda>m. as_bool (eval_expr env e m)) (map (merge_rows ord alias l) right)) left"
    by simp
  then show ?thesis
    unfolding where_filter_def e hash_join_rows cross_join_tables_def
    by (simp add: filter_concat comp_def cong: map_cong del: filter_filter)
qed

theorem hash_join_equals_cross_join_witness:
  "where_filter ref_env ((base_query [] ''t'')\<lparr>sq_selection := Some (EBinary (EIdentifier ''a'') BEq (EIdentifier ''b''))\<rparr>)
     (hash_join_tables ref_env sorted_order [[''a'' \<mapsto> JStr ''x''], [''a'' \<mapsto> JStr ''y'']] [[''b'' \<mapsto> JStr ''y'']] ''a'' ''b'' (Some ''u'')) =
   where_filter ref_env ((base_query [] ''t'')\<lparr>sq_selection := Some (EBinary (EIdentifier ''a'') BEq (EIdentifier ''b''))\<rparr>)
     (cross_join_tables sorted_order [[''a'' \<mapsto> JStr ''x''], [''a'' \<mapsto> JStr ''y'']] [[''b'' \<mapsto> JStr ''y'']] (Some ''u''))"
proof -
  let ?l = "[[''a'' \<mapsto> JStr ''x''], [''a'' \<mapsto> JStr ''y'']] :: int sql_row list"
  let ?r = "[[''b'' \<mapsto> JStr ''y'']] :: int sql_row list"
  let ?q = "(base_query [] ''t'')\<lparr>sq_selection := Some (EBinary (EIdentifier ''a'') BEq (EIdentifier ''b''))\<rparr>"
  have t: "trim_backticks ''a'' = ''a''" "trim_backticks ''b'' = ''b''" by (simp_all add: trim_backticks_def)
  have "joins_on (Some ''u'') ''a'' ''b'' ?l ?r"
    by (simp add: joins_on_def unaliased_def alias_key_def)
  moreover have "equal_keys_agree ref_env ''a'' ''b'' ?l ?r"
    by (simp add: equal_keys_agree_def json_eq_def ref_env_def json_to_sort_str_def)
  ultimately show ?thesis
    using hash_join_equals_cross_join [of sorted_order "Some ''u''" "''a''" "''b''" ?l ?r ref_env ?q]
    by (simp add: t sorted_order_ok query_conjuncts_def)
qed

section \<open>Grouping\<close>

text \<open>GROUP BY partitions the rows: the result has one row per distinct key, in key order, computed
  from exactly the rows with that key, in their order.\<close>

lemma group_by_partitions_rows:
  "sr_rows (execute_group_by env items rows ks) =
     map (\<lambda>key. concat (map (group_cells env ks key (filter (\<lambda>r. row_group_key env ks r = key) rows)) items))
       (sorted_list_of_set (row_group_key env ks ` set rows))"
proof -
  let ?m = "group_by_key (row_group_key env ks) rows"
  have "the (?m key) = filter (\<lambda>r. row_group_key env ks r = key) rows"
    if "key \<in> set (sorted_list_of_set (row_group_key env ks ` set rows))" for key
    using that by (auto simp: group_by_key_lookup filter_empty_conv)
  then show ?thesis
    by (simp add: execute_group_by_def Let_def hm_entries_def sorted_order_def dom_group_by_key comp_def)
qed

section \<open>Deviations\<close>

definition emp_row :: "int sql_row" where
  "emp_row = [''name'' \<mapsto> JStr ''ann'', ''mail'' \<mapsto> JStr ''m'', ''dept'' \<mapsto> JStr ''7'']"

definition dept_row :: "int sql_row" where
  "dept_row = [''id'' \<mapsto> JStr ''7'', ''city'' \<mapsto> JStr ''ulm'']"

definition mail_query :: select_query where
  "mail_query = (base_query [UnnamedExpr (EIdentifier ''name'')] ''emp'')\<lparr>sq_selection := Some (EIsNotNull (EIdentifier ''mail''))\<rparr>"

definition dept_joins :: "join_clause list" where
  "dept_joins = [\<lparr>jc_relation = FTable [''dept''] ''dept'' None,
     jc_operator = JInner (JOn (EBinary (EIdentifier ''dept'') BEq (EIdentifier ''id'')))\<rparr>]"

definition dept_query :: select_query where
  "dept_query = (base_query [UnnamedExpr (EIdentifier ''name''), UnnamedExpr (EIdentifier ''city'')] ''emp'')
     \<lparr>sq_from := [\<lparr>fi_relation = FTable [''emp''] ''emp'' None, fi_joins = dept_joins\<rparr>]\<rparr>"

definition emp_store :: "int mem_store" where
  "emp_store = [''emp'' \<mapsto> [emp_row], ''dept'' \<mapsto> [dept_row]]"

lemma trim_backticks_plain:
  "trim_backticks ''name'' = ''name''" "trim_backticks ''mail'' = ''mail''" "trim_backticks ''dept'' = ''dept''"
  "trim_backticks ''id'' = ''id''" "trim_backticks ''city'' = ''city''"
  by (simp_all add: trim_backticks_def)

lemma to_lower_ref [simp]: "to_lower ref_env s = s"
  by (simp add: ref_env_def)

lemma map_filter_Cons_Nil: "List.map_filter f [] = []"
  "List.map_filter f (x # xs) = (case f x of None \<Rightarrow> List.map_filter f xs | Some y \<Rightarrow> y # List.map_filter f xs)"
  by (simp_all split: option.split)

lemmas finish_small = finish_select_def where_filter_def group_by_cols_def project_rows_def project_cell_def is_aggregate_def
  select_item_header_def expr_to_col_name_def lookup_col_def is_null_def trim_backticks_plain map_filter_Cons_Nil

lemma pruned_rows:
  "project_to_needed_cols ref_env [''name''] [emp_row] = [[''name'' \<mapsto> JStr ''ann'']]"
  "project_to_needed_cols ref_env [''name'', ''city''] [emp_row] = [[''name'' \<mapsto> JStr ''ann'']]"
proof -
  have "{k \<in> dom (hd [emp_row]). key_needed ref_env cols k} = {''name''}" if "cols = [''name''] \<or> cols = [''name'', ''city'']" for cols
    using that by (auto simp: emp_row_def key_needed_def suffix_def)
  then show "project_to_needed_cols ref_env [''name''] [emp_row] = [[''name'' \<mapsto> JStr ''ann'']]"
    "project_to_needed_cols ref_env [''name'', ''city''] [emp_row] = [[''name'' \<mapsto> JStr ''ann'']]"
    by (auto simp: project_to_needed_cols_def retain_keys_def emp_row_def fun_eq_iff)
qed

lemma pruned_mail: "run_select ref_env sorted_order emp_store mail_query = Inr \<lparr>sr_columns = [''name''], sr_rows = []\<rparr>"
proof -
  have "prune ref_env (query_conjuncts mail_query) (collect_query_needed_cols ref_env mail_query) [emp_row] = [[''name'' \<mapsto> JStr ''ann'']]"
    by (simp add: prune_def apply_partial_where_def query_conjuncts_def collect_query_needed_cols_def mail_query_def base_query_def
        conjunct_applicable_def map_filter_Cons_Nil trim_backticks_plain pruned_rows)
  then show ?thesis
    by (simp add: run_select_def joins_step_def mail_query_def base_query_def add_alias_def ms_scan_def emp_store_def last_or_empty_def finish_small)
qed

lemma unpruned_mail: "finish_select ref_env mail_query [emp_row] = \<lparr>sr_columns = [''name''], sr_rows = [[JStr ''ann'']]\<rparr>"
  by (simp add: mail_query_def base_query_def emp_row_def finish_small)

lemma dept_needed: "collect_query_needed_cols ref_env dept_query = Some [''name'', ''city'']" "query_conjuncts dept_query = []"
  by (simp_all add: collect_query_needed_cols_def query_conjuncts_def dept_query_def base_query_def map_filter_Cons_Nil trim_backticks_plain)

lemma merge_rows_plain: "hash_order_ok ord \<Longrightarrow> finite (dom r) \<Longrightarrow> merge_rows ord None l r = r ++ l"
  by (rule ext) (simp add: merge_rows_lookup unaliased_def map_add_def)

lemma dept_join:
  "apply_joins ref_env sorted_order emp_store dept_joins [l] =
     Inr (if json_eq ref_env (into_value (lookup_col [''dept''] (dept_row ++ l))) (into_value (lookup_col [''id''] (dept_row ++ l)))
          then [dept_row ++ l] else [])"
  by (simp add: dept_joins_def join_row_def ms_scan_def emp_store_def merge_rows_plain sorted_order_ok dept_row_def
      eval_binary_def trim_backticks_plain Let_def)

lemma json_eq_ref:
  "json_eq ref_env JNull (JStr s) \<longleftrightarrow> False"
  "json_eq ref_env (JStr s) (JStr t) \<longleftrightarrow> s = t"
  by (auto simp: json_eq_def ref_env_def)

lemma pruned_dept: "run_select ref_env sorted_order emp_store dept_query = Inr \<lparr>sr_columns = [''name'', ''city''], sr_rows = []\<rparr>"
proof -
  have from_q: "sq_from dept_query = [\<lparr>fi_relation = FTable [''emp''] ''emp'' None, fi_joins = dept_joins\<rparr>]" "dept_joins \<noteq> []"
    by (simp_all add: dept_query_def dept_joins_def)
  have base: "map (add_alias sorted_order None) (ms_scan emp_store ''emp'') = [emp_row]"
    by (simp add: ms_scan_def emp_store_def add_alias_def)
  have pr: "prune ref_env [] (Some [''name'', ''city'']) [emp_row] = [[''name'' \<mapsto> JStr ''ann'']]"
    "prune ref_env [] (Some [''name'', ''city'']) ([] :: int sql_row list) = []"
    by (simp_all add: prune_def apply_partial_where_def pruned_rows) (simp add: project_to_needed_cols_def)
  have "apply_joins ref_env sorted_order emp_store dept_joins [[''name'' \<mapsto> JStr ''ann'']] = Inr []"
    by (simp add: dept_join dept_row_def lookup_col_def map_filter_Cons_Nil json_eq_ref)
  then show ?thesis
    using from_q unfolding run_select_def from_q(1)
    by (simp add: base dept_needed pr joins_step_def last_or_empty_def)
       (simp add: dept_query_def base_query_def finish_small)
qed

lemma unpruned_dept:
  "map_sum id (finish_select ref_env dept_query) (apply_joins ref_env sorted_order emp_store dept_joins [emp_row]) =
     Inr \<lparr>sr_columns = [''name'', ''city''], sr_rows = [[JStr ''ann'', JStr ''ulm'']]\<rparr>"
  unfolding dept_join
  by (simp add: lookup_col_def map_filter_Cons_Nil json_eq_ref dept_row_def emp_row_def)
     (simp add: dept_query_def base_query_def finish_small)

text \<open>Pruning drops columns the query still needs: a column named only in an IS NOT NULL test is
  removed before the test runs, so a matching row is not returned, and a column named only in an ON
  condition is removed before the join runs, so a row with a partner is not joined. Without pruning
  both queries return their row.\<close>

lemma pruning_loses_rows:
  "run_select ref_env sorted_order emp_store mail_query = Inr \<lparr>sr_columns = [''name''], sr_rows = []\<rparr> \<and>
   finish_select ref_env mail_query [emp_row] = \<lparr>sr_columns = [''name''], sr_rows = [[JStr ''ann'']]\<rparr> \<and>
   run_select ref_env sorted_order emp_store dept_query = Inr \<lparr>sr_columns = [''name'', ''city''], sr_rows = []\<rparr> \<and>
   map_sum id (finish_select ref_env dept_query) (apply_joins ref_env sorted_order emp_store dept_joins [emp_row]) =
     Inr \<lparr>sr_columns = [''name'', ''city''], sr_rows = [[JStr ''ann'', JStr ''ulm'']]\<rparr>"
  by (intro conjI pruned_mail unpruned_mail pruned_dept unpruned_dept)

lemma eval_function_aggregate: "to_upper env name \<in> set agg_names \<Longrightarrow> eval_function env name vs = ENull"
  by (auto simp: eval_function_def agg_names_def Let_def)

text \<open>C40. A HAVING condition that an aggregate is greater than a number, or greater or equal, removes
  every group, whatever the aggregate's value is: the aggregate is evaluated as a scalar function on the result row, where it
  is null, and null is below and not equal to every number.\<close>

theorem having_aggregate_drops_groups:
  assumes "is_aggregate env (EFunction name args d)" "sql_value_to_json env v = JNum n" "op \<in> {BGt, BGtEq}"
  shows "sr_rows (apply_having env (EBinary (EFunction name args d) op (EValue v)) res) = []"
proof -
  have "eval_expr env (EFunction name args d) r = ENull" for r
    using assms(1) by (simp add: is_aggregate_def eval_function_aggregate)
  then have "\<not> as_bool (eval_expr env (EBinary (EFunction name args d) op (EValue v)) r)" for r
    using assms(2,3) by (auto simp: eval_binary_def cmp_vals_def cmp_json_cases)
  then show ?thesis by (simp add: apply_having_def)
qed

theorem having_aggregate_drops_groups_witness:
  "sr_rows (apply_having ref_env (EBinary (EFunction ''COUNT'' (Some [AWildcard]) False) BGt (EValue (SNumber ''1'')))
     \<lparr>sr_columns = [''COUNT(*)''], sr_rows = [[JNum (JInt 5)]]\<rparr>) = []"
  by (rule having_aggregate_drops_groups)
     (simp_all add: is_aggregate_def agg_names_def ref_env_def sql_value_to_json_def)

end
