(* ===== verification/Spec2Isabelle.thy ===== *)
theory Spec2Isabelle
  imports Indexes Encoding MemtableConc Compaction BlockCache StreamLoad TabletWriter Joins Sessions Cohort
    GroupBy RuntimeFilter Rebalance ShardMap SqlQueries
begin

text \<open>
  A verification library for wow-db, a distributed column store with storage nodes, compute nodes
  and query nodes (crates \<open>storage-node\<close>, \<open>compute-node\<close>, \<open>query-node\<close> and \<open>shared\<close> under \<open>src/\<close>).

  \<^bold>\<open>The program.\<close>  A client speaks SQL to a query node.  The query node keeps the cluster registry, decides
  on which storage nodes the buckets of a table live, moves shards between them, coordinates
  two-phase transactions and executes SELECT on rows fetched from the storage nodes.  A storage node
  writes each batch to the write-ahead log, puts its rows into the memory table, freezes and flushes
  full tables as SSTables with column files, Bloom filters and min/max data, records the live tables
  in the MANIFEST and compacts them level by level; reads go through a block cache and skip granules
  by index.  A compute node filters, joins, sorts and aggregates column batches and runs the session,
  funnel, cohort and path analyses.

  \<^bold>\<open>Conventions.\<close>  \<open>u64\<close>, \<open>u32\<close> and \<open>i64\<close> are machine words, signed reading by \<open>sint\<close>; \<open>usize\<close> is a
  natural number with the wrap-around written out where a product or sum can exceed it.  A panic is
  \<open>None\<close>, an \<open>Err\<close> is \<open>Inl\<close> or a false flag with the state left behind.  A hash map is a map, and the
  order in which the code iterates over it is an argument with the hypothesis \<open>hash_order_ok\<close> (each
  entry once).  Clocks, random ids and outcomes of file operations are arguments.  Third-party code
  (xxh3, CRC-32, LZ4, serde JSON, the skip list, the Arrow take kernel, unstable sorting, sqlparser,
  float arithmetic) appears as arguments or record fields with named hypotheses, and each property
  with such a hypothesis has a witness for an instance.  Floats of scores and rates are exact
  rationals with NaN and infinity (\<open>F64\<close>).

  \<^bold>\<open>Shared theories.\<close>
  \<^item> \<open>Prelude\<close>: byte codecs (locales \<open>prefix_codec\<close>, \<open>framed_codec\<close>, \<open>record_codec\<close>: a parser that stops
    at the first broken record returns exactly the whole records before it), hash-map iteration,
    iterator minima and maxima, and two interfaces for histories of operations: \<open>simulation\<close> (answers
    agree with a specification) and \<open>history_invariant\<close>.
  \<^item> \<open>F64\<close>: the float values and Rust's \<open>Ordering\<close>.

  \<^bold>\<open>Storage node.\<close>
  \<^item> \<open>Encoding\<close> (\<open>columnar/encoding.rs\<close>): dictionary, delta, bit-packed and plain columns; each is an
    instance of \<open>column_codec\<close>, whose law is that decoding inverts encoding.
  \<^item> \<open>Bloom\<close> (\<open>lsm/bloom.rs\<close>): filter, file format and granule index; the locale \<open>approx_filter\<close> has the
    law of no false negatives, given that the bit count does not wrap to zero.
  \<^item> \<open>Indexes\<close> (\<open>index/minmax.rs\<close>, \<open>set_index.rs\<close>, \<open>ngrambf.rs\<close>, \<open>bloom_index.rs\<close>): the locale \<open>skip_index\<close>
    turns a sound skip test into a complete scan.
  \<^item> \<open>Memtable\<close>, \<open>MemtableConc\<close> (\<open>lsm/memtable.rs\<close>, keys and rows of \<open>shared/src/types.rs\<close>): the table
    operations, and the writers, freezes and flushes as a step relation in which each atomic access
    is one step; invariants by rule induction over reachable states.
  \<^item> \<open>Wal\<close> (\<open>lsm/wal.rs\<close>): records, group commit, rotation, flusher, replay and truncation; durability of
    a group commit and the effect of a crash at any byte.
  \<^item> \<open>Levels\<close>, \<open>Manifest\<close>, \<open>Compaction\<close> (\<open>lsm/levels.rs\<close>, \<open>manifest.rs\<close>, \<open>compaction.rs\<close>): level structure,
    the event file and the compaction of levels.  An append to the MANIFEST may fail to open the
    file, stop after any number of bytes, or complete.
  \<^item> \<open>Sstable\<close> (\<open>lsm/sstable.rs\<close>): flushing a frozen table into its files, with every error path.
  \<^item> \<open>BlockCache\<close> (\<open>block_cache.rs\<close>): the linked LRU lists, refined to plain lists by \<open>simulation\<close>.
  \<^item> \<open>TabletWriter\<close> (\<open>grpc/write.rs\<close>): the writer that joins log, memory table and flush; restart keeps
    the rows of any history on a healthy disk.
  \<^item> \<open>Transactions\<close> (\<open>storage-node/src/transaction.rs\<close>, \<open>query-node/src/transaction.rs\<close>): participants and
    coordinator of two-phase commit, with atomicity as a \<open>history_invariant\<close>.

  \<^bold>\<open>Compute node.\<close>
  \<^item> \<open>Vectorized\<close> (\<open>executor/simd/scan.rs\<close>, \<open>filter.rs\<close>, \<open>agg.rs\<close>), \<open>Joins\<close> (\<open>simd/hash_join.rs\<close>, \<open>sort.rs\<close>),
    \<open>GroupBy\<close> (\<open>vectorized_agg.rs\<close>), \<open>RuntimeFilter\<close> (\<open>runtime_filter.rs\<close>): masks against scans, the hash
    join against the nested loop, top-k against a sorted arrangement, merged grouping against the
    aggregates of each key, and filtered against unfiltered joins.
  \<^item> \<open>Sessions\<close>, \<open>Funnel\<close>, \<open>Cohort\<close> (\<open>analytics/sessionize.rs\<close>, \<open>executor/analytics/funnel.rs\<close>, \<open>cohort.rs\<close>,
    \<open>path.rs\<close>): sessions as maximal runs, funnel merge and counts, retention bounds, counted paths.

  \<^bold>\<open>Query node.\<close>
  \<^item> \<open>StreamLoad\<close> (\<open>ingestion/spark.rs\<close>): the four handlers of the stream-load endpoint.
  \<^item> \<open>Cluster\<close> (\<open>shared/src/cluster.rs\<close>, \<open>meta/cluster_topology.rs\<close>, \<open>planner/shard_placement.rs\<close>) and
    \<open>Rebalance\<close> (\<open>meta/rebalance/\<close>): registry, placement, planner, migrator and coordinator; placement
    only uses active storage nodes, planning terminates and one run balances.
  \<^item> \<open>ShardMap\<close> (\<open>meta/shard_map.rs\<close>): the shard cache refines the store without a cache.
  \<^item> \<open>SqlEval\<close>, \<open>SqlSelect\<close>, \<open>SqlQueries\<close> (\<open>executor/select_exec.rs\<close>, \<open>mem_store.rs\<close>): expressions, the SELECT
    executor and what its results satisfy: pruning changes no result, results are rectangular, ORDER
    BY is lexicographic, the hash join agrees with the cross join, and HAVING on aggregates fails.

  \<^bold>\<open>Bounds and termination.\<close>  Loops are structural recursions or functions with a measure.  The eviction
  loop of the block cache and the planner's loop of the rebalancer are partial functions into option,
  and the properties show that they return.  Size hypotheses are those of the code's
  types: record lengths and dictionary codes below 2^32, at most 2^32 rows in a batch whose row
  numbers become \<open>u32\<close>, at most 64 funnel steps in a 64-bit mask, and counters that do not run out.

  \<^bold>\<open>Not modelled.\<close>  The network services (gRPC, MySQL protocol, HTTP), process start-up, logging and
  metrics, object-store and file backends, timers and task spawning, the SQL text parser and the
  query planner's plan trees, the INSERT text scanner, metadata registries, tiering and partition
  clean-up.  These are input and output, calls to external crates, or text processing around the
  modelled parts.  Concurrency is modelled for the memory table; elsewhere an operation under a lock
  is one step.  Read errors when the MANIFEST is opened and the Unicode part of \<open>trim\<close> are left out,
  since the file is written by the program itself as JSON lines.
\<close>

end
